(* ===== verification/CPrelude.thy ===== *)
theory CPrelude
  imports Main "HOL-Library.Word" "HOL-Library.Monad_Syntax"
begin

text \<open>
  What every component of the SDK model shares: C strings and bytes, the integer
  conversions of the target (32-bit \<open>int\<close>, 64-bit \<open>size_t\<close>), memory blocks with
  bounds-checked access, the error codes of \<open>le_error.h\<close>, and the allocator.

  Conventions of the whole development: a function whose C original can read or write out
  of bounds, dereference NULL or use freed memory returns an \<open>option\<close>, with \<open>None\<close> for
  that undefined behaviour; a C pointer that may be NULL is an \<open>option\<close> argument; state
  that the C code keeps in globals is a record that is passed in and returned updated.
\<close>

subsection \<open>Collections of facts\<close>

named_theorems c_mem \<open>unfolding of the allocator and of memory blocks\<close>
named_theorems c_conv \<open>integer conversions of the target\<close>
named_theorems ring_simps \<open>the abstract list of a ring buffer after an operation\<close>

subsection \<open>Integers of the target\<close>

type_synonym size_t = "64 word"
type_synonym uint = "32 word"

abbreviation INT_MAX :: int where "INT_MAX \<equiv> 2147483647"
abbreviation INT_MIN :: int where "INT_MIN \<equiv> - 2147483648"

definition int_range :: "int \<Rightarrow> bool" where
  "int_range i \<longleftrightarrow> INT_MIN \<le> i \<and> i \<le> INT_MAX"

text \<open>The implicit conversions \<open>int\<close> to \<open>size_t\<close>, and \<open>unsigned int\<close> to \<open>int\<close>.\<close>

definition size_of_int :: "int \<Rightarrow> size_t" where
  "size_of_int i = word_of_int i"

definition int_of_uint :: "uint \<Rightarrow> int" where
  "int_of_uint w = sint w"

lemma size_of_int_neg1 [c_conv]: "size_of_int (- 1) = - 1"
  by (simp add: size_of_int_def)

lemma uint_size_of_int:
  assumes "0 \<le> i" "i < 2 ^ 64"
  shows "uint (size_of_int i) = i"
  using assms
  by (simp add: size_of_int_def uint_word_of_int_eq take_bit_int_eq_self del: unsigned_of_int)

lemma unat_size_of_int [c_conv]: "0 \<le> i \<Longrightarrow> i < 2 ^ 64 \<Longrightarrow> unat (size_of_int i) = nat i"
  unfolding unat_eq_nat_uint by (simp only: uint_size_of_int)

lemma int_of_uint_small [c_conv]:
  assumes "unat w < 2 ^ 31"
  shows "int_of_uint w = int (unat w)"
proof -
  have eq: "int (unat w) = uint w" by simp
  then have "uint w < 2 ^ 31" using assms by (metis of_nat_less_numeral_power_cancel_iff)
  moreover have "- (2 ^ 31) \<le> uint w"
    by (rule order_trans [OF _ uint_ge_0]) simp
  ultimately have "signed_take_bit 31 (uint w) = uint w"
    by (intro signed_take_bit_int_eq_self) assumption+
  then show ?thesis
    using sint_uint [of w] eq by (simp add: int_of_uint_def)
qed

subsection \<open>C strings\<close>

abbreviation NUL :: char where "NUL \<equiv> CHR 0x00"

text \<open>A C string is the bytes in front of the first NUL.\<close>

definition is_cstr :: "string \<Rightarrow> bool" where
  "is_cstr s \<longleftrightarrow> NUL \<notin> set s"

definition c_str :: "string \<Rightarrow> string" where
  "c_str bs = takeWhile (\<lambda>c. c \<noteq> NUL) bs"

lemma is_cstr_c_str [simp, intro]: "is_cstr (c_str bs)"
  using set_takeWhileD [of NUL "\<lambda>c. c \<noteq> NUL" bs] by (auto simp: is_cstr_def c_str_def)

lemma c_str_id [simp]: "is_cstr s \<Longrightarrow> c_str s = s"
  by (auto simp: is_cstr_def c_str_def takeWhile_eq_all_conv)

lemma c_str_append_NUL [simp]: "is_cstr s \<Longrightarrow> c_str (s @ NUL # bs) = s"
  by (induction s) (auto simp: is_cstr_def c_str_def)

lemma is_cstr_simps [simp]:
  "is_cstr []"
  "is_cstr (c # s) \<longleftrightarrow> c \<noteq> NUL \<and> is_cstr s"
  "is_cstr (s @ t) \<longleftrightarrow> is_cstr s \<and> is_cstr t"
  by (auto simp: is_cstr_def)

lemma is_cstr_sub [intro]: "is_cstr s \<Longrightarrow> is_cstr (take n s)" "is_cstr s \<Longrightarrow> is_cstr (drop n s)"
  by (auto simp: is_cstr_def dest: in_set_takeD in_set_dropD)

text \<open>
  \<open>snprintf (dst, n, "%s", s)\<close> into a buffer of \<open>n\<close> bytes keeps at most \<open>n - 1\<close>
  bytes; \<open>strcmp\<close> is used in the sources only to test for equality.
\<close>

definition snprintf_s :: "nat \<Rightarrow> string \<Rightarrow> string" where
  "snprintf_s n s = take (n - 1) s"

lemma snprintf_s_length: "0 < n \<Longrightarrow> length (snprintf_s n s) < n"
  by (simp add: snprintf_s_def)

lemma snprintf_s_fits [simp]: "length s < n \<Longrightarrow> snprintf_s n s = s"
  by (simp add: snprintf_s_def)

lemma is_cstr_snprintf_s [intro]: "is_cstr s \<Longrightarrow> is_cstr (snprintf_s n s)"
  by (auto simp: snprintf_s_def)

text \<open>\<open>tolower\<close> in the C locale.\<close>

definition lower :: "char \<Rightarrow> char" where
  "lower c = (if 65 \<le> (of_char c :: nat) \<and> (of_char c :: nat) \<le> 90 then char_of ((of_char c :: nat) + 32) else c)"

subsection \<open>Memory blocks\<close>

text \<open>
  A block is the list of its bytes, so its length is the size it was allocated with. A
  write of \<open>xs\<close> at offset \<open>i\<close> (\<open>memcpy\<close>, \<open>memset\<close>, an assignment) is defined only
  inside the block.
\<close>

definition blit :: "nat \<Rightarrow> 'a list \<Rightarrow> 'a list \<Rightarrow> 'a list option" where
  "blit i xs b =
     (if i + length xs \<le> length b then Some (take i b @ xs @ drop (i + length xs) b) else None)"

definition rd :: "'a list \<Rightarrow> nat \<Rightarrow> 'a option" where
  "rd b i = (if i < length b then Some (b ! i) else None)"

lemma blit_Some [c_mem]:
  "i + length xs \<le> length b \<Longrightarrow> blit i xs b = Some (take i b @ xs @ drop (i + length xs) b)"
  by (simp add: blit_def)

lemma blit_None_iff: "blit i xs b = None \<longleftrightarrow> length b < i + length xs"
  by (auto simp: blit_def)

lemma blit_length: "blit i xs b = Some b' \<Longrightarrow> length b' = length b"
  by (auto simp: blit_def split: if_splits)

lemma rd_Some [c_mem]: "i < length b \<Longrightarrow> rd b i = Some (b ! i)"
  by (simp add: rd_def)

lemma list_all_upd: "list_all P xs \<Longrightarrow> P x \<Longrightarrow> list_all P (xs[i := x])"
  by (auto simp: list_all_iff dest: set_update_subset_insert [THEN subsetD])

lemma rd_eq_Some_iff: "rd b i = Some x \<longleftrightarrow> i < length b \<and> b ! i = x"
  by (auto simp: rd_def)

subsection \<open>Error codes (le_error.h)\<close>

definition LE_SUCCESS :: int where "LE_SUCCESS = 0"
definition LE_ERROR_UNKNOWN :: int where "LE_ERROR_UNKNOWN = 100000"
definition LE_ERROR_INVAILD_PARAM :: int where "LE_ERROR_INVAILD_PARAM = 100001"
definition LE_ERROR_ALLOCATING_MEM :: int where "LE_ERROR_ALLOCATING_MEM = 100002"
definition LE_ERROR_CREATING_MUTEX :: int where "LE_ERROR_CREATING_MUTEX = 100003"
definition LE_ERROR_TIMEOUT :: int where "LE_ERROR_TIMEOUT = 100006"
definition LE_ERROR_PARAM_RANGE_OVERFLOW :: int where "LE_ERROR_PARAM_RANGE_OVERFLOW = 100007"
definition LEDA_ERROR_PROPERTY_NOT_EXIST :: int where "LEDA_ERROR_PROPERTY_NOT_EXIST = 109002"
definition LEDA_ERROR_SERVICE_NOT_EXIST :: int where "LEDA_ERROR_SERVICE_NOT_EXIST = 109005"
definition LEDA_ERROR_CONNECTION :: int where "LEDA_ERROR_CONNECTION = 109014"

lemmas le_error_defs =
  LE_SUCCESS_def LE_ERROR_UNKNOWN_def LE_ERROR_INVAILD_PARAM_def LE_ERROR_ALLOCATING_MEM_def
  LE_ERROR_CREATING_MUTEX_def LE_ERROR_TIMEOUT_def LE_ERROR_PARAM_RANGE_OVERFLOW_def
  LEDA_ERROR_PROPERTY_NOT_EXIST_def LEDA_ERROR_SERVICE_NOT_EXIST_def LEDA_ERROR_CONNECTION_def

subsection \<open>The allocator\<close>

text \<open>
  \<open>malloc\<close> may fail on any call: \<open>orc k\<close> tells whether the \<open>k\<close>-th call succeeds, for
  an arbitrary \<open>orc\<close>. \<open>live\<close> counts the blocks allocated and not yet freed, so a leak
  is a call that leaves it too large, and a block freed twice makes it too small.
\<close>

record mem =
  orc :: "nat \<Rightarrow> bool"
  calls :: nat
  live :: int

definition malloc :: "mem \<Rightarrow> bool \<times> mem" where
  "malloc m =
     (if orc m (calls m) then (True, m\<lparr>calls := Suc (calls m), live := live m + 1\<rparr>)
      else (False, m\<lparr>calls := Suc (calls m)\<rparr>))"

text \<open>\<open>realloc\<close> of a live block: it stays one block, and on failure it is left as it is.\<close>

definition c_realloc :: "mem \<Rightarrow> bool \<times> mem" where
  "c_realloc m = (orc m (calls m), m\<lparr>calls := Suc (calls m)\<rparr>)"

definition c_free :: "nat \<Rightarrow> mem \<Rightarrow> mem" where
  "c_free n m = m\<lparr>live := live m - int n\<rparr>"

definition always :: mem where
  "always = \<lparr>orc = (\<lambda>_. True), calls = 0, live = 0\<rparr>"

definition never :: mem where
  "never = \<lparr>orc = (\<lambda>_. False), calls = 0, live = 0\<rparr>"

definition reliable :: "mem \<Rightarrow> bool" where
  "reliable m \<longleftrightarrow> (\<forall>k. orc m k)"

lemma reliable_always [simp, intro]: "reliable always"
  by (simp add: reliable_def always_def)

lemma malloc_cases:
  obtains "malloc m = (True, m\<lparr>calls := Suc (calls m), live := live m + 1\<rparr>)" "orc m (calls m)"
    | "malloc m = (False, m\<lparr>calls := Suc (calls m)\<rparr>)" "\<not> orc m (calls m)"
  by (cases "orc m (calls m)") (auto simp: malloc_def)

lemma orc_frame [simp]:
  "orc (snd (malloc m)) = orc m" "orc (snd (c_realloc m)) = orc m" "orc (c_free n m) = orc m"
  by (simp_all add: malloc_def c_realloc_def c_free_def)

lemma live_frame [simp]:
  "live (snd (c_realloc m)) = live m" "live (c_free n m) = live m - int n"
  by (simp_all add: c_realloc_def c_free_def)

lemma reliable_malloc [simp]: "reliable m \<Longrightarrow> fst (malloc m)"
  by (simp add: malloc_def reliable_def)

lemma reliable_realloc [simp]: "reliable m \<Longrightarrow> fst (c_realloc m)"
  by (simp add: c_realloc_def reliable_def)

lemma reliable_frame [simp]:
  "reliable (snd (malloc m)) = reliable m" "reliable (snd (c_realloc m)) = reliable m"
  "reliable (c_free n m) = reliable m"
  by (simp_all add: reliable_def)

lemma malloc_live:
  "malloc m = (ok, m') \<Longrightarrow> live m' = live m + (if ok then 1 else 0)"
  by (auto simp: malloc_def split: if_splits)

lemma realloc_cases:
  obtains m' where "c_realloc m = (True, m')" "live m' = live m" "reliable m' = reliable m"
    | m' where "c_realloc m = (False, m')" "live m' = live m" "\<not> reliable m" "\<not> reliable m'"
  by (cases "orc m (calls m)") (auto simp: c_realloc_def reliable_def)

lemma malloc_split:
  obtains m' where "malloc m = (True, m')" "live m' = live m + 1" "reliable m' = reliable m"
    | m' where "malloc m = (False, m')" "live m' = live m" "\<not> reliable m" "\<not> reliable m'"
  by (cases rule: malloc_cases [of m]) (auto simp: reliable_def)

end
