(* ===== verification/CDouble.thy ===== *)
theory CDouble
  imports CPrelude Complex_Main
begin

text \<open>
  What the SDK uses of C's \<open>double\<close> and of the conversions of the standard library: IEEE 754
  binary64 values, \<open>strtod\<close> (correctly rounded), \<open>printf\<close> with \<open>%g\<close>, \<open>%f\<close> and \<open>%d\<close>, the
  conversion to \<open>int\<close>, \<open>atoi\<close> and \<open>atof\<close>. A finite double is its sign and its magnitude, a
  rational number.
\<close>

subsection \<open>Values and rounding\<close>

datatype double = Fin bool rat | Inf bool | NaN

fun blen :: "int \<Rightarrow> int" where
  "blen n = (if n \<le> 0 then 0 else 1 + blen (n div 2))"

declare blen.simps [simp del]

definition pow2 :: "int \<Rightarrow> rat" where
  "pow2 e = 2 powi e"

definition pow10 :: "int \<Rightarrow> rat" where
  "pow10 e = 10 powi e"

text \<open>The exponent of the binary digit a positive rational starts with.\<close>

definition flog2 :: "rat \<Rightarrow> int" where
  "flog2 r = (let (p, q) = quotient_of r; k = blen p - blen q in if r < pow2 k then k - 1 else k)"

definition round_even :: "rat \<Rightarrow> int" where
  "round_even r =
     (let f = \<lfloor>r\<rfloor>; d = r - of_int f in
      if d < 1 / 2 then f else if 1 / 2 < d then f + 1 else if even f then f else f + 1)"

text \<open>Round to 53 bits of precision, with the exponents of the subnormal numbers below.\<close>

definition rnd :: "rat \<Rightarrow> rat" where
  "rnd r = (if r = 0 then 0
            else (let e = max (flog2 r - 52) (- 1074) in of_int (round_even (r / pow2 e)) * pow2 e))"

definition mk_double :: "bool \<Rightarrow> rat \<Rightarrow> double" where
  "mk_double s r = (if pow2 1024 \<le> rnd r then Inf s else Fin s (rnd r))"

definition double_of_int :: "int \<Rightarrow> double" where
  "double_of_int n = mk_double (n < 0) (of_int \<bar>n\<bar>)"

text \<open>The IEEE comparisons: a NaN compares false, the two zeros are equal.\<close>

fun d_eq :: "double \<Rightarrow> double \<Rightarrow> bool" where
  "d_eq (Fin s r) (Fin s' r') = ((if s then - r else r) = (if s' then - r' else r'))"
| "d_eq (Inf s) (Inf s') = (s = s')"
| "d_eq _ _ = False"

text \<open>\<open>number >= n\<close>, \<open>number <= n\<close> and \<open>(int) number\<close>; the last is undefined out of range.\<close>

fun d_ge_int :: "double \<Rightarrow> int \<Rightarrow> bool" where
  "d_ge_int (Fin s r) n = (of_int n \<le> (if s then - r else r))"
| "d_ge_int (Inf s) n = (\<not> s)"
| "d_ge_int NaN n = False"

fun d_le_int :: "double \<Rightarrow> int \<Rightarrow> bool" where
  "d_le_int (Fin s r) n = ((if s then - r else r) \<le> of_int n)"
| "d_le_int (Inf s) n = s"
| "d_le_int NaN n = False"

fun d_to_int :: "double \<Rightarrow> int option" where
  "d_to_int (Fin s r) =
     (let n = (if s then - \<lfloor>r\<rfloor> else \<lfloor>r\<rfloor>) in if int_range n then Some n else None)"
| "d_to_int _ = None"

subsection \<open>Reading numbers\<close>

definition is_digit :: "char \<Rightarrow> bool" where
  "is_digit c \<longleftrightarrow> 48 \<le> (of_char c :: nat) \<and> (of_char c :: nat) \<le> 57"

definition is_space :: "char \<Rightarrow> bool" where
  "is_space c \<longleftrightarrow> c = CHR '' '' \<or> 9 \<le> (of_char c :: nat) \<and> (of_char c :: nat) \<le> 13"

definition digit_val :: "char \<Rightarrow> int" where
  "digit_val c = of_char c - 48"

definition dec_val :: "string \<Rightarrow> int" where
  "dec_val ds = foldl (\<lambda>a c. 10 * a + digit_val c) 0 ds"

text \<open>An optional sign: whether it is a minus, and its length.\<close>

definition sign_of :: "string \<Rightarrow> bool \<times> nat" where
  "sign_of s = (case s of [] \<Rightarrow> (False, 0)
                | c # _ \<Rightarrow> if c = CHR ''-'' then (True, 1) else if c = CHR ''+'' then (False, 1) else (False, 0))"

text \<open>The exponent part, \<open>e\<close> or \<open>E\<close> with at least one digit: its value and length.\<close>

definition exp_part :: "string \<Rightarrow> int \<times> nat" where
  "exp_part s =
     (case s of [] \<Rightarrow> (0, 0)
      | c # t \<Rightarrow>
          (let (neg, k) = sign_of t; ds = takeWhile is_digit (drop k t) in
           if (c = CHR ''e'' \<or> c = CHR ''E'') \<and> ds \<noteq> []
           then (if neg then - dec_val ds else dec_val ds, 1 + k + length ds) else (0, 0)))"

text \<open>The decimal form of \<open>strtod\<close> behind the sign: magnitude and length, if there is a number.\<close>

definition decimal :: "string \<Rightarrow> (rat \<times> nat) option" where
  "decimal s =
     (let ip = takeWhile is_digit s; r1 = drop (length ip) s;
          (fp, k) = (case r1 of [] \<Rightarrow> ([], 0)
                     | c # t \<Rightarrow> if c = CHR ''.'' then (takeWhile is_digit t, 1 + length (takeWhile is_digit t)) else ([], 0)) in
      if ip = [] \<and> fp = [] then None
      else (let (ex, l) = exp_part (drop k r1) in
            Some (of_int (dec_val (ip @ fp)) * pow10 (ex - int (length fp)), length ip + k + l)))"

definition hex_val :: "char \<Rightarrow> int option" where
  "hex_val c =
     (let n = (of_char c :: int) in
      if 48 \<le> n \<and> n \<le> 57 then Some (n - 48)
      else if 65 \<le> n \<and> n \<le> 70 then Some (n - 55)
      else if 97 \<le> n \<and> n \<le> 102 then Some (n - 87) else None)"

definition is_hex :: "char \<Rightarrow> bool" where
  "is_hex c \<longleftrightarrow> hex_val c \<noteq> None"

text \<open>The hexadecimal form, from its \<open>0x\<close> on.\<close>

definition hexadecimal :: "string \<Rightarrow> (rat \<times> nat) option" where
  "hexadecimal s =
     (if map lower (take 2 s) \<noteq> ''0x'' then None
      else
        (let r0 = drop 2 s; ip = takeWhile is_hex r0; r1 = drop (length ip) r0;
             fp = (if take 1 r1 = ''.'' then takeWhile is_hex (drop 1 r1) else []);
             k = (if take 1 r1 = ''.'' then 1 + length fp else 0); r2 = drop k r1;
             (neg, j) = sign_of (drop 1 r2); ds = takeWhile is_digit (drop (1 + j) r2);
             (ex, l) = (if map lower (take 1 r2) = ''p'' \<and> ds \<noteq> []
                        then (if neg then - dec_val ds else dec_val ds, 1 + j + length ds) else (0, 0)) in
         if ip = [] \<and> fp = [] then None
         else Some (of_int (foldl (\<lambda>a c. 16 * a + the (hex_val c)) 0 (ip @ fp)) * pow2 (ex - 4 * int (length fp)),
                    2 + length ip + k + l)))"

text \<open>\<open>inf\<close>, \<open>infinity\<close> and \<open>nan\<close>, the last with an optional sequence in parentheses.\<close>

definition special :: "bool \<Rightarrow> string \<Rightarrow> (double \<times> nat) option" where
  "special neg s =
     (if map lower (take 8 s) = ''infinity'' then Some (Inf neg, 8)
      else if map lower (take 3 s) = ''inf'' then Some (Inf neg, 3)
      else if map lower (take 3 s) = ''nan'' then
        (let q = takeWhile (\<lambda>c. is_digit c \<or> 97 \<le> (of_char (lower c) :: nat) \<and> (of_char (lower c) :: nat) \<le> 122
                             \<or> c = CHR ''_'') (drop 4 s) in
         Some (NaN, if take 1 (drop 3 s) = ''('' \<and> take 1 (drop (4 + length q) s) = '')'' then 5 + length q else 3))
      else None)"

text \<open>\<open>strtod\<close>: the value, and how many characters were read (0: no number).\<close>

definition strtod :: "string \<Rightarrow> double \<times> nat" where
  "strtod s =
     (let ws = length (takeWhile is_space s); s1 = drop ws s; (neg, k) = sign_of s1; s2 = drop k s1 in
      case special neg s2 of
        Some (d, l) \<Rightarrow> (d, ws + k + l)
      | None \<Rightarrow>
          (case (case hexadecimal s2 of None \<Rightarrow> decimal s2 | Some h \<Rightarrow> Some h) of
             None \<Rightarrow> (Fin False 0, 0)
           | Some (r, l) \<Rightarrow> (mk_double neg r, ws + k + l)))"

definition atof :: "string \<Rightarrow> double" where
  "atof s = fst (strtod s)"

text \<open>\<open>atoi\<close>: \<open>strtol\<close> saturates at the range of \<open>long\<close>, the conversion to \<open>int\<close> wraps.\<close>

definition atoi :: "string \<Rightarrow> int" where
  "atoi s =
     (let s1 = dropWhile is_space s; (neg, k) = sign_of s1; v = dec_val (takeWhile is_digit (drop k s1));
          l = max (- (2 ^ 63)) (min (2 ^ 63 - 1) (if neg then - v else v)) in
      sint (word_of_int l :: 32 word))"

subsection \<open>Printing numbers\<close>

definition digit :: "int \<Rightarrow> char" where
  "digit d = ''0123456789'' ! nat d"

function dec :: "int \<Rightarrow> string" where
  "dec n = (if n < 10 then [digit n] else dec (n div 10) @ [digit (n mod 10)])"
  by auto
termination by (relation "measure nat") auto

declare dec.simps [simp del]

text \<open>\<open>%d\<close>\<close>

definition print_int :: "int \<Rightarrow> string" where
  "print_int n = (if n < 0 then CHR ''-'' # dec (- n) else dec n)"

text \<open>The decimal exponent of a positive rational: \<open>10 ^ flog10 r \<le> r\<close>.\<close>

definition flog10 :: "rat \<Rightarrow> int" where
  "flog10 r = (let (p, q) = quotient_of r; k = int (length (dec p)) - int (length (dec q)) in
               if r < pow10 k then k - 1 else k)"

definition strip0 :: "string \<Rightarrow> string" where
  "strip0 ds = rev (dropWhile (\<lambda>c. c = CHR ''0'') (rev ds))"

definition with_point :: "string \<Rightarrow> string \<Rightarrow> string" where
  "with_point ip fp = (if fp = [] then ip else ip @ CHR ''.'' # fp)"

text \<open>\<open>%1.Pg\<close> of a positive number: \<open>P\<close> significant digits, trailing zeros removed.\<close>

definition print_g_pos :: "nat \<Rightarrow> rat \<Rightarrow> string" where
  "print_g_pos P r =
     (let x0 = flog10 r;
          d0 = round_even (r * pow10 (int P - 1 - x0));
          (d, x) = (if d0 = 10 ^ P then (10 ^ (P - 1), x0 + 1) else (d0, x0));
          ds = dec d in
      if x < - 4 \<or> int P \<le> x then
        with_point (take 1 ds) (strip0 (drop 1 ds)) @ CHR ''e'' # (if x < 0 then CHR ''-'' else CHR ''+'') #
          (if \<bar>x\<bar> < 10 then CHR ''0'' # dec \<bar>x\<bar> else dec \<bar>x\<bar>)
      else if 0 \<le> x then with_point (take (nat x + 1) ds) (strip0 (drop (nat x + 1) ds))
      else with_point ''0'' (strip0 (replicate (nat (- x) - 1) (CHR ''0'') @ ds)))"

fun print_g :: "nat \<Rightarrow> double \<Rightarrow> string" where
  "print_g P (Fin s r) = (if s then [CHR ''-''] else []) @ (if r = 0 then ''0'' else print_g_pos P r)"
| "print_g P (Inf s) = (if s then ''-inf'' else ''inf'')"
| "print_g P NaN = ''nan''"

text \<open>\<open>%lf\<close>: six decimals.\<close>

fun print_f :: "double \<Rightarrow> string" where
  "print_f (Fin s r) =
     (let d = round_even (r * 1000000); fp = dec (d mod 1000000) in
      (if s then [CHR ''-''] else []) @ dec (d div 1000000) @ CHR ''.'' # replicate (6 - length fp) (CHR ''0'') @ fp)"
| "print_f (Inf s) = (if s then ''-inf'' else ''inf'')"
| "print_f NaN = ''nan''"

subsection \<open>Integers survive the conversions\<close>

lemma blen_bounds: "0 < n \<Longrightarrow> 0 < blen n \<and> 2 ^ nat (blen n - 1) \<le> n \<and> n < 2 ^ nat (blen n)"
proof (induction n rule: blen.induct)
  case (1 n)
  show ?case
  proof (cases "n div 2 = 0")
    case True
    then have "n = 1" using 1 by simp
    then show ?thesis by (simp add: blen.simps)
  next
    case False
    then have "0 < n div 2" using 1 by simp
    with 1 have IH: "0 < blen (n div 2)" "2 ^ nat (blen (n div 2) - 1) \<le> n div 2" "n div 2 < 2 ^ nat (blen (n div 2))"
      by auto
    have b: "blen n = 1 + blen (n div 2)" using 1 by (subst blen.simps) simp
    obtain k where k: "nat (blen (n div 2)) = Suc k" "nat (blen (n div 2) - 1) = k"
      using IH(1) by (cases "nat (blen (n div 2))") auto
    have "nat (blen n) = Suc (Suc k)" "nat (blen n - 1) = Suc k" "0 < blen n" using b k IH(1) by auto
    moreover have "2 * X \<le> n \<and> n < 4 * X" if "X \<le> n div 2" "n div 2 < 2 * X" for X :: int
      using that by presburger
    ultimately show ?thesis using IH(2,3) k by simp
  qed
qed

text \<open>The leading binary digit of a rational is not above it.\<close>

lemma flog2_le:
  assumes "0 < r"
  shows "pow2 (flog2 r) \<le> r"
proof -
  obtain p q where pq: "quotient_of r = (p, q)" by (cases "quotient_of r")
  then have r: "r = of_int p / of_int q" "0 < q" using quotient_of_div quotient_of_denom_pos by blast+
  then have p: "0 < p" using assms by (simp add: zero_less_divide_iff)
  let ?k = "blen p - blen q"
  show ?thesis
  proof (cases "r < pow2 ?k")
    case False
    then show ?thesis using pq by (simp add: flog2_def)
  next
    case True
    have pb: "(2 :: rat) powi (blen p - 1) \<le> of_int p"
    proof -
      have "of_int (2 ^ nat (blen p - 1)) \<le> (of_int p :: rat)" using blen_bounds [OF p] of_int_le_iff by blast
      then show ?thesis using blen_bounds [OF p] by (simp add: power_int_def)
    qed
    have qb: "of_int q \<le> (2 :: rat) powi blen q"
    proof -
      have "(of_int q :: rat) < of_int (2 ^ nat (blen q))" using blen_bounds [OF r(2)] of_int_less_iff by blast
      then show ?thesis using blen_bounds [OF r(2)] by (simp add: power_int_def)
    qed
    have "(2 :: rat) powi (?k - 1) = 2 powi (blen p - 1) / 2 powi blen q"
      by (simp add: power_int_diff [symmetric] algebra_simps)
    also have "\<dots> \<le> of_int p / of_int q"
      using pb qb r(2) p by (intro frac_le) auto
    finally show ?thesis using True pq r(1) by (simp add: flog2_def pow2_def)
  qed
qed

lemma round_even_int [simp]: "round_even (of_int n) = n"
  by (simp add: round_even_def)

lemma rnd_int:
  assumes "0 \<le> n" "n < 2 ^ 53"
  shows "rnd (of_int n) = of_int n"
proof (cases "n = 0")
  case False
  then have pos: "0 < (of_int n :: rat)" using assms by simp
  have "flog2 (of_int n) < 53"
  proof (rule ccontr)
    assume "\<not> flog2 (of_int n) < 53"
    then have "(2 :: rat) powi 53 \<le> 2 powi flog2 (of_int n)" by (intro power_int_increasing) auto
    also have "\<dots> \<le> of_int n" using flog2_le [OF pos] by (simp add: pow2_def)
    finally have "(of_int (2 ^ 53) :: rat) \<le> of_int n" by simp
    then show False using assms(2) of_int_le_iff [of "2 ^ 53" n] by linarith
  qed
  then have e: "max (flog2 (of_int n) - 52) (- 1074) \<le> 0" by simp
  define k where "k = nat (- max (flog2 (of_int n) - 52) (- 1074))"
  have k: "max (flog2 (of_int n) - 52) (- 1074) = - int k" using e by (simp add: k_def)
  have "(of_int n :: rat) / 2 powi (- int k) = of_int (n * 2 ^ k)" by (simp add: power_int_minus divide_simps)
  then have "rnd (of_int n) = of_int (n * 2 ^ k) * 2 powi (- int k)"
    using False k by (simp only: rnd_def pow2_def Let_def round_even_int of_int_eq_0_iff if_False)
  then show ?thesis by (simp add: power_int_minus)
qed (simp add: rnd_def)

lemma double_of_int_exact:
  assumes "\<bar>n\<bar> < 2 ^ 53"
  shows "double_of_int n = Fin (n < 0) (of_int \<bar>n\<bar>)"
proof -
  have "(of_int \<bar>n\<bar> :: rat) < of_int (2 ^ 53)" using assms of_int_less_iff by blast
  also have "of_int (2 ^ 53) \<le> pow2 1024" by (simp add: pow2_def)
  finally show ?thesis using rnd_int [of "\<bar>n\<bar>"] assms by (simp add: double_of_int_def mk_double_def)
qed

lemma digit_props:
  assumes "0 \<le> d" "d < 10"
  shows "is_digit (digit d)" "digit_val (digit d) = d" "digit d = CHR ''0'' \<longleftrightarrow> d = 0"
proof -
  have "d \<in> set [0..9]" using assms by simp
  then have "is_digit (digit d) \<and> digit_val (digit d) = d \<and> (digit d = CHR ''0'' \<longleftrightarrow> d = 0)"
    by (auto simp: upto.simps digit_def is_digit_def digit_val_def)
  then show "is_digit (digit d)" "digit_val (digit d) = d" "digit d = CHR ''0'' \<longleftrightarrow> d = 0" by auto
qed

lemma dec_val_snoc [simp]: "dec_val (ds @ [c]) = 10 * dec_val ds + digit_val c"
  by (simp add: dec_val_def)

lemma dec_val_dec: "0 \<le> n \<Longrightarrow> dec_val (dec n) = n"
proof (induction n rule: dec.induct)
  case (1 n)
  then show ?case
    by (subst dec.simps) (auto simp: digit_props dec_val_def [of "[_]"])
qed

lemma dec_digits: "0 \<le> n \<Longrightarrow> c \<in> set (dec n) \<Longrightarrow> is_digit c"
proof (induction n rule: dec.induct)
  case (1 n)
  show ?case
    using 1 by (cases "n < 10") (auto simp: digit_props dec.simps [of n])
qed

lemma dec_nonempty [simp]: "dec n \<noteq> []"
  by (subst dec.simps) simp

lemma dec_bounds: "0 < n \<Longrightarrow> 10 ^ (length (dec n) - 1) \<le> n \<and> n < 10 ^ length (dec n)"
proof (induction n rule: dec.induct)
  case (1 n)
  show ?case
  proof (cases "n < 10")
    case True
    then show ?thesis using 1 by (simp add: dec.simps [of n])
  next
    case False
    then have IH: "10 ^ (length (dec (n div 10)) - 1) \<le> n div 10" "n div 10 < 10 ^ length (dec (n div 10))"
      using 1 by auto
    have "length (dec n) = Suc (length (dec (n div 10)))" using False by (simp add: dec.simps [of n])
    moreover obtain k where "length (dec (n div 10)) = Suc k" by (cases "dec (n div 10)") auto
    moreover have "10 * X \<le> n \<and> n < 100 * X" if "X \<le> n div 10" "n div 10 < 10 * X" for X :: int
      using that div_mult_mod_eq [of n 10] pos_mod_bound [of 10 n] pos_mod_sign [of 10 n] by linarith
    ultimately show ?thesis using IH by simp
  qed
qed

lemma dec_shift: "0 < n \<Longrightarrow> dec (n * 10 ^ k) = dec n @ replicate k (CHR ''0'')"
proof (induction k)
  case (Suc k)
  have "0 < n * 10 ^ k" using Suc.prems by simp
  moreover have "dec (10 * X) = dec X @ [digit 0]" if "0 < X" for X
    using that dec.simps [of "10 * X"] by simp
  ultimately have "dec (n * 10 ^ Suc k) = dec (n * 10 ^ k) @ [digit 0]"
    by (metis mult.left_commute power_Suc)
  moreover have "digit 0 = CHR ''0''" using digit_props(3) [of 0] by simp
  ultimately show ?case using Suc by (simp add: replicate_append_same)
qed simp

lemma dec_length_le:
  assumes "0 < n" "n < 10 ^ k"
  shows "length (dec n) \<le> k"
proof (rule ccontr)
  assume "\<not> length (dec n) \<le> k"
  then have "(10 :: int) ^ k \<le> 10 ^ (length (dec n) - 1)" by (intro power_increasing) auto
  then show False using dec_bounds [OF assms(1)] assms(2) by linarith
qed

lemma flog10_int:
  assumes "0 < n"
  shows "flog10 (of_int n) = int (length (dec n)) - 1"
proof -
  obtain k where k: "length (dec n) = Suc k" by (cases "dec n") auto
  have "length (dec 1) = 1" by (simp add: dec.simps)
  moreover have "(of_int (10 ^ k) :: rat) \<le> of_int n" using dec_bounds [OF assms] k of_int_le_iff by auto
  ultimately show ?thesis using k by (simp add: flog10_def pow10_def power_int_def)
qed

lemma strip0_zeros [simp]: "strip0 (replicate k (CHR ''0'')) = []"
  by (simp add: strip0_def)

lemma print_g_pos_int:
  assumes "0 < n" "n < 10 ^ P"
  shows "print_g_pos P (of_int n) = dec n"
proof -
  define L where "L = length (dec n)"
  have L: "0 < L" "L \<le> P" using dec_length_le [OF assms] by (simp_all add: L_def)
  have x0: "flog10 (of_int n) = int L - 1" using flog10_int [OF assms(1)] by (simp add: L_def)
  have "(of_int n :: rat) * pow10 (int P - 1 - (int L - 1)) = of_int (n * 10 ^ (P - L))"
    using L by (simp add: pow10_def power_int_def nat_diff_distrib)
  then have d0: "round_even (of_int n * pow10 (int P - 1 - flog10 (of_int n))) = n * 10 ^ (P - L)"
    using x0 by (simp del: of_int_mult)
  have "n < 10 ^ L" using dec_bounds [OF assms(1)] by (simp add: L_def)
  then have "n * 10 ^ (P - L) < 10 ^ L * 10 ^ (P - L)" by (intro mult_strict_right_mono) auto
  then have "n * 10 ^ (P - L) \<noteq> 10 ^ P" using L by (simp add: power_add [symmetric])
  moreover have "nat (int L - 1) + 1 = L" using L by simp
  ultimately show ?thesis
    using L x0 d0 dec_shift [OF assms(1), of "P - L"]
    by (simp add: print_g_pos_def Let_def L_def with_point_def)
qed

text \<open>An integer of at most 15 digits is printed by \<open>%1.15g\<close> like by \<open>%d\<close>.\<close>

lemma print_g_int:
  assumes "\<bar>n\<bar> < 10 ^ 15"
  shows "print_g 15 (double_of_int n) = print_int n"
proof -
  have "(10 :: int) ^ 15 \<le> 2 ^ 53" by simp
  then have d: "double_of_int n = Fin (n < 0) (of_int \<bar>n\<bar>)" using assms double_of_int_exact [of n] by linarith
  show ?thesis
  proof (cases "n = 0")
    case True
    then show ?thesis using d digit_props(3) [of 0] by (simp add: print_int_def dec.simps)
  next
    case False
    then have "print_g_pos 15 (of_int \<bar>n\<bar>) = dec \<bar>n\<bar>" using assms by (intro print_g_pos_int) auto
    then show ?thesis using d False by (auto simp: print_int_def simp del: of_int_abs)
  qed
qed

lemma is_digit_not:
  assumes "is_digit c"
  shows "\<not> is_space c" "lower c = c" "c \<noteq> CHR ''-''" "c \<noteq> CHR ''+''" "c \<noteq> CHR ''i''" "c \<noteq> CHR ''n''"
    "c \<noteq> CHR ''x''"
  using assms by (auto simp: is_digit_def is_space_def lower_def)

lemma strtod_digits:
  assumes "\<forall>c\<in>set ds. is_digit c" "ds \<noteq> []"
  shows "strtod ((if neg then [CHR ''-''] else []) @ ds) =
           (mk_double neg (of_int (dec_val ds)), (if neg then 1 else 0) + length ds)"
proof -
  obtain c t where ds: "ds = c # t" using assms(2) by (cases ds) auto
  have tw: "takeWhile is_digit ds = ds" using assms(1) by (simp add: takeWhile_eq_all_conv)
  note c = is_digit_not [of c]
  have c': "is_digit c" using assms(1) ds by simp
  have ws: "takeWhile is_space ((if neg then [CHR ''-''] else []) @ ds) = []"
    using c c' ds by (auto simp: is_space_def)
  have sg: "sign_of ((if neg then [CHR ''-''] else []) @ ds) = (neg, if neg then 1 else 0)"
    using c c' ds by (auto simp: sign_of_def)
  have sp: "special neg ds = None"
    using c c' ds by (auto simp: special_def)
  have hx: "hexadecimal ds = None"
    using is_digit_not [of "hd t"] assms(1) ds by (cases t) (auto simp: hexadecimal_def)
  have "decimal ds = Some (of_int (dec_val ds), length ds)"
    using assms(2) by (simp add: decimal_def tw exp_part_def pow10_def Let_def)
  then show ?thesis
    by (cases neg) (use ws sg sp hx in \<open>simp_all add: strtod_def\<close>)
qed

lemma strtod_print_int: "strtod (print_int n) = (double_of_int n, length (print_int n))"
proof (cases "n < 0")
  case True
  then show ?thesis
    using strtod_digits [of "dec (- n)" True] dec_digits [of "- n"] dec_val_dec [of "- n"]
    by (auto simp: print_int_def double_of_int_def)
next
  case False
  then show ?thesis
    using strtod_digits [of "dec n" False] dec_digits [of n] dec_val_dec [of n]
    by (auto simp: print_int_def double_of_int_def)
qed

lemma d_to_int_of_int:
  assumes "int_range n"
  shows "d_to_int (double_of_int n) = Some n"
proof -
  have "\<bar>n\<bar> < 2 ^ 53" using assms by (simp add: int_range_def abs_less_iff)
  then show ?thesis using assms by (simp add: double_of_int_exact)
qed

lemma d_eq_refl_int: "\<bar>n\<bar> < 2 ^ 53 \<Longrightarrow> d_eq (double_of_int n) (double_of_int n)"
  by (simp add: double_of_int_exact)

lemma print_int_length:
  assumes "\<bar>n\<bar> < 10 ^ 15"
  shows "length (print_int n) \<le> 16"
proof (cases "n = 0")
  case True
  then show ?thesis by (simp add: print_int_def dec.simps)
next
  case False
  then have "length (dec \<bar>n\<bar>) \<le> 15" using assms by (intro dec_length_le) auto
  then show ?thesis by (auto simp: print_int_def)
qed

lemma atoi_print_int:
  assumes "int_range n"
  shows "atoi (print_int n) = n"
proof -
  define s where "s = print_int n"
  have digits: "takeWhile is_digit (dec \<bar>n\<bar>) = dec \<bar>n\<bar>"
    using dec_digits [of "\<bar>n\<bar>"] by (simp add: takeWhile_eq_all_conv)
  then have digits': "n < 0 \<Longrightarrow> takeWhile is_digit (dec (- n)) = dec (- n)"
    "\<not> n < 0 \<Longrightarrow> takeWhile is_digit (dec n) = dec n" by auto
  obtain c t where ct: "dec \<bar>n\<bar> = c # t" by (cases "dec \<bar>n\<bar>") auto
  have c: "is_digit c" using dec_digits [of "\<bar>n\<bar>" c] ct by simp
  have "dropWhile is_space s = s"
    using ct is_digit_not(1) [OF c] by (auto simp: s_def print_int_def is_space_def)
  moreover have "sign_of s = (n < 0, if n < 0 then 1 else 0)"
    using ct is_digit_not [OF c] by (auto simp: s_def print_int_def sign_of_def)
  moreover have "drop (if n < 0 then 1 else 0) s = dec \<bar>n\<bar>"
    by (simp add: s_def print_int_def)
  ultimately have "atoi s = sint (word_of_int (max (- (2 ^ 63)) (min (2 ^ 63 - 1) n)) :: 32 word)"
    using dec_val_dec [of "\<bar>n\<bar>"] by (auto simp: atoi_def Let_def digits')
  moreover have "max (- (2 ^ 63)) (min (2 ^ 63 - 1) n) = n" using assms by (simp add: int_range_def)
  moreover have "signed_take_bit 31 n = n"
    using assms by (intro signed_take_bit_int_eq_self) (simp_all add: int_range_def)
  ultimately show ?thesis by (simp add: s_def signed_of_int)
qed

end
