(* ===== verification/CJSON_Tree.thy ===== *)
theory CJSON_Tree
  imports CDouble
begin

unbundle bit_operations_syntax

text \<open>
  The JSON values of \<open>sdk/utility/json/cJSON.c\<close>: the item structure, its memory, construction,
  type tests, access to arrays and objects, and comparison. The \<open>next\<close>/\<open>prev\<close> chain of an
  item's children is the list \<open>child\<close>; a C string is the bytes in front of its NUL. An item
  that the code shares through \<open>cJSON_IsReference\<close> is a copy of the value here, which is how
  the readers of the tree see it.
\<close>

subsection \<open>The item\<close>

definition cJSON_Invalid :: int where "cJSON_Invalid = 0"
definition cJSON_False :: int where "cJSON_False = 1"
definition cJSON_True :: int where "cJSON_True = 2"
definition cJSON_NULL :: int where "cJSON_NULL = 4"
definition cJSON_Number :: int where "cJSON_Number = 8"
definition cJSON_String :: int where "cJSON_String = 16"
definition cJSON_Array :: int where "cJSON_Array = 32"
definition cJSON_Object :: int where "cJSON_Object = 64"
definition cJSON_Raw :: int where "cJSON_Raw = 128"
definition cJSON_IsReference :: int where "cJSON_IsReference = 256"
definition cJSON_StringIsConst :: int where "cJSON_StringIsConst = 512"

lemmas cjson_type_defs =
  cJSON_Invalid_def cJSON_False_def cJSON_True_def cJSON_NULL_def cJSON_Number_def cJSON_String_def
  cJSON_Array_def cJSON_Object_def cJSON_Raw_def cJSON_IsReference_def cJSON_StringIsConst_def

datatype cJSON =
  Item (ctype: int) (valuestring: "string option") (valueint: int) (valuedouble: double)
    (jstring: "string option") (child: "cJSON list")

definition zero_double :: double where
  "zero_double = Fin False 0"

text \<open>The item \<open>memset\<close> leaves.\<close>

definition blank :: cJSON where
  "blank = Item 0 None 0 zero_double None []"

fun set_type :: "int \<Rightarrow> cJSON \<Rightarrow> cJSON" where
  "set_type t (Item _ vs vi vd k ch) = Item t vs vi vd k ch"

fun set_valuestring :: "string option \<Rightarrow> cJSON \<Rightarrow> cJSON" where
  "set_valuestring vs (Item t _ vi vd k ch) = Item t vs vi vd k ch"

fun set_jstring :: "string option \<Rightarrow> cJSON \<Rightarrow> cJSON" where
  "set_jstring k (Item t vs vi vd _ ch) = Item t vs vi vd k ch"

fun set_child :: "cJSON list \<Rightarrow> cJSON \<Rightarrow> cJSON" where
  "set_child ch (Item t vs vi vd k _) = Item t vs vi vd k ch"

fun set_number :: "int \<Rightarrow> double \<Rightarrow> cJSON \<Rightarrow> cJSON" where
  "set_number vi vd (Item t vs _ _ k ch) = Item t vs vi vd k ch"

abbreviation is_ref :: "cJSON \<Rightarrow> bool" where
  "is_ref it \<equiv> ctype it AND cJSON_IsReference \<noteq> 0"

abbreviation is_const :: "cJSON \<Rightarrow> bool" where
  "is_const it \<equiv> ctype it AND cJSON_StringIsConst \<noteq> 0"

lemma item_sel_simps [simp]:
  "ctype (set_type t it) = t" "valuestring (set_type t it) = valuestring it" "jstring (set_type t it) = jstring it"
  "child (set_type t it) = child it" "valueint (set_type t it) = valueint it" "valuedouble (set_type t it) = valuedouble it"
  "ctype (set_valuestring vs it) = ctype it" "valuestring (set_valuestring vs it) = vs"
  "jstring (set_valuestring vs it) = jstring it" "child (set_valuestring vs it) = child it"
  "valueint (set_valuestring vs it) = valueint it" "valuedouble (set_valuestring vs it) = valuedouble it"
  "ctype (set_jstring k it) = ctype it" "valuestring (set_jstring k it) = valuestring it"
  "jstring (set_jstring k it) = k" "child (set_jstring k it) = child it"
  "valueint (set_jstring k it) = valueint it" "valuedouble (set_jstring k it) = valuedouble it"
  "ctype (set_child ch it) = ctype it" "valuestring (set_child ch it) = valuestring it"
  "jstring (set_child ch it) = jstring it" "child (set_child ch it) = ch"
  "valueint (set_child ch it) = valueint it" "valuedouble (set_child ch it) = valuedouble it"
  "ctype (set_number vi vd it) = ctype it" "valuestring (set_number vi vd it) = valuestring it"
  "jstring (set_number vi vd it) = jstring it" "child (set_number vi vd it) = child it"
  "valueint (set_number vi vd it) = vi" "valuedouble (set_number vi vd it) = vd"
  by (cases it; simp)+

lemma blank_sel [simp]:
  "ctype blank = 0" "valuestring blank = None" "valueint blank = 0" "valuedouble blank = zero_double"
  "jstring blank = None" "child blank = []"
  by (simp_all add: blank_def)

subsection \<open>Allocation, copies and deletion\<close>

text \<open>The allocation hooks: the library's own functions or the client's.\<close>

datatype 'f hook = Std | User 'f

record ('m, 'f) internal_hooks =
  allocate :: "'m hook"
  deallocate :: "'f hook"
  reallocate :: bool

definition cJSON_InitHooks :: "('m option \<times> 'f option) option \<Rightarrow> ('m, 'f) internal_hooks" where
  "cJSON_InitHooks hooks =
     (case hooks of
        None \<Rightarrow> \<lparr>allocate = Std, deallocate = Std, reallocate = True\<rparr>
      | Some (malloc_fn, free_fn) \<Rightarrow>
          (let a = (case malloc_fn of Some f \<Rightarrow> User f | None \<Rightarrow> Std);
               d = (case free_fn of Some f \<Rightarrow> User f | None \<Rightarrow> Std) in
           \<lparr>allocate = a, deallocate = d, reallocate = (case (a, d) of (Std, Std) \<Rightarrow> True | _ \<Rightarrow> False)\<rparr>))"

definition cJSON_strdup :: "string option \<Rightarrow> mem \<Rightarrow> string option \<times> mem" where
  "cJSON_strdup s m =
     (case s of None \<Rightarrow> (None, m)
      | Some str \<Rightarrow> (let (ok, m') = malloc m in (if ok then Some str else None, m')))"

definition cJSON_New_Item :: "mem \<Rightarrow> cJSON option \<times> mem" where
  "cJSON_New_Item m = (let (ok, m') = malloc m in (if ok then Some blank else None, m'))"

fun delete_chain :: "cJSON list \<Rightarrow> mem \<Rightarrow> mem"
  and delete_item :: "cJSON \<Rightarrow> mem \<Rightarrow> mem" where
  "delete_chain [] m = m"
| "delete_chain (it # its) m = delete_chain its (delete_item it m)"
| "delete_item (Item t vs vi vd k ch) m =
     (let m1 = (if t AND cJSON_IsReference = 0 \<and> ch \<noteq> [] then delete_chain ch m else m);
          m2 = (if t AND cJSON_IsReference = 0 \<and> vs \<noteq> None then c_free 1 m1 else m1);
          m3 = (if t AND cJSON_StringIsConst = 0 \<and> k \<noteq> None then c_free 1 m2 else m2) in
      c_free 1 m3)"

definition cJSON_Delete :: "cJSON option \<Rightarrow> mem \<Rightarrow> mem" where
  "cJSON_Delete it m = (case it of None \<Rightarrow> m | Some i \<Rightarrow> delete_item i m)"

text \<open>The blocks that belong to an item: what deleting it gives back.\<close>

fun blocks :: "cJSON \<Rightarrow> nat" where
  "blocks (Item t vs vi vd k ch) =
     (if t AND cJSON_IsReference = 0 then sum_list (map blocks ch) + (if vs = None then 0 else 1) else 0)
     + (if t AND cJSON_StringIsConst = 0 \<and> k \<noteq> None then 1 else 0) + 1"

abbreviation blocks_list :: "cJSON list \<Rightarrow> nat" where
  "blocks_list its \<equiv> sum_list (map blocks its)"

lemma c_free_c_free [simp]: "c_free a (c_free b m) = c_free (a + b) m"
  by (simp add: c_free_def)

lemma c_free_0 [simp]: "c_free 0 m = m"
  by (simp add: c_free_def)

lemma delete_blocks [simp]:
  "delete_chain its m = c_free (blocks_list its) m"
  "delete_item it m = c_free (blocks it) m"
  by (induction its m and it m rule: delete_chain_delete_item.induct)
    (auto simp: Let_def add_ac)

lemma blocks_pos [simp]: "0 < blocks it"
  by (cases it) simp

lemma blocks_unfold:
  "blocks it = (if is_ref it then 0 else blocks_list (child it) + (if valuestring it = None then 0 else 1))
     + (if is_const it \<or> jstring it = None then 0 else 1) + 1"
  by (cases it) auto

subsection \<open>Construction\<close>

text \<open>
  \<open>cJSON_SetNumberHelper\<close> and the same code in \<open>parse_number\<close> and \<open>cJSON_CreateNumber\<close>: the
  integer value saturates; converting a NaN is undefined.
\<close>

definition saturate :: "double \<Rightarrow> int option" where
  "saturate d = (if d_ge_int d INT_MAX then Some INT_MAX else if d_le_int d INT_MIN then Some INT_MIN else d_to_int d)"

definition cJSON_SetNumberHelper :: "cJSON \<Rightarrow> double \<Rightarrow> cJSON option" where
  "cJSON_SetNumberHelper it d = do { n \<leftarrow> saturate d; Some (set_number n d it) }"

definition create_type :: "int \<Rightarrow> mem \<Rightarrow> cJSON option \<times> mem" where
  "create_type t m = (let (it, m') = cJSON_New_Item m in (map_option (set_type t) it, m'))"

definition cJSON_CreateNull :: "mem \<Rightarrow> cJSON option \<times> mem" where "cJSON_CreateNull = create_type cJSON_NULL"
definition cJSON_CreateTrue :: "mem \<Rightarrow> cJSON option \<times> mem" where "cJSON_CreateTrue = create_type cJSON_True"
definition cJSON_CreateFalse :: "mem \<Rightarrow> cJSON option \<times> mem" where "cJSON_CreateFalse = create_type cJSON_False"
definition cJSON_CreateBool :: "int \<Rightarrow> mem \<Rightarrow> cJSON option \<times> mem" where
  "cJSON_CreateBool b = create_type (if b \<noteq> 0 then cJSON_True else cJSON_False)"
definition cJSON_CreateArray :: "mem \<Rightarrow> cJSON option \<times> mem" where "cJSON_CreateArray = create_type cJSON_Array"
definition cJSON_CreateObject :: "mem \<Rightarrow> cJSON option \<times> mem" where "cJSON_CreateObject = create_type cJSON_Object"

lemmas create_defs =
  cJSON_CreateNull_def cJSON_CreateTrue_def cJSON_CreateFalse_def cJSON_CreateBool_def
  cJSON_CreateArray_def cJSON_CreateObject_def

definition cJSON_CreateNumber :: "double \<Rightarrow> mem \<Rightarrow> (cJSON option \<times> mem) option" where
  "cJSON_CreateNumber d m =
     (case cJSON_New_Item m of
        (None, m') \<Rightarrow> Some (None, m')
      | (Some it, m') \<Rightarrow> do { n \<leftarrow> saturate d; Some (Some (set_number n d (set_type cJSON_Number it)), m') })"

definition create_text :: "int \<Rightarrow> string option \<Rightarrow> mem \<Rightarrow> cJSON option \<times> mem" where
  "create_text t s m =
     (case cJSON_New_Item m of
        (None, m1) \<Rightarrow> (None, m1)
      | (Some it, m1) \<Rightarrow>
          (case cJSON_strdup s m1 of
             (None, m2) \<Rightarrow> (None, cJSON_Delete (Some (set_type t it)) m2)
           | (Some str, m2) \<Rightarrow> (Some (set_valuestring (Some str) (set_type t it)), m2)))"

definition cJSON_CreateString :: "string option \<Rightarrow> mem \<Rightarrow> cJSON option \<times> mem" where
  "cJSON_CreateString = create_text cJSON_String"
definition cJSON_CreateRaw :: "string option \<Rightarrow> mem \<Rightarrow> cJSON option \<times> mem" where
  "cJSON_CreateRaw = create_text cJSON_Raw"

definition cJSON_CreateStringReference :: "string option \<Rightarrow> mem \<Rightarrow> cJSON option \<times> mem" where
  "cJSON_CreateStringReference s m =
     (let (it, m') = cJSON_New_Item m in
      (map_option (\<lambda>i. set_valuestring s (set_type (cJSON_String OR cJSON_IsReference) i)) it, m'))"

definition cJSON_CreateObjectReference :: "cJSON list \<Rightarrow> mem \<Rightarrow> cJSON option \<times> mem" where
  "cJSON_CreateObjectReference ch m =
     (let (it, m') = cJSON_New_Item m in
      (map_option (\<lambda>i. set_child ch (set_type (cJSON_Object OR cJSON_IsReference) i)) it, m'))"

definition cJSON_CreateArrayReference :: "cJSON list \<Rightarrow> mem \<Rightarrow> cJSON option \<times> mem" where
  "cJSON_CreateArrayReference ch m =
     (let (it, m') = cJSON_New_Item m in
      (map_option (\<lambda>i. set_child ch (set_type (cJSON_Array OR cJSON_IsReference) i)) it, m'))"

subsection \<open>Type tests\<close>

definition type_is :: "int \<Rightarrow> cJSON option \<Rightarrow> bool" where
  "type_is t it = (case it of None \<Rightarrow> False | Some i \<Rightarrow> ctype i AND 255 = t)"

definition cJSON_IsInvalid :: "cJSON option \<Rightarrow> bool" where "cJSON_IsInvalid = type_is cJSON_Invalid"
definition cJSON_IsFalse :: "cJSON option \<Rightarrow> bool" where "cJSON_IsFalse = type_is cJSON_False"
definition cJSON_IsTrue :: "cJSON option \<Rightarrow> bool" where "cJSON_IsTrue = type_is cJSON_True"
definition cJSON_IsBool :: "cJSON option \<Rightarrow> bool" where
  "cJSON_IsBool it = (case it of None \<Rightarrow> False | Some i \<Rightarrow> ctype i AND (cJSON_True OR cJSON_False) \<noteq> 0)"
definition cJSON_IsNull :: "cJSON option \<Rightarrow> bool" where "cJSON_IsNull = type_is cJSON_NULL"
definition cJSON_IsNumber :: "cJSON option \<Rightarrow> bool" where "cJSON_IsNumber = type_is cJSON_Number"
definition cJSON_IsString :: "cJSON option \<Rightarrow> bool" where "cJSON_IsString = type_is cJSON_String"
definition cJSON_IsArray :: "cJSON option \<Rightarrow> bool" where "cJSON_IsArray = type_is cJSON_Array"
definition cJSON_IsObject :: "cJSON option \<Rightarrow> bool" where "cJSON_IsObject = type_is cJSON_Object"
definition cJSON_IsRaw :: "cJSON option \<Rightarrow> bool" where "cJSON_IsRaw = type_is cJSON_Raw"

lemmas is_type_defs =
  cJSON_IsInvalid_def cJSON_IsFalse_def cJSON_IsTrue_def cJSON_IsNull_def cJSON_IsNumber_def
  cJSON_IsString_def cJSON_IsArray_def cJSON_IsObject_def cJSON_IsRaw_def type_is_def

definition cJSON_GetStringValue :: "cJSON option \<Rightarrow> string option" where
  "cJSON_GetStringValue it = (case it of Some i \<Rightarrow> if cJSON_IsString it then valuestring i else None | None \<Rightarrow> None)"

subsection \<open>Access\<close>

definition cJSON_GetArraySize :: "cJSON option \<Rightarrow> int" where
  "cJSON_GetArraySize a = (case a of None \<Rightarrow> 0 | Some i \<Rightarrow> sint (of_nat (length (child i)) :: 32 word))"

fun nth_item :: "cJSON list \<Rightarrow> nat \<Rightarrow> cJSON option" where
  "nth_item [] i = None"
| "nth_item (e # es) 0 = Some e"
| "nth_item (e # es) (Suc i) = nth_item es i"

definition get_array_item :: "cJSON option \<Rightarrow> nat \<Rightarrow> cJSON option" where
  "get_array_item a i = (case a of None \<Rightarrow> None | Some it \<Rightarrow> nth_item (child it) i)"

definition cJSON_GetArrayItem :: "cJSON option \<Rightarrow> int \<Rightarrow> cJSON option" where
  "cJSON_GetArrayItem a i = (if i < 0 then None else get_array_item a (nat i))"

text \<open>
  \<open>case_insensitive_strcmp\<close> (equality only; a NULL argument compares unequal). The two
  strings end at their NULs.
\<close>

definition eq_nocase :: "string option \<Rightarrow> string option \<Rightarrow> bool" where
  "eq_nocase s t = (case (s, t) of (Some a, Some b) \<Rightarrow> map lower a = map lower b | _ \<Rightarrow> False)"

text \<open>
  The walk along the members: the index of the first one with the name. The case-sensitive
  walk passes the member's name to \<open>strcmp\<close>, which must not be NULL.
\<close>

fun find_name :: "bool \<Rightarrow> string \<Rightarrow> cJSON list \<Rightarrow> nat \<Rightarrow> nat option option" where
  "find_name cs nm [] i = Some None"
| "find_name cs nm (e # es) i =
     (if cs then
        (case jstring e of
           None \<Rightarrow> None
         | Some k \<Rightarrow> if nm = k then Some (Some i) else find_name cs nm es (Suc i))
      else if eq_nocase (Some nm) (jstring e) then Some (Some i) else find_name cs nm es (Suc i))"

definition get_object_index :: "bool \<Rightarrow> cJSON option \<Rightarrow> string option \<Rightarrow> nat option option" where
  "get_object_index cs obj nm =
     (case (obj, nm) of (Some it, Some s) \<Rightarrow> find_name cs s (child it) 0 | _ \<Rightarrow> Some None)"

definition get_object_item :: "cJSON option \<Rightarrow> string option \<Rightarrow> bool \<Rightarrow> cJSON option option" where
  "get_object_item obj nm cs =
     do { i \<leftarrow> get_object_index cs obj nm;
          Some (case i of None \<Rightarrow> None | Some j \<Rightarrow> get_array_item obj j) }"

definition cJSON_GetObjectItem :: "cJSON option \<Rightarrow> string option \<Rightarrow> cJSON option" where
  "cJSON_GetObjectItem obj nm = (case get_object_item obj nm False of Some r \<Rightarrow> r | None \<Rightarrow> None)"

definition cJSON_GetObjectItemCaseSensitive :: "cJSON option \<Rightarrow> string option \<Rightarrow> cJSON option option" where
  "cJSON_GetObjectItemCaseSensitive obj nm = get_object_item obj nm True"

definition cJSON_HasObjectItem :: "cJSON option \<Rightarrow> string option \<Rightarrow> bool" where
  "cJSON_HasObjectItem obj nm = (cJSON_GetObjectItem obj nm \<noteq> None)"

lemma nth_item_eq: "nth_item es i = (if i < length es then Some (es ! i) else None)"
  by (induction es i rule: nth_item.induct) auto

lemma nth_item_Some: "nth_item es i = Some e \<Longrightarrow> e \<in> set es"
  by (auto simp: nth_item_eq split: if_splits)

lemma find_name_Some: "find_name cs nm es i = Some (Some j) \<Longrightarrow> i \<le> j \<and> j < i + length es"
  by (induction es arbitrary: i) (fastforce split: if_splits option.splits)+

lemma find_name_nocase:
  "find_name False nm es i =
     Some (case List.find (\<lambda>(_, e). eq_nocase (Some nm) (jstring e)) (enumerate i es) of
             None \<Rightarrow> None | Some (j, _) \<Rightarrow> Some j)"
  by (induction es arbitrary: i) auto

lemma find_enumerate_None: "List.find (\<lambda>(_, e). P e) (enumerate i es) = None \<longleftrightarrow> List.find P es = None"
  by (induction es arbitrary: i) auto

lemma find_enumerate_Some:
  "List.find (\<lambda>(_, e). P e) (enumerate i es) = Some (j, x) \<Longrightarrow>
     i \<le> j \<and> j < i + length es \<and> x = es ! (j - i) \<and> List.find P es = Some x"
proof (induction es arbitrary: i)
  case (Cons e es)
  show ?case
  proof (cases "P e")
    case False
    then have "List.find (\<lambda>(_, e). P e) (enumerate (Suc i) es) = Some (j, x)" using Cons.prems by simp
    from Cons.IH [OF this] have j: "Suc i \<le> j" "j < Suc i + length es" "x = es ! (j - Suc i)" "List.find P es = Some x"
      by auto
    then have "j - i = Suc (j - Suc i)" by simp
    then show ?thesis using j False by simp
  qed (use Cons.prems in auto)
qed simp

text \<open>The case-insensitive access finds the first member whose name matches.\<close>

lemma cJSON_GetObjectItem_find:
  "cJSON_GetObjectItem (Some it) (Some nm) = List.find (\<lambda>e. eq_nocase (Some nm) (jstring e)) (child it)"
proof (cases "List.find (\<lambda>(_, e). eq_nocase (Some nm) (jstring e)) (enumerate 0 (child it))")
  case None
  then show ?thesis
    using find_enumerate_None [of "\<lambda>e. eq_nocase (Some nm) (jstring e)" 0 "child it"]
    by (simp add: cJSON_GetObjectItem_def get_object_item_def get_object_index_def find_name_nocase)
next
  case (Some r)
  then obtain j x where r: "r = (j, x)" by force
  note f = find_enumerate_Some [OF Some [unfolded r]]
  then show ?thesis using Some r
    by (simp add: cJSON_GetObjectItem_def get_object_item_def get_object_index_def find_name_nocase
        get_array_item_def nth_item_eq)
qed

lemma get_object_item_nocase: "get_object_item obj nm False = Some (cJSON_GetObjectItem obj nm)"
  by (auto simp: cJSON_GetObjectItem_def get_object_item_def get_object_index_def find_name_nocase split: option.splits)

lemma get_object_item_child:
  "get_object_item (Some b) nm cs = Some (Some y) \<Longrightarrow> y \<in> set (child b)"
  by (auto simp: get_object_item_def get_array_item_def get_object_index_def split: option.splits bind_splits
      dest: nth_item_Some)

lemma cJSON_GetObjectItem_NULL [simp]:
  "cJSON_GetObjectItem None nm = None" "cJSON_GetObjectItem obj None = None"
  by (auto simp: cJSON_GetObjectItem_def get_object_item_def get_object_index_def split: option.splits)

subsection \<open>Comparison\<close>

abbreviation kind :: "cJSON \<Rightarrow> int" where
  "kind it \<equiv> ctype it AND 255"

definition compare_size :: "(bool \<times> cJSON \<times> cJSON) + (bool \<times> cJSON list \<times> cJSON list) + (bool \<times> cJSON list \<times> cJSON) \<Rightarrow> nat" where
  "compare_size x = (case x of Inl (cs, a, b) \<Rightarrow> size a + size b
     | Inr (Inl (cs, xs, ys)) \<Rightarrow> size_list size xs + size_list size ys
     | Inr (Inr (cs, es, b)) \<Rightarrow> size_list size es + size b)"

lemma size_child: "size it = size_list size (child it) + 1"
  by (cases it) simp

lemma size_in_child: "y \<in> set (child b) \<Longrightarrow> size y < size b"
  by (simp add: size_child [of b] less_Suc_eq_le size_list_estimation')

lemma size_child_less:
  "size_list size (child a) < size a"
  "size_list size (child a) + size_list size (child b) < size a + size b"
  "size_list size (child a) + size b < size a + size b"
  "size_list size (child b) + size a < size a + size b"
  using size_child [of a] size_child [of b] by simp_all

text \<open>
  \<open>cJSON_Compare\<close> of two different items (two pointers to the same item with a valid type
  compare equal at once, which \<open>cJSON_Compare\<close> below adds).
\<close>

function compare_items :: "bool \<Rightarrow> cJSON \<Rightarrow> cJSON \<Rightarrow> bool option"
  and compare_elements :: "bool \<Rightarrow> cJSON list \<Rightarrow> cJSON list \<Rightarrow> bool option"
  and compare_members :: "bool \<Rightarrow> cJSON list \<Rightarrow> cJSON \<Rightarrow> bool option" where
  "compare_items cs a b =
     (if kind a \<noteq> kind b \<or> cJSON_IsInvalid (Some a) then Some False
      else if kind a = cJSON_False \<or> kind a = cJSON_True \<or> kind a = cJSON_NULL then Some True
      else if kind a = cJSON_Number then Some (d_eq (valuedouble a) (valuedouble b))
      else if kind a = cJSON_String \<or> kind a = cJSON_Raw then
        (case (valuestring a, valuestring b) of
           (Some s, Some t) \<Rightarrow> Some (s = t)
         | _ \<Rightarrow> Some False)
      else if kind a = cJSON_Array then compare_elements cs (child a) (child b)
      else if kind a = cJSON_Object then
        do { r \<leftarrow> compare_members cs (child a) b; if r then compare_members cs (child b) a else Some False }
      else Some False)"
| "compare_elements cs [] [] = Some True"
| "compare_elements cs (x # xs) (y # ys) =
     do { r \<leftarrow> compare_items cs x y; if r then compare_elements cs xs ys else Some False }"
| "compare_elements cs [] (y # ys) = Some False"
| "compare_elements cs (x # xs) [] = Some False"
| "compare_members cs [] b = Some True"
| "compare_members cs (e # es) b =
     do { x \<leftarrow> get_object_item (Some b) (jstring e) cs;
          (case x of
             None \<Rightarrow> Some False
           | Some y \<Rightarrow> do { r \<leftarrow> compare_items cs e y; if r then compare_members cs es b else Some False }) }"
  by pat_completeness auto

termination
  by (relation "measure compare_size")
    (auto simp: compare_size_def size_child_less dest!: get_object_item_child size_in_child)

definition cJSON_Compare :: "bool \<Rightarrow> cJSON option \<Rightarrow> cJSON option \<Rightarrow> bool \<Rightarrow> bool option" where
  \<comment> \<open>\<open>same\<close>: the two pointers are the same\<close>
  "cJSON_Compare same a b cs =
     (case (a, b) of
        (Some x, Some y) \<Rightarrow>
          if same \<and> kind x \<in> {cJSON_False, cJSON_True, cJSON_NULL, cJSON_Number, cJSON_String, cJSON_Raw,
                               cJSON_Array, cJSON_Object}
          then Some True else compare_items cs x y
      | _ \<Rightarrow> Some False)"

lemma d_eq_sym: "d_eq x y = d_eq y x"
  by (cases x; cases y) auto

text \<open>The branches of \<open>compare_items\<close>, by the kind of the two items.\<close>

lemma compare_items_kind:
  "kind a \<noteq> kind b \<Longrightarrow> compare_items cs a b = Some False"
  "kind a = kind b \<Longrightarrow> kind a = cJSON_Array \<Longrightarrow> compare_items cs a b = compare_elements cs (child a) (child b)"
  "kind a = kind b \<Longrightarrow> kind a = cJSON_Object \<Longrightarrow> compare_items cs a b =
     do { r \<leftarrow> compare_members cs (child a) b; if r then compare_members cs (child b) a else Some False }"
  "kind a = kind b \<Longrightarrow> kind a \<noteq> cJSON_Array \<Longrightarrow> kind a \<noteq> cJSON_Object \<Longrightarrow> compare_items cs a b =
     Some (kind a = cJSON_False \<or> kind a = cJSON_True \<or> kind a = cJSON_NULL \<or>
           kind a = cJSON_Number \<and> d_eq (valuedouble a) (valuedouble b) \<or>
           (kind a = cJSON_String \<or> kind a = cJSON_Raw) \<and> valuestring a \<noteq> None \<and> valuestring a = valuestring b)"
  by (auto simp: compare_items.simps [of cs a b] cjson_type_defs is_type_defs
      simp del: compare_items.simps split: option.splits)

declare compare_items.simps [simp del]

lemma bind_and_not_None:
  "x \<noteq> None \<Longrightarrow> (x = Some True \<Longrightarrow> y \<noteq> None) \<Longrightarrow> do { r \<leftarrow> x; if r then y else Some False } \<noteq> None"
  by auto

lemma compare_total:
  "\<not> cs \<Longrightarrow> compare_items cs a b \<noteq> None"
  "\<not> cs \<Longrightarrow> compare_elements cs xs ys \<noteq> None"
  "\<not> cs \<Longrightarrow> compare_members cs es b \<noteq> None"
proof (induction cs a b and cs xs ys and cs es b rule: compare_items_compare_elements_compare_members.induct)
  case (1 cs a b)
  consider "kind a \<noteq> kind b" | "kind a = kind b" "kind a = cJSON_Array" | "kind a = kind b" "kind a = cJSON_Object"
    | "kind a = kind b" "kind a \<noteq> cJSON_Array" "kind a \<noteq> cJSON_Object" by blast
  then show ?case
  proof cases
    case 2
    then show ?thesis using 1 by (simp add: compare_items_kind cjson_type_defs is_type_defs)
  next
    case 3
    then have "compare_members cs (child a) b \<noteq> None" "compare_members cs (child a) b = Some True \<Longrightarrow> compare_members cs (child b) a \<noteq> None"
      using 1 by (auto simp: cjson_type_defs is_type_defs)
    then show ?thesis using 3 by (simp only: compare_items_kind) (rule bind_and_not_None)
  qed (simp_all add: compare_items_kind)
next
  case (3 cs x xs y ys)
  then show ?case by (auto split: bind_splits if_splits)
next
  case (7 cs e es b)
  then show ?case
    by (auto simp: get_object_item_nocase split: option.splits bind_splits if_splits)
qed auto

lemma both_commute:
  assumes "x \<noteq> None" "y \<noteq> None"
  shows "do { r \<leftarrow> x; if r then y else Some False } = do { r \<leftarrow> y; if r then x else Some False }"
  using assms by auto

lemma compare_items_sym:
  "\<not> cs \<Longrightarrow> compare_items cs a b = compare_items cs b a"
  "\<not> cs \<Longrightarrow> compare_elements cs xs ys = compare_elements cs ys xs"
  "compare_members cs es b = compare_members cs es b"
proof (induction cs a b and cs xs ys and cs es b rule: compare_items_compare_elements_compare_members.induct)
  case (1 cs a b)
  have total: "compare_members cs (child a) b \<noteq> None" "compare_members cs (child b) a \<noteq> None"
    using 1 compare_total by blast+
  consider "kind a \<noteq> kind b" | "kind a = kind b" "kind a = cJSON_Array" | "kind a = kind b" "kind a = cJSON_Object"
    | "kind a = kind b" "kind a \<noteq> cJSON_Array" "kind a \<noteq> cJSON_Object" by blast
  then show ?case
  proof cases
    case 2
    then show ?thesis using 1 by (simp add: compare_items_kind cjson_type_defs is_type_defs)
  next
    case 3
    then show ?thesis using both_commute [OF total] by (simp add: compare_items_kind(3))
  next
    case 4
    have "(valuestring a \<noteq> None \<and> valuestring a = valuestring b) = (valuestring b \<noteq> None \<and> valuestring b = valuestring a)"
      by metis
    then show ?thesis using 4 d_eq_sym [of "valuedouble a"] by (simp add: compare_items_kind(4))
  qed (simp_all add: compare_items_kind(1))
next
  case (3 cs x xs y ys)
  then show ?case by (cases "compare_items cs y x") auto
qed auto

end
