(* ===== verification/CJSON_Equal.thy ===== *)
theory CJSON_Equal
  imports CJSON_Tree
begin

text \<open>
  What \<open>cJSON_Compare\<close> decides: two items are equal when they have the same JSON value, in which an object is a
  finite map from names to values, without an order.
\<close>

subsection \<open>JSON values\<close>

text \<open>Numbers are compared as doubles, so the two zeros are one number.\<close>

datatype json_number = Finite rat | Infinite bool | Not_a_number

fun number_of :: "double \<Rightarrow> json_number" where
  "number_of (Fin s r) = Finite (if s then - r else r)"
| "number_of (Inf s) = Infinite s"
| "number_of NaN = Not_a_number"

datatype jvalue =
  JNull | JFalse | JTrue | JNumber json_number | JString "string option" | JRaw "string option"
  | JArray "jvalue list" | JObject "string \<Rightarrow> jvalue option"

text \<open>The name of a member as the comparison sees it.\<close>

definition name_key :: "bool \<Rightarrow> cJSON \<Rightarrow> string" where
  "name_key cs e = (if cs then the (jstring e) else map lower (the (jstring e)))"

lemma in_child_size [termination_simp]: "e \<in> set ch \<Longrightarrow> size e < Suc (size_list size ch)"
  by (simp add: less_Suc_eq_le size_list_estimation')

fun value_of :: "bool \<Rightarrow> cJSON \<Rightarrow> jvalue" where
  "value_of cs (Item ty vs vi vd k ch) =
     (let t = ty AND 255 in
      if t = cJSON_NULL then JNull else if t = cJSON_False then JFalse else if t = cJSON_True then JTrue
      else if t = cJSON_Number then JNumber (number_of vd)
      else if t = cJSON_String then JString vs
      else if t = cJSON_Raw then JRaw vs
      else if t = cJSON_Array then JArray (map (value_of cs) ch)
      else JObject (map_of (map (\<lambda>e. (name_key cs e, value_of cs e)) ch)))"

text \<open>Items that stand for a value: with a kind, and strings where the kind has one, no NaN, and members with
  different names.\<close>

fun has_value :: "bool \<Rightarrow> cJSON \<Rightarrow> bool" where
  "has_value cs (Item ty vs vi vd k ch) \<longleftrightarrow>
     (let t = ty AND 255 in
      t \<in> {cJSON_NULL, cJSON_False, cJSON_True} \<or> t = cJSON_Number \<and> vd \<noteq> NaN \<or>
      t \<in> {cJSON_String, cJSON_Raw} \<and> vs \<noteq> None \<or>
      t = cJSON_Array \<and> list_all (has_value cs) ch \<or>
      t = cJSON_Object \<and> list_all (\<lambda>e. jstring e \<noteq> None \<and> has_value cs e) ch \<and> distinct (map (name_key cs) ch))"

declare value_of.simps [simp del] has_value.simps [simp del]

subsection \<open>Looking up a member\<close>

lemma find_name_find:
  assumes "\<forall>e\<in>set es. jstring e \<noteq> None"
  shows "find_name cs nm es i =
     Some (case List.find (\<lambda>(_, e). name_key cs e = (if cs then nm else map lower nm)) (enumerate i es) of None \<Rightarrow> None | Some (j, _) \<Rightarrow> Some j)"
  using assms by (induction es arbitrary: i) (auto simp: name_key_def eq_nocase_def)

lemma get_member:
  assumes "\<forall>e\<in>set (child b). jstring e \<noteq> None" "jstring x \<noteq> None"
  shows "get_object_item (Some b) (jstring x) cs = Some (List.find (\<lambda>e. name_key cs e = name_key cs x) (child b))"
proof -
  obtain nm where nm: "jstring x = Some nm" using assms(2) by blast
  have key: "(if cs then nm else map lower nm) = name_key cs x" using nm by (simp add: name_key_def)
  show ?thesis
  proof (cases "List.find (\<lambda>(_, e). name_key cs e = name_key cs x) (enumerate 0 (child b))")
    case None
    then show ?thesis
      using find_enumerate_None [of "\<lambda>e. name_key cs e = name_key cs x" 0 "child b"] find_name_find [OF assms(1), of cs nm 0]
      unfolding key by (simp add: get_object_item_def get_object_index_def nm)
  next
    case (Some r)
    then obtain j y where r: "r = (j, y)" by force
    note f = find_enumerate_Some [OF Some [unfolded r]]
    then show ?thesis
      using Some r find_name_find [OF assms(1), of cs nm 0] unfolding key
      by (simp add: get_object_item_def get_object_index_def nm get_array_item_def nth_item_eq)
  qed
qed

lemma map_of_find: "map_of (map (\<lambda>e. (k e, v e)) es) x = map_option v (List.find (\<lambda>e. k e = x) es)"
  by (induction es) auto

subsection \<open>The comparison\<close>

lemma d_eq_number: "x \<noteq> NaN \<Longrightarrow> d_eq x y \<longleftrightarrow> number_of x = number_of y"
  by (cases x; cases y) auto

lemma compare_list:
  assumes "\<And>x y. x \<in> set xs \<Longrightarrow> y \<in> set ys \<Longrightarrow> compare_items cs x y = Some (value_of cs x = value_of cs y)"
  shows "compare_elements cs xs ys = Some (map (value_of cs) xs = map (value_of cs) ys)"
  using assms
proof (induction xs arbitrary: ys)
  case Nil
  then show ?case by (cases ys) simp_all
next
  case (Cons x xs)
  then show ?case by (cases ys) auto
qed

lemma compare_map:
  assumes "\<forall>e\<in>set (child b). jstring e \<noteq> None" "\<forall>e\<in>set es. jstring e \<noteq> None" "distinct (map (name_key cs) es)"
    and "\<And>x y. x \<in> set es \<Longrightarrow> y \<in> set (child b) \<Longrightarrow> compare_items cs x y = Some (value_of cs x = value_of cs y)"
  shows "compare_members cs es b = Some (map_of (map (\<lambda>e. (name_key cs e, value_of cs e)) es) \<subseteq>\<^sub>m
     map_of (map (\<lambda>e. (name_key cs e, value_of cs e)) (child b)))"
  using assms(2-4)
proof (induction es)
  case Nil
  then show ?case by (simp add: map_le_def)
next
  case (Cons e es)
  define B where "B = map_of (map (\<lambda>e. (name_key cs e, value_of cs e)) (child b))"
  have B: "B k = map_option (value_of cs) (List.find (\<lambda>y. name_key cs y = k) (child b))" for k unfolding B_def by (rule map_of_find)
  have IH: "compare_members cs es b = Some (map_of (map (\<lambda>e. (name_key cs e, value_of cs e)) es) \<subseteq>\<^sub>m B)"
    unfolding B_def using Cons by simp
  have nw: "name_key cs e \<notin> dom (map_of (map (\<lambda>e. (name_key cs e, value_of cs e)) es))"
    using Cons.prems(2) by (auto simp: dom_map_of_conv_image_fst image_image)
  have step: "map_of (map (\<lambda>e. (name_key cs e, value_of cs e)) (e # es)) \<subseteq>\<^sub>m B \<longleftrightarrow>
      B (name_key cs e) = Some (value_of cs e) \<and> map_of (map (\<lambda>e. (name_key cs e, value_of cs e)) es) \<subseteq>\<^sub>m B"
    using nw by (auto simp: map_le_def dom_def split: if_splits)
  have get: "get_object_item (Some b) (jstring e) cs = Some (List.find (\<lambda>y. name_key cs y = name_key cs e) (child b))"
    using get_member [OF assms(1)] Cons.prems(1) by simp
  show ?case
  proof (cases "List.find (\<lambda>y. name_key cs y = name_key cs e) (child b)")
    case None
    then show ?thesis using get B [of "name_key cs e"] unfolding B_def [symmetric] step by simp
  next
    case (Some y)
    then have "y \<in> set (child b)" by (auto simp: find_Some_iff)
    then have "compare_items cs e y = Some (value_of cs e = value_of cs y)" using Cons.prems(3) by simp
    then show ?thesis using get Some IH B [of "name_key cs e"] unfolding B_def [symmetric] step by auto
  qed
qed

lemma compare_value:
  "has_value cs a \<Longrightarrow> has_value cs b \<Longrightarrow> compare_items cs a b = Some (value_of cs a = value_of cs b)"
proof (induction "size a + size b" arbitrary: a b rule: less_induct)
  case less
  obtain ta vs vi vd k ch where a: "a = Item ta vs vi vd k ch" by (cases a)
  obtain tb vs' vi' vd' k' ch' where b: "b = Item tb vs' vi' vd' k' ch'" by (cases b)
  have IH: "compare_items cs x y = Some (value_of cs x = value_of cs y)" "compare_items cs y x = Some (value_of cs y = value_of cs x)"
    if "x \<in> set ch" "y \<in> set ch'" "has_value cs x" "has_value cs y" for x y
  proof -
    have "size x + size y < size a + size b" using size_in_child [of x a] size_in_child [of y b] that(1,2) a b by simp
    then show "compare_items cs x y = Some (value_of cs x = value_of cs y)" "compare_items cs y x = Some (value_of cs y = value_of cs x)"
      using less.hyps [of x y] less.hyps [of y x] that(3,4) by (auto simp: add.commute)
  qed
  consider (Diff) "kind a \<noteq> kind b" | (Arr) "kind a = kind b" "kind a = cJSON_Array" | (Obj) "kind a = kind b" "kind a = cJSON_Object"
    | (Scalar) "kind a = kind b" "kind a \<noteq> cJSON_Array" "kind a \<noteq> cJSON_Object" by blast
  then show ?case
  proof cases
    case Diff
    then show ?thesis
      using less.prems unfolding a b
      by (auto simp: compare_items_kind(1) value_of.simps has_value.simps Let_def cjson_type_defs split: if_splits)
  next
    case Arr
    then have "list_all (has_value cs) ch" "list_all (has_value cs) ch'"
      using less.prems unfolding a b by (auto simp: has_value.simps Let_def cjson_type_defs)
    then have "compare_elements cs ch ch' = Some (map (value_of cs) ch = map (value_of cs) ch')"
      by (intro compare_list IH(1)) (auto simp: list_all_iff)
    then show ?thesis using Arr unfolding a b by (simp add: compare_items_kind(2) value_of.simps Let_def cjson_type_defs)
  next
    case Obj
    then have o: "list_all (\<lambda>e. jstring e \<noteq> None \<and> has_value cs e) ch" "distinct (map (name_key cs) ch)"
      "list_all (\<lambda>e. jstring e \<noteq> None \<and> has_value cs e) ch'" "distinct (map (name_key cs) ch')"
      using less.prems unfolding a b by (auto simp: has_value.simps Let_def cjson_type_defs)
    define A B where "A = map_of (map (\<lambda>e. (name_key cs e, value_of cs e)) ch)" and "B = map_of (map (\<lambda>e. (name_key cs e, value_of cs e)) ch')"
    have "compare_members cs ch b = Some (A \<subseteq>\<^sub>m B)" "compare_members cs ch' a = Some (B \<subseteq>\<^sub>m A)"
      using compare_map [of b ch cs] compare_map [of a ch' cs] IH o unfolding A_def B_def a b by (auto simp: list_all_iff)
    moreover have "A = B \<longleftrightarrow> A \<subseteq>\<^sub>m B \<and> B \<subseteq>\<^sub>m A" using map_le_antisym by auto
    ultimately show ?thesis
      using Obj unfolding a b A_def B_def by (simp add: compare_items_kind(3) value_of.simps Let_def cjson_type_defs)
  next
    case Scalar
    then show ?thesis
      using less.prems unfolding a b
      by (auto simp: compare_items_kind(4) value_of.simps has_value.simps Let_def cjson_type_defs d_eq_number)
  qed
qed

subsection \<open>Properties\<close>

text \<open>C22: \<open>cJSON_Compare\<close> decides equality of JSON values, with or without regard to case: for items with a value, whatever their flags and the
  addresses of their nodes, it answers true exactly when arrays agree element by element, objects map the same names to
  the same values in whatever order the members stand, strings and raw texts are the same, and numbers are the same double.\<close>

theorem compare_is_equality:
  assumes "has_value cs a" "has_value cs b" "same \<longrightarrow> a = b"
  shows "cJSON_Compare same (Some a) (Some b) cs = Some (value_of cs a = value_of cs b)"
  using compare_value [OF assms(1,2)] assms(3) by (simp add: cJSON_Compare_def)

definition one_zero :: "string \<Rightarrow> string \<Rightarrow> int \<Rightarrow> int \<Rightarrow> cJSON" where
  "one_zero k1 k2 x y = Item cJSON_Object None 0 zero_double None
     [Item cJSON_Number None x (double_of_int x) (Some k1) [], Item cJSON_Number None y (double_of_int y) (Some k2) []]"

lemma compare_is_equality_witness:
  "cJSON_Compare False (Some (one_zero ''a'' ''b'' 1 0)) (Some (one_zero ''b'' ''a'' 0 1)) True = Some True \<and>
   cJSON_Compare False (Some (one_zero ''a'' ''b'' 1 0)) (Some (one_zero ''a'' ''b'' 0 1)) True = Some False"
proof -
  have n: "number_of (double_of_int 1) = Finite 1" "number_of (double_of_int 0) = Finite 0" "double_of_int 1 \<noteq> NaN" "double_of_int 0 \<noteq> NaN"
    by (simp_all add: double_of_int_exact)
  have v: "has_value True (one_zero k1 k2 x y)" if "k1 \<noteq> k2" "x \<in> {0, 1}" "y \<in> {0, 1}" for k1 k2 x y
    using that n by (auto simp: one_zero_def has_value.simps name_key_def Let_def cjson_type_defs)
  have "value_of True (one_zero ''a'' ''b'' 1 0) = value_of True (one_zero ''b'' ''a'' 0 1)"
    "value_of True (one_zero ''a'' ''b'' 1 0) \<noteq> value_of True (one_zero ''a'' ''b'' 0 1)"
    using n by (auto simp: one_zero_def value_of.simps name_key_def Let_def cjson_type_defs fun_eq_iff)
  then show ?thesis
    using compare_is_equality [OF v v, of "''a''" "''b''" 1 0 "''b''" "''a''" 0 1 False]
      compare_is_equality [OF v v, of "''a''" "''b''" 1 0 "''a''" "''b''" 0 1 False] by simp
qed

end
