(* ===== verification/List_Head.thy ===== *)
theory List_Head
  imports CPrelude
begin

text \<open>
  The intrusive doubly linked lists of \<open>base-utils.h\<close>. A \<open>struct list_head\<close> is a node of a heap, two
  addresses; a node that is not allocated has no fields, and reading or writing one is undefined
  (\<open>None\<close>). \<open>ring h hd xs\<close> says that the list with the head \<open>hd\<close> holds the nodes \<open>xs\<close>; every operation is
  shown to act on \<open>xs\<close> as its name says, and the loops of the \<open>list_for_each\<close> macros to visit all of it.
\<close>

subsection \<open>Nodes and operations\<close>

type_synonym addr = nat

record list_head =
  lnext :: addr
  lprev :: addr

type_synonym lheap = "addr \<rightharpoonup> list_head"

definition set_next :: "addr \<Rightarrow> addr \<Rightarrow> lheap \<Rightarrow> lheap option" where
  "set_next a v h = do { n \<leftarrow> h a; Some (h(a \<mapsto> n\<lparr>lnext := v\<rparr>)) }"

definition set_prev :: "addr \<Rightarrow> addr \<Rightarrow> lheap \<Rightarrow> lheap option" where
  "set_prev a v h = do { n \<leftarrow> h a; Some (h(a \<mapsto> n\<lparr>lprev := v\<rparr>)) }"

definition get_next :: "lheap \<Rightarrow> addr \<Rightarrow> addr option" where
  "get_next h a = map_option lnext (h a)"

definition get_prev :: "lheap \<Rightarrow> addr \<Rightarrow> addr option" where
  "get_prev h a = map_option lprev (h a)"

definition INIT_LIST_HEAD :: "addr \<Rightarrow> lheap \<Rightarrow> lheap option" where
  "INIT_LIST_HEAD l h = do { h1 \<leftarrow> set_next l l h; set_prev l l h1 }"

definition list_add_between :: "addr \<Rightarrow> addr \<Rightarrow> addr \<Rightarrow> lheap \<Rightarrow> lheap option" where
  \<comment> \<open>\<open>__list_add\<close>\<close>
  "list_add_between new_item prev next h =
     do { h1 \<leftarrow> set_prev next new_item h; h2 \<leftarrow> set_next new_item next h1;
          h3 \<leftarrow> set_prev new_item prev h2; set_next prev new_item h3 }"

definition list_add :: "addr \<Rightarrow> addr \<Rightarrow> lheap \<Rightarrow> lheap option" where
  "list_add new_item head h = do { n \<leftarrow> get_next h head; list_add_between new_item head n h }"

definition list_add_tail :: "addr \<Rightarrow> addr \<Rightarrow> lheap \<Rightarrow> lheap option" where
  "list_add_tail new_item head h = do { p \<leftarrow> get_prev h head; list_add_between new_item p head h }"

definition list_del_between :: "addr \<Rightarrow> addr \<Rightarrow> lheap \<Rightarrow> lheap option" where
  \<comment> \<open>\<open>__list_del\<close>\<close>
  "list_del_between prev next h = do { h1 \<leftarrow> set_prev next prev h; set_next prev next h1 }"

definition list_del_entry :: "addr \<Rightarrow> lheap \<Rightarrow> lheap option" where
  \<comment> \<open>\<open>__list_del_entry\<close>\<close>
  "list_del_entry e h = do { p \<leftarrow> get_prev h e; n \<leftarrow> get_next h e; list_del_between p n h }"

definition list_del :: "addr \<Rightarrow> lheap \<Rightarrow> lheap option" where
  "list_del e h = do { p \<leftarrow> get_prev h e; n \<leftarrow> get_next h e; list_del_between p n h }"

definition list_replace :: "addr \<Rightarrow> addr \<Rightarrow> lheap \<Rightarrow> lheap option" where
  "list_replace old new_item h =
     do { n \<leftarrow> get_next h old; h1 \<leftarrow> set_next new_item n h;
          n1 \<leftarrow> get_next h1 new_item; h2 \<leftarrow> set_prev n1 new_item h1;
          p \<leftarrow> get_prev h2 old; h3 \<leftarrow> set_prev new_item p h2;
          p1 \<leftarrow> get_prev h3 new_item; set_next p1 new_item h3 }"

definition list_replace_init :: "addr \<Rightarrow> addr \<Rightarrow> lheap \<Rightarrow> lheap option" where
  "list_replace_init old new_item h = do { h1 \<leftarrow> list_replace old new_item h; INIT_LIST_HEAD old h1 }"

definition list_del_init :: "addr \<Rightarrow> lheap \<Rightarrow> lheap option" where
  "list_del_init e h = do { h1 \<leftarrow> list_del_entry e h; INIT_LIST_HEAD e h1 }"

definition list_move :: "addr \<Rightarrow> addr \<Rightarrow> lheap \<Rightarrow> lheap option" where
  "list_move l head h = do { h1 \<leftarrow> list_del_entry l h; list_add l head h1 }"

definition list_move_tail :: "addr \<Rightarrow> addr \<Rightarrow> lheap \<Rightarrow> lheap option" where
  "list_move_tail l head h = do { h1 \<leftarrow> list_del_entry l h; list_add_tail l head h1 }"

definition list_is_last :: "addr \<Rightarrow> addr \<Rightarrow> lheap \<Rightarrow> bool option" where
  "list_is_last l head h = map_option (\<lambda>n. n = head) (get_next h l)"

definition list_empty :: "addr \<Rightarrow> lheap \<Rightarrow> bool option" where
  "list_empty head h = map_option (\<lambda>n. n = head) (get_next h head)"

definition list_empty_careful :: "addr \<Rightarrow> lheap \<Rightarrow> bool option" where
  "list_empty_careful head h = do { n \<leftarrow> get_next h head; if n = head then do { p \<leftarrow> get_prev h head; Some (n = p) } else Some False }"

definition list_rotate_left :: "addr \<Rightarrow> lheap \<Rightarrow> lheap option" where
  "list_rotate_left head h =
     do { e \<leftarrow> list_empty head h;
          if e then Some h else do { first \<leftarrow> get_next h head; list_move_tail first head h } }"

definition list_is_singular :: "addr \<Rightarrow> lheap \<Rightarrow> bool option" where
  "list_is_singular head h =
     do { e \<leftarrow> list_empty head h;
          if e then Some False else do { n \<leftarrow> get_next h head; p \<leftarrow> get_prev h head; Some (n = p) } }"

definition list_first_entry_or_null :: "addr \<Rightarrow> lheap \<Rightarrow> addr option option" where
  \<comment> \<open>\<open>Some None\<close>: NULL\<close>
  "list_first_entry_or_null head h =
     do { e \<leftarrow> list_empty head h; if e then Some None else do { n \<leftarrow> get_next h head; Some (Some n) } }"

definition list_last_entry :: "addr \<Rightarrow> lheap \<Rightarrow> addr option" where
  "list_last_entry head h = get_prev h head"

text \<open>
  The loops. The first two collect the nodes that the body sees; the third is \<open>list_for_each_entry_safe\<close>
  with a body that may change the list, the last one the search that breaks at the first match (looking at an
  entry may be undefined).
\<close>

partial_function (option) list_for_each :: "lheap \<Rightarrow> addr \<Rightarrow> addr \<Rightarrow> addr list option" where
  "list_for_each h head pos =
     (if pos = head then Some []
      else do { n \<leftarrow> get_next h pos; r \<leftarrow> list_for_each h head n; Some (pos # r) })"

partial_function (option) list_for_each_prev :: "lheap \<Rightarrow> addr \<Rightarrow> addr \<Rightarrow> addr list option" where
  "list_for_each_prev h head pos =
     (if pos = head then Some []
      else do { p \<leftarrow> get_prev h pos; r \<leftarrow> list_for_each_prev h head p; Some (pos # r) })"

partial_function (option) list_for_each_safe ::
    "(addr \<Rightarrow> lheap \<Rightarrow> lheap option) \<Rightarrow> addr \<Rightarrow> addr \<Rightarrow> addr \<Rightarrow> lheap \<Rightarrow> lheap option" where
  "list_for_each_safe body head pos n h =
     (if pos = head then Some h
      else do { h1 \<leftarrow> body pos h; n1 \<leftarrow> get_next h1 n; list_for_each_safe body head n n1 h1 })"

partial_function (option) list_search :: "(addr \<Rightarrow> bool option) \<Rightarrow> lheap \<Rightarrow> addr \<Rightarrow> addr \<Rightarrow> addr \<Rightarrow> addr option option" where
  "list_search P h head pos n =
     (if pos = head then Some None
      else do { b \<leftarrow> P pos;
                if b then Some (Some pos) else do { n1 \<leftarrow> get_next h n; list_search P h head n n1 } })"

definition list_find_entry :: "(addr \<Rightarrow> bool option) \<Rightarrow> lheap \<Rightarrow> addr \<Rightarrow> addr option option" where
  "list_find_entry P h head = do { pos \<leftarrow> get_next h head; n \<leftarrow> get_next h pos; list_search P h head pos n }"

definition list_remove_if :: "(addr \<Rightarrow> bool) \<Rightarrow> addr \<Rightarrow> lheap \<Rightarrow> lheap option" where
  \<comment> \<open>\<open>list_for_each_entry_safe\<close> with \<open>if (P(pos)) list_del(pos)\<close>\<close>
  "list_remove_if P head h =
     do { pos \<leftarrow> get_next h head; n \<leftarrow> get_next h pos;
          list_for_each_safe (\<lambda>a h. if P a then list_del a h else Some h) head pos n h }"

subsection \<open>Fields after an assignment\<close>

lemma set_next_fields:
  assumes "a \<in> dom h"
  shows "\<exists>h'. set_next a v h = Some h' \<and> get_next h' = (get_next h)(a \<mapsto> v) \<and> get_prev h' = get_prev h \<and> dom h' = dom h"
proof -
  obtain n where "h a = Some n" using assms by blast
  then show ?thesis
    by (intro exI [of _ "h(a \<mapsto> n\<lparr>lnext := v\<rparr>)"]) (auto simp: set_next_def get_next_def get_prev_def fun_eq_iff)
qed

lemma set_prev_fields:
  assumes "a \<in> dom h"
  shows "\<exists>h'. set_prev a v h = Some h' \<and> get_prev h' = (get_prev h)(a \<mapsto> v) \<and> get_next h' = get_next h \<and> dom h' = dom h"
proof -
  obtain n where "h a = Some n" using assms by blast
  then show ?thesis
    by (intro exI [of _ "h(a \<mapsto> n\<lparr>lprev := v\<rparr>)"]) (auto simp: set_prev_def get_next_def get_prev_def fun_eq_iff)
qed

lemma get_dom: "get_next h a = Some b \<Longrightarrow> a \<in> dom h" "get_prev h a = Some b \<Longrightarrow> a \<in> dom h"
  by (auto simp: get_next_def get_prev_def)

lemma add_between_fields:
  assumes "new_item \<in> dom h" "p \<in> dom h" "n \<in> dom h"
  shows "\<exists>h'. list_add_between new_item p n h = Some h' \<and> dom h' = dom h \<and>
     get_next h' = (get_next h)(new_item \<mapsto> n, p \<mapsto> new_item) \<and> get_prev h' = (get_prev h)(n \<mapsto> new_item, new_item \<mapsto> p)"
proof -
  obtain h1 where 1: "set_prev n new_item h = Some h1" "get_prev h1 = (get_prev h)(n \<mapsto> new_item)" "get_next h1 = get_next h"
    "dom h1 = dom h" using set_prev_fields [OF assms(3)] by blast
  have "new_item \<in> dom h1" using 1 assms by simp
  then obtain h2 where 2: "set_next new_item n h1 = Some h2" "get_next h2 = (get_next h1)(new_item \<mapsto> n)"
    "get_prev h2 = get_prev h1" "dom h2 = dom h1" using set_next_fields by blast
  have "new_item \<in> dom h2" using 1 2 assms by simp
  then obtain h3 where 3: "set_prev new_item p h2 = Some h3" "get_prev h3 = (get_prev h2)(new_item \<mapsto> p)"
    "get_next h3 = get_next h2" "dom h3 = dom h2" using set_prev_fields by blast
  have "p \<in> dom h3" using 1 2 3 assms by simp
  then obtain h4 where 4: "set_next p new_item h3 = Some h4" "get_next h4 = (get_next h3)(p \<mapsto> new_item)"
    "get_prev h4 = get_prev h3" "dom h4 = dom h3" using set_next_fields by blast
  show ?thesis using 1 2 3 4 by (simp add: list_add_between_def)
qed

lemma del_between_fields:
  assumes "p \<in> dom h" "n \<in> dom h"
  shows "\<exists>h'. list_del_between p n h = Some h' \<and> dom h' = dom h \<and>
     get_next h' = (get_next h)(p \<mapsto> n) \<and> get_prev h' = (get_prev h)(n \<mapsto> p)"
proof -
  obtain h1 where 1: "set_prev n p h = Some h1" "get_prev h1 = (get_prev h)(n \<mapsto> p)" "get_next h1 = get_next h"
    "dom h1 = dom h" using set_prev_fields [OF assms(2)] by blast
  have "p \<in> dom h1" using 1 assms by simp
  then obtain h2 where "set_next p n h1 = Some h2" "get_next h2 = (get_next h1)(p \<mapsto> n)"
    "get_prev h2 = get_prev h1" "dom h2 = dom h1" using set_next_fields by blast
  then show ?thesis using 1 by (simp add: list_del_between_def)
qed

lemma init_fields:
  assumes "a \<in> dom h"
  shows "\<exists>h'. INIT_LIST_HEAD a h = Some h' \<and> dom h' = dom h \<and>
     get_next h' = (get_next h)(a \<mapsto> a) \<and> get_prev h' = (get_prev h)(a \<mapsto> a)"
proof -
  obtain h1 where 1: "set_next a a h = Some h1" "get_next h1 = (get_next h)(a \<mapsto> a)" "get_prev h1 = get_prev h"
    "dom h1 = dom h" using set_next_fields [OF assms] by blast
  have "a \<in> dom h1" using 1 assms by simp
  then obtain h2 where "set_prev a a h1 = Some h2" "get_prev h2 = (get_prev h1)(a \<mapsto> a)" "get_next h2 = get_next h1"
    "dom h2 = dom h1" using set_prev_fields by blast
  then show ?thesis using 1 by (simp add: INIT_LIST_HEAD_def)
qed

subsection \<open>What a list holds\<close>

text \<open>Consecutive nodes of \<open>as\<close> point at each other.\<close>

fun chain :: "lheap \<Rightarrow> addr list \<Rightarrow> bool" where
  "chain h (a # b # as) \<longleftrightarrow> get_next h a = Some b \<and> get_prev h b = Some a \<and> chain h (b # as)"
| "chain h as \<longleftrightarrow> True"

definition ring :: "lheap \<Rightarrow> addr \<Rightarrow> addr list \<Rightarrow> bool" where
  "ring h head xs \<longleftrightarrow> distinct (head # xs) \<and> chain h (head # xs @ [head])"

lemma chain_append: "chain h (xs @ a # ys) \<longleftrightarrow> chain h (xs @ [a]) \<and> chain h (a # ys)"
proof (induction xs rule: induct_list012)
  case (2 x)
  then show ?case by (cases ys) auto
qed auto

lemma chain_cong:
  "(\<And>a. a \<in> set (butlast as) \<Longrightarrow> get_next h' a = get_next h a) \<Longrightarrow> (\<And>b. b \<in> set (tl as) \<Longrightarrow> get_prev h' b = get_prev h b) \<Longrightarrow>
     chain h' as = chain h as"
  by (induction h as rule: chain.induct) auto

lemma chain_dom: "chain h as \<Longrightarrow> 2 \<le> length as \<Longrightarrow> set as \<subseteq> dom h"
  by (induction h as rule: chain.induct) (auto dest: get_dom, (case_tac as; auto dest: get_dom)+)

lemma ring_dom: "ring h head xs \<Longrightarrow> insert head (set xs) \<subseteq> dom h"
  using chain_dom [of h "head # xs @ [head]"] by (simp add: ring_def)

text \<open>Other lists are not touched by a change at the nodes of \<open>A\<close>.\<close>

definition frame :: "addr set \<Rightarrow> lheap \<Rightarrow> lheap \<Rightarrow> bool" where
  "frame A h h' \<longleftrightarrow> dom h' = dom h \<and> (\<forall>a. a \<notin> A \<longrightarrow> get_next h' a = get_next h a \<and> get_prev h' a = get_prev h a)"

lemma frame_ring: "frame A h h' \<Longrightarrow> ring h g zs \<Longrightarrow> A \<inter> insert g (set zs) = {} \<Longrightarrow> ring h' g zs"
  unfolding ring_def frame_def
  by (subst chain_cong [of "g # zs @ [g]" h' h]) (auto simp: butlast_append split: if_splits dest: in_set_butlastD)

lemma frame_trans: "frame A h h1 \<Longrightarrow> frame B h1 h2 \<Longrightarrow> frame (A \<union> B) h h2"
  by (simp add: frame_def)

lemma frame_mono: "frame A h h' \<Longrightarrow> A \<subseteq> B \<Longrightarrow> frame B h h'"
  by (auto simp: frame_def)

text \<open>A chain that is opened between \<open>a\<close> and \<open>b\<close>: its two parts survive changes of the inner links.\<close>

lemma chain_parts:
  assumes "chain h (us @ a # ms @ b # vs)" "distinct (butlast (us @ a # ms @ b # vs))" "distinct (tl (us @ a # ms @ b # vs))"
    and "\<And>c. c \<in> set (us @ a # ms @ b # vs) \<Longrightarrow> c \<noteq> a \<Longrightarrow> get_next h' c = get_next h c"
    and "\<And>c. c \<in> set (us @ a # ms @ b # vs) \<Longrightarrow> c \<noteq> b \<Longrightarrow> get_prev h' c = get_prev h c"
  shows "chain h' (us @ [a])" "chain h' (b # vs)"
proof -
  have c: "chain h (us @ [a])" "chain h (b # vs)"
    using assms(1) chain_append [of h us a "ms @ b # vs"] chain_append [of h "a # ms" b vs] by auto
  have d: "a \<notin> set us" "a \<notin> set (butlast (b # vs))" "b \<notin> set vs" "us \<noteq> [] \<Longrightarrow> b \<notin> set (tl us @ [a])"
    using assms(2,3) by (auto simp: butlast_append distinct_tl split: if_splits) (cases us; auto)+
  show "chain h' (us @ [a])"
    by (subst chain_cong [of _ h' h]) (use c(1) d assms(4,5) in \<open>cases us; auto dest: in_set_butlastD\<close>)+
  show "chain h' (b # vs)"
    by (subst chain_cong [of _ h' h]) (use c(2) d assms(4,5) in \<open>auto dest: in_set_butlastD split: if_splits\<close>)
qed

lemma chain_insert:
  assumes "chain h (us @ a # ms @ b # vs)" "distinct (butlast (us @ a # ms @ b # vs))" "distinct (tl (us @ a # ms @ b # vs))"
    and "x \<notin> set (us @ a # ms @ b # vs)"
    and "get_next h' = (get_next h)(x \<mapsto> b, a \<mapsto> x)" "get_prev h' = (get_prev h)(b \<mapsto> x, x \<mapsto> a)"
  shows "chain h' (us @ a # x # b # vs)"
proof -
  have "chain h' (us @ [a])" "chain h' (b # vs)" by (rule chain_parts [OF assms(1-3)]; use assms(4-6) in auto)+
  moreover have "get_next h' a = Some x" "get_prev h' x = Some a" "get_next h' x = Some b" "get_prev h' b = Some x"
    using assms(4-6) by auto
  ultimately show ?thesis using chain_append [of h' us a "x # b # vs"] by simp
qed

lemma chain_delete:
  assumes "chain h (us @ a # e # b # vs)" "distinct (butlast (us @ a # e # b # vs))" "distinct (tl (us @ a # e # b # vs))"
    and "get_next h' = (get_next h)(a \<mapsto> b)" "get_prev h' = (get_prev h)(b \<mapsto> a)"
  shows "chain h' (us @ a # b # vs)"
proof -
  note p = chain_parts [of h us a "[e]" b vs h', unfolded append_Cons append_Nil, OF assms(1-3)]
  have "chain h' (us @ [a])" "chain h' (b # vs)" by (rule p; use assms(4,5) in simp)+
  then show ?thesis using assms(4,5) chain_append [of h' us a "b # vs"] by simp
qed

text \<open>The circle \<open>head, xs, ys, head\<close>, opened between \<open>xs\<close> and \<open>ys\<close>.\<close>

lemma circle_split:
  "head # xs @ ys @ [head] = butlast (head # xs) @ last (head # xs) # hd (ys @ [head]) # tl (ys @ [head])"
proof -
  have "head # xs @ ys @ [head] = (head # xs) @ (ys @ [head])" by simp
  also have "head # xs = butlast (head # xs) @ [last (head # xs)]" by simp
  also have "ys @ [head] = hd (ys @ [head]) # tl (ys @ [head])" by simp
  finally show ?thesis by simp
qed

lemma ring_add:
  assumes "ring h head (xs @ ys)" "x \<in> dom h" "x \<notin> insert head (set (xs @ ys))"
  shows "\<exists>h'. list_add_between x (last (head # xs)) (hd (ys @ [head])) h = Some h' \<and> ring h' head (xs @ x # ys) \<and>
     frame (insert x (insert head (set (xs @ ys)))) h h'"
proof -
  define us a b vs where "us = butlast (head # xs)" and "a = last (head # xs)" and "b = hd (ys @ [head])" and "vs = tl (ys @ [head])"
  have L: "head # xs @ ys @ [head] = us @ a # b # vs" unfolding us_def a_def b_def vs_def by (rule circle_split)
  have ab: "a \<in> insert head (set (xs @ ys))" "b \<in> insert head (set (xs @ ys))"
    by (auto simp: a_def b_def) (cases ys; simp)
  have "a \<in> dom h" "b \<in> dom h" using ring_dom [OF assms(1)] ab by auto
  with assms(2) obtain h' where h': "list_add_between x a b h = Some h'" "dom h' = dom h"
    "get_next h' = (get_next h)(x \<mapsto> b, a \<mapsto> x)" "get_prev h' = (get_prev h)(b \<mapsto> x, x \<mapsto> a)"
    using add_between_fields by blast
  have ch: "chain h (us @ a # b # vs)" "distinct (head # xs @ ys)" using assms(1) L by (simp_all add: ring_def)
  have ds: "distinct (butlast (us @ a # b # vs))" "distinct (tl (us @ a # b # vs))"
    unfolding L [symmetric] using ch(2) by (auto simp: butlast_append)
  have "set (us @ a # b # vs) = insert head (set (xs @ ys))" unfolding L [symmetric] by auto
  then have "chain h' (us @ a # x # b # vs)" using chain_insert [of h us a "[]" b vs x h', unfolded append_Nil, OF ch(1) ds _ h'(3,4)] assms(3) by simp
  moreover have "us @ a # x # b # vs = head # (xs @ x # ys) @ [head]"
  proof -
    have "us @ [a] = head # xs" "b # vs = ys @ [head]" by (simp_all add: us_def a_def b_def vs_def)
    then show ?thesis by (metis append.assoc append_Cons append_Nil)
  qed
  ultimately have "ring h' head (xs @ x # ys)" using ch(2) assms(3) by (simp add: ring_def)
  moreover have "frame (insert x (insert head (set (xs @ ys)))) h h'" using h' ab by (auto simp: frame_def)
  ultimately show ?thesis using h'(1) by (auto simp: a_def b_def)
qed

lemma ring_ends:
  assumes "ring h head (xs @ ys)"
  shows "get_next h (last (head # xs)) = Some (hd (ys @ [head]))" "get_prev h (hd (ys @ [head])) = Some (last (head # xs))"
  using assms chain_append [of h "butlast (head # xs)" "last (head # xs)" "hd (ys @ [head]) # tl (ys @ [head])"]
  unfolding ring_def by (simp_all only: append.assoc circle_split chain.simps)

lemma ring_del:
  assumes "ring h head (xs @ x # ys)"
  shows "\<exists>h'. list_del x h = Some h' \<and> ring h' head (xs @ ys) \<and> frame (insert head (set (xs @ ys))) h h' \<and>
     get_next h' x = get_next h x"
proof -
  define us a b vs where "us = butlast (head # xs)" and "a = last (head # xs)" and "b = hd (ys @ [head])" and "vs = tl (ys @ [head])"
  have parts: "us @ [a] = head # xs" "b # vs = ys @ [head]" by (simp_all add: us_def a_def b_def vs_def)
  have L: "head # (xs @ x # ys) @ [head] = us @ a # x # b # vs" using parts by (metis append.assoc append_Cons append_Nil)
  have ab: "a \<in> insert head (set (xs @ ys))" "b \<in> insert head (set (xs @ ys))"
    by (auto simp: a_def b_def) (cases ys; simp)
  have dom: "a \<in> dom h" "b \<in> dom h" using ring_dom [OF assms] ab by auto
  have nx: "get_prev h x = Some a" "get_next h x = Some b"
    using ring_ends(2) [of h head xs "x # ys"] ring_ends(1) [of h head "xs @ [x]" ys] assms by (simp_all add: a_def b_def)
  from dom obtain h' where h': "list_del_between a b h = Some h'" "dom h' = dom h"
    "get_next h' = (get_next h)(a \<mapsto> b)" "get_prev h' = (get_prev h)(b \<mapsto> a)"
    using del_between_fields by blast
  have ch: "chain h (us @ a # x # b # vs)" "distinct (head # xs @ x # ys)" using assms L by (simp_all add: ring_def)
  have ds: "distinct (butlast (us @ a # x # b # vs))" "distinct (tl (us @ a # x # b # vs))"
    unfolding L [symmetric] using ch(2) by (auto simp: butlast_append)
  have "chain h' (us @ a # b # vs)" by (rule chain_delete [OF ch(1) ds h'(3,4)])
  moreover have "us @ a # b # vs = head # (xs @ ys) @ [head]" using parts by (metis append.assoc append_Cons append_Nil)
  ultimately have "ring h' head (xs @ ys)" using ch(2) by (simp add: ring_def)
  moreover have "frame (insert head (set (xs @ ys))) h h'" using h' ab by (auto simp: frame_def)
  moreover have "x \<noteq> a" using ab(1) ch(2) by auto
  ultimately show ?thesis using h' nx by (simp add: list_del_def)
qed

lemma ring_list_add:
  assumes "ring h head xs" "x \<in> dom h" "x \<notin> insert head (set xs)"
  shows "\<exists>h'. list_add x head h = Some h' \<and> ring h' head (x # xs) \<and> frame (insert x (insert head (set xs))) h h'"
  using ring_add [of h head "[]" xs x] ring_ends(1) [of h head "[]" xs] assms by (auto simp: list_add_def)

lemma ring_list_add_tail:
  assumes "ring h head xs" "x \<in> dom h" "x \<notin> insert head (set xs)"
  shows "\<exists>h'. list_add_tail x head h = Some h' \<and> ring h' head (xs @ [x]) \<and> frame (insert x (insert head (set xs))) h h'"
  using ring_add [of h head xs "[]" x] ring_ends(2) [of h head xs "[]"] assms by (auto simp: list_add_tail_def)

lemma ring_init:
  assumes "a \<in> dom h"
  shows "\<exists>h'. INIT_LIST_HEAD a h = Some h' \<and> ring h' a [] \<and> frame {a} h h'"
  using init_fields [OF assms] by (auto simp: ring_def frame_def)

lemma list_del_entry_eq: "list_del_entry = list_del"
  by (simp add: fun_eq_iff list_del_entry_def list_del_def)

lemma ring_del_init:
  assumes "ring h head (xs @ x # ys)"
  shows "\<exists>h'. list_del_init x h = Some h' \<and> ring h' head (xs @ ys) \<and> ring h' x [] \<and> frame (insert x (insert head (set (xs @ ys)))) h h'"
proof -
  obtain h1 where h1: "list_del x h = Some h1" "ring h1 head (xs @ ys)" "frame (insert head (set (xs @ ys))) h h1"
    using ring_del [OF assms] by blast
  have "x \<in> dom h1" using h1(3) ring_dom [OF assms] by (auto simp: frame_def)
  then obtain h' where h': "INIT_LIST_HEAD x h1 = Some h'" "ring h' x []" "frame {x} h1 h'" using ring_init by blast
  have "x \<notin> insert head (set (xs @ ys))" using assms by (auto simp: ring_def)
  then have "ring h' head (xs @ ys)" using frame_ring [OF h'(3) h1(2)] by simp
  moreover have "frame (insert x (insert head (set (xs @ ys)))) h h'"
    using frame_trans [OF h1(3) h'(3)] by (rule frame_mono) simp
  ultimately show ?thesis using h1(1) h' by (auto simp: list_del_init_def list_del_entry_eq)
qed

text \<open>Moving a node to another list, and inside one.\<close>

lemma ring_move:
  assumes "ring h g (xs @ x # ys)" "ring h head zs" "insert g (set (xs @ x # ys)) \<inter> insert head (set zs) = {}"
  shows "\<exists>h'. list_move x head h = Some h' \<and> ring h' g (xs @ ys) \<and> ring h' head (x # zs)"
    "\<exists>h'. list_move_tail x head h = Some h' \<and> ring h' g (xs @ ys) \<and> ring h' head (zs @ [x])"
proof -
  obtain h1 where h1: "list_del x h = Some h1" "ring h1 g (xs @ ys)" "frame (insert g (set (xs @ ys))) h h1"
    using ring_del [OF assms(1)] by blast
  have x: "x \<in> dom h1" "x \<notin> insert head (set zs)" "x \<notin> insert g (set (xs @ ys))"
    using h1(3) ring_dom [OF assms(1)] assms(1,3) by (auto simp: frame_def ring_def)
  have r: "ring h1 head zs" using frame_ring [OF h1(3) assms(2)] assms(3) by auto
  have keep: "ring h' g (xs @ ys)" if "frame (insert x (insert head (set zs))) h1 h'" for h'
    using frame_ring [OF that h1(2)] x(3) assms(3) by auto
  obtain h' where "list_add x head h1 = Some h'" "ring h' head (x # zs)" "frame (insert x (insert head (set zs))) h1 h'"
    using ring_list_add [OF r x(1,2)] by blast
  then show "\<exists>h'. list_move x head h = Some h' \<and> ring h' g (xs @ ys) \<and> ring h' head (x # zs)"
    using h1(1) keep by (auto simp: list_move_def list_del_entry_eq)
  obtain h'' where "list_add_tail x head h1 = Some h''" "ring h'' head (zs @ [x])" "frame (insert x (insert head (set zs))) h1 h''"
    using ring_list_add_tail [OF r x(1,2)] by blast
  then show "\<exists>h'. list_move_tail x head h = Some h' \<and> ring h' g (xs @ ys) \<and> ring h' head (zs @ [x])"
    using h1(1) keep by (auto simp: list_move_tail_def list_del_entry_eq)
qed

lemma ring_move_same:
  assumes "ring h head (xs @ x # ys)"
  shows "\<exists>h'. list_move x head h = Some h' \<and> ring h' head (x # xs @ ys)"
    "\<exists>h'. list_move_tail x head h = Some h' \<and> ring h' head (xs @ ys @ [x])"
proof -
  obtain h1 where h1: "list_del x h = Some h1" "ring h1 head (xs @ ys)" "frame (insert head (set (xs @ ys))) h h1"
    using ring_del [OF assms] by blast
  have x: "x \<in> dom h1" "x \<notin> insert head (set (xs @ ys))"
    using h1(3) ring_dom [OF assms] assms by (auto simp: frame_def ring_def)
  show "\<exists>h'. list_move x head h = Some h' \<and> ring h' head (x # xs @ ys)"
    using h1(1) ring_list_add [OF h1(2) x] by (auto simp: list_move_def list_del_entry_eq)
  show "\<exists>h'. list_move_tail x head h = Some h' \<and> ring h' head (xs @ ys @ [x])"
    using h1(1) ring_list_add_tail [OF h1(2) x] by (auto simp: list_move_tail_def list_del_entry_eq)
qed

lemma replace_fields:
  assumes "get_next h e = Some b" "get_prev h e = Some a" "a \<in> dom h" "b \<in> dom h" "x \<in> dom h" "e \<noteq> b" "x \<noteq> e"
  shows "\<exists>h'. list_replace e x h = Some h' \<and> dom h' = dom h \<and>
     get_next h' = (get_next h)(x \<mapsto> b, a \<mapsto> x) \<and> get_prev h' = (get_prev h)(b \<mapsto> x, x \<mapsto> a)"
proof -
  obtain h1 where 1: "set_next x b h = Some h1" "get_next h1 = (get_next h)(x \<mapsto> b)" "get_prev h1 = get_prev h" "dom h1 = dom h"
    using set_next_fields [OF assms(5)] by blast
  have "b \<in> dom h1" using 1 assms by simp
  then obtain h2 where 2: "set_prev b x h1 = Some h2" "get_prev h2 = (get_prev h1)(b \<mapsto> x)" "get_next h2 = get_next h1" "dom h2 = dom h1"
    using set_prev_fields by blast
  have "x \<in> dom h2" using 1 2 assms by simp
  then obtain h3 where 3: "set_prev x a h2 = Some h3" "get_prev h3 = (get_prev h2)(x \<mapsto> a)" "get_next h3 = get_next h2" "dom h3 = dom h2"
    using set_prev_fields by blast
  have "a \<in> dom h3" using 1 2 3 assms by simp
  then obtain h4 where 4: "set_next a x h3 = Some h4" "get_next h4 = (get_next h3)(a \<mapsto> x)" "get_prev h4 = get_prev h3" "dom h4 = dom h3"
    using set_next_fields by blast
  show ?thesis using 1 2 3 4 assms(1,2,6,7) by (simp add: list_replace_def)
qed

lemma ring_replace:
  assumes "ring h head (xs @ e # ys)" "x \<in> dom h" "x \<notin> insert head (set (xs @ e # ys))"
  shows "\<exists>h'. list_replace e x h = Some h' \<and> ring h' head (xs @ x # ys)"
    "\<exists>h'. list_replace_init e x h = Some h' \<and> ring h' head (xs @ x # ys) \<and> ring h' e []"
proof -
  define us a b vs where "us = butlast (head # xs)" and "a = last (head # xs)" and "b = hd (ys @ [head])" and "vs = tl (ys @ [head])"
  have parts: "us @ [a] = head # xs" "b # vs = ys @ [head]" by (simp_all add: us_def a_def b_def vs_def)
  have L: "head # (xs @ z # ys) @ [head] = us @ a # z # b # vs" for z using parts by (metis append.assoc append_Cons append_Nil)
  have ab: "a \<in> insert head (set (xs @ ys))" "b \<in> insert head (set (xs @ ys))"
    by (auto simp: a_def b_def) (cases ys; simp)
  have dom: "a \<in> dom h" "b \<in> dom h" "e \<in> dom h" using ring_dom [OF assms(1)] ab by auto
  have nx: "get_prev h e = Some a" "get_next h e = Some b"
    using ring_ends(2) [of h head xs "e # ys"] ring_ends(1) [of h head "xs @ [e]" ys] assms(1) by (simp_all add: a_def b_def)
  have ch: "chain h (us @ a # e # b # vs)" "distinct (head # xs @ e # ys)" using assms(1) L by (simp_all add: ring_def)
  then have "e \<noteq> b" "x \<noteq> e" using ab(2) assms(3) by auto
  then obtain h' where h': "list_replace e x h = Some h'" "dom h' = dom h"
    "get_next h' = (get_next h)(x \<mapsto> b, a \<mapsto> x)" "get_prev h' = (get_prev h)(b \<mapsto> x, x \<mapsto> a)"
    using replace_fields [OF nx(2,1) dom(1,2) assms(2)] by blast
  have ds: "distinct (butlast (us @ a # e # b # vs))" "distinct (tl (us @ a # e # b # vs))"
    unfolding L [symmetric] using ch(2) by (auto simp: butlast_append)
  have "x \<notin> set (us @ a # e # b # vs)" unfolding L [symmetric] using assms(3) by auto
  from chain_insert [of h us a "[e]" b vs x h', unfolded append_Cons append_Nil, OF ch(1) ds this h'(3,4)] have r: "ring h' head (xs @ x # ys)"
    using ch(2) assms(3) L [of x] by (simp add: ring_def)
  show "\<exists>h'. list_replace e x h = Some h' \<and> ring h' head (xs @ x # ys)" using h'(1) r by blast
  have "e \<in> dom h'" using h'(2) dom by simp
  then obtain h2 where h2: "INIT_LIST_HEAD e h' = Some h2" "ring h2 e []" "frame {e} h' h2" using ring_init by blast
  have "ring h2 head (xs @ x # ys)" using frame_ring [OF h2(3) r] ch(2) \<open>x \<noteq> e\<close> by simp
  then show "\<exists>h'. list_replace_init e x h = Some h' \<and> ring h' head (xs @ x # ys) \<and> ring h' e []"
    using h'(1) h2 by (simp add: list_replace_init_def)
qed

subsection \<open>Queries\<close>

lemma ring_queries:
  assumes "ring h head xs"
  shows "list_empty head h = Some (xs = [])" "list_empty_careful head h = Some (xs = [])"
    "list_first_entry_or_null head h = Some (if xs = [] then None else Some (hd xs))"
    "xs \<noteq> [] \<Longrightarrow> list_last_entry head h = Some (last xs)"
    "list_is_singular head h = Some (length xs = 1)"
proof -
  have nx: "get_next h head = Some (hd (xs @ [head]))" "get_prev h head = Some (last (head # xs))"
    using ring_ends(1) [of h head "[]" xs] ring_ends(2) [of h head xs "[]"] assms by simp_all
  have e: "hd (xs @ [head]) = head \<longleftrightarrow> xs = []" using assms by (cases xs) (auto simp: ring_def)
  show empty: "list_empty head h = Some (xs = [])" using nx e by (simp add: list_empty_def)
  show "list_empty_careful head h = Some (xs = [])" using nx e by (auto simp: list_empty_careful_def)
  show "list_first_entry_or_null head h = Some (if xs = [] then None else Some (hd xs))"
    using nx empty by (cases xs) (simp_all add: list_first_entry_or_null_def)
  show "xs \<noteq> [] \<Longrightarrow> list_last_entry head h = Some (last xs)" using nx by (simp add: list_last_entry_def)
  have "xs \<noteq> [] \<Longrightarrow> hd xs = last xs \<longleftrightarrow> length xs = 1"
    using assms by (cases xs) (auto simp: ring_def)
  then show "list_is_singular head h = Some (length xs = 1)" using nx empty by (auto simp: list_is_singular_def)
qed

lemma ring_is_last:
  assumes "ring h head (xs @ x # ys)"
  shows "list_is_last x head h = Some (ys = [])"
proof -
  have "get_next h x = Some (hd (ys @ [head]))" using ring_ends(1) [of h head "xs @ [x]" ys] assms by simp
  moreover have "hd (ys @ [head]) = head \<longleftrightarrow> ys = []" using assms by (cases ys) (auto simp: ring_def)
  ultimately show ?thesis by (simp add: list_is_last_def)
qed

lemma ring_rotate:
  assumes "ring h head xs"
  shows "\<exists>h'. list_rotate_left head h = Some h' \<and> ring h' head (rotate1 xs)"
proof (cases xs)
  case Nil
  then show ?thesis using assms ring_queries(1) [OF assms] by (simp add: list_rotate_left_def)
next
  case (Cons x ys)
  have "get_next h head = Some x" using ring_ends(1) [of h head "[]" xs] assms Cons by simp
  then show ?thesis
    using ring_queries(1) [OF assms] ring_move_same(2) [of h head "[]" x ys] assms Cons by (simp add: list_rotate_left_def)
qed

subsection \<open>The loops visit the whole list\<close>

lemma for_each_chain:
  "chain h (xs @ [head]) \<Longrightarrow> head \<notin> set xs \<Longrightarrow> list_for_each h head (hd (xs @ [head])) = Some xs"
proof (induction xs)
  case (Cons x xs)
  then have "get_next h x = Some (hd (xs @ [head]))" "chain h (xs @ [head])" by (cases xs; simp)+
  then show ?case using Cons by (subst list_for_each.simps) simp
qed (simp add: list_for_each.simps)

lemma for_each_prev_chain:
  "chain h (head # xs) \<Longrightarrow> head \<notin> set xs \<Longrightarrow> list_for_each_prev h head (last (head # xs)) = Some (rev xs)"
proof (induction xs rule: rev_induct)
  case (snoc x xs)
  define us a where "us = butlast (head # xs)" and "a = last (head # xs)"
  have u: "us @ [a] = head # xs" by (simp add: us_def a_def)
  then have e: "head # xs @ [x] = us @ a # [x]" by (metis append.assoc append_Cons append_Nil)
  have "get_prev h x = Some a" "chain h (head # xs)"
    using snoc.prems(1) chain_append [of h us a "[x]"] u unfolding e by simp_all
  then show ?case using snoc by (subst list_for_each_prev.simps) (simp add: a_def)
qed (simp add: list_for_each_prev.simps)

lemma ring_for_each:
  assumes "ring h head xs" "get_next h head = Some n" "get_prev h head = Some p"
  shows "list_for_each h head n = Some xs" "list_for_each_prev h head p = Some (rev xs)"
proof -
  have c: "chain h ((head # xs) @ [head])" "head \<notin> set xs" using assms(1) by (simp_all add: ring_def)
  have "n = hd (xs @ [head])" "p = last (head # xs)"
    using ring_ends(1) [of h head "[]" xs] ring_ends(2) [of h head xs "[]"] assms by simp_all
  moreover have "chain h (xs @ [head])" using c(1) by (cases xs) simp_all
  moreover have "chain h (head # xs)" using c(1) chain_append [of h "butlast (head # xs)" "last (head # xs)" "[head]"]
    by (metis append.assoc append_Cons append_Nil append_butlast_last_id list.distinct(1))
  ultimately show "list_for_each h head n = Some xs" "list_for_each_prev h head p = Some (rev xs)"
    using for_each_chain for_each_prev_chain c(2) by blast+
qed

lemma search_chain:
  assumes "chain h (xs @ [head])" "head \<notin> set xs" "xs \<noteq> [] \<Longrightarrow> n = hd (tl xs @ [head])" "head \<in> dom h"
    "\<forall>x\<in>set xs. P x = Some (Q x)"
  shows "list_search P h head (hd (xs @ [head])) n = Some (find Q xs)"
  using assms
proof (induction xs arbitrary: n)
  case Nil
  then show ?case by (simp add: list_search.simps)
next
  case (Cons x xs)
  show ?case
  proof (cases "Q x")
    case True
    then show ?thesis using Cons.prems(2,5) by (simp add: list_search.simps)
  next
    case False
    have n: "n = hd (xs @ [head])" using Cons.prems(3) by simp
    have ch: "chain h (xs @ [head])" using Cons.prems(1) by (cases xs) simp_all
    obtain n1 where n1: "get_next h n = Some n1" "xs \<noteq> [] \<Longrightarrow> n1 = hd (tl xs @ [head])"
    proof (cases xs)
      case Nil
      then show thesis using that n Cons.prems(4) by (auto simp: get_next_def)
    next
      case (Cons y ys)
      then have "get_next h n = Some (hd (ys @ [head]))" using ch n by (cases ys) simp_all
      then show thesis using that Cons by simp
    qed
    have "list_search P h head (hd (xs @ [head])) n1 = Some (find Q xs)"
      using Cons.IH [OF ch _ n1(2)] Cons.prems(2,4,5) by simp
    then show ?thesis using False Cons.prems(2,5) n n1(1) by (subst list_search.simps) simp
  qed
qed

lemma ring_find_entry:
  assumes "ring h head xs" "\<forall>x\<in>set xs. P x = Some (Q x)"
  shows "list_find_entry P h head = Some (find Q xs)"
proof -
  have n: "get_next h head = Some (hd (xs @ [head]))" using ring_ends(1) [of h head "[]" xs] assms(1) by simp
  have dom: "head \<in> dom h" using ring_dom [OF assms(1)] by simp
  have ch: "chain h (xs @ [head])" "head \<notin> set xs" using assms(1) by (cases xs; simp add: ring_def)+
  obtain n1 where n1: "get_next h (hd (xs @ [head])) = Some n1" "xs \<noteq> [] \<Longrightarrow> n1 = hd (tl xs @ [head])"
  proof (cases xs)
    case Nil
    then show thesis using that n by simp
  next
    case (Cons y ys)
    then have "get_next h y = Some (hd (ys @ [head]))" using ch by (cases ys) simp_all
    then show thesis using that Cons by simp
  qed
  show ?thesis using n n1(1) search_chain [OF ch n1(2) dom assms(2)] by (simp add: list_find_entry_def)
qed

lemma remove_if_loop:
  assumes "ring h head (ds @ ys)" "ys \<noteq> [] \<Longrightarrow> n = hd (tl ys @ [head])"
  shows "\<exists>h'. list_for_each_safe (\<lambda>a h. if P a then list_del a h else Some h) head (hd (ys @ [head])) n h = Some h' \<and>
     ring h' head (ds @ filter (\<lambda>a. \<not> P a) ys)"
  using assms
proof (induction ys arbitrary: ds h n)
  case Nil
  then show ?case by (simp add: list_for_each_safe.simps)
next
  case (Cons y ys)
  have y: "y \<noteq> head" using Cons.prems(1) by (auto simp: ring_def)
  have n: "n = hd (ys @ [head])" using Cons.prems(2) by simp
  define ds' where "ds' = (if P y then ds else ds @ [y])"
  obtain h1 where h1: "(if P y then list_del y h else Some h) = Some h1" "ring h1 head (ds' @ ys)"
  proof (cases "P y")
    case True
    then show thesis using that ring_del [OF Cons.prems(1)] by (auto simp: ds'_def)
  next
    case False
    then show thesis using that Cons.prems(1) by (simp add: ds'_def)
  qed
  obtain n1 where n1: "get_next h1 n = Some n1" "ys \<noteq> [] \<Longrightarrow> n1 = hd (tl ys @ [head])"
  proof (cases ys)
    case Nil
    then show thesis using that n ring_dom [OF h1(2)] by (auto simp: get_next_def)
  next
    case (Cons z zs)
    then show thesis using that n ring_ends(1) [of h1 head "ds' @ [z]" zs] h1(2) by simp
  qed
  obtain h' where "list_for_each_safe (\<lambda>a h. if P a then list_del a h else Some h) head (hd (ys @ [head])) n1 h1 = Some h'"
    "ring h' head (ds' @ filter (\<lambda>a. \<not> P a) ys)" using Cons.IH [OF h1(2) n1(2)] by blast
  then show ?case using y n n1(1) h1(1) by (subst list_for_each_safe.simps) (auto simp: ds'_def)
qed

lemma ring_remove_if:
  assumes "ring h head xs"
  shows "\<exists>h'. list_remove_if P head h = Some h' \<and> ring h' head (filter (\<lambda>a. \<not> P a) xs)"
proof -
  have n: "get_next h head = Some (hd (xs @ [head]))" using ring_ends(1) [of h head "[]" xs] assms by simp
  obtain n1 where n1: "get_next h (hd (xs @ [head])) = Some n1" "xs \<noteq> [] \<Longrightarrow> n1 = hd (tl xs @ [head])"
  proof (cases xs)
    case Nil
    then show thesis using that n by simp
  next
    case (Cons y ys)
    then show thesis using that ring_ends(1) [of h head "[y]" ys] assms by simp
  qed
  show ?thesis using n n1 remove_if_loop [of h head "[]" xs n1 P] assms by (simp add: list_remove_if_def)
qed

subsection \<open>The contract of a list of nodes\<close>

locale node_list =
  fixes holds :: "'h \<Rightarrow> 'a \<Rightarrow> 'a list \<Rightarrow> bool" and valid :: "'h \<Rightarrow> 'a \<Rightarrow> bool"
    and add :: "'a \<Rightarrow> 'a \<Rightarrow> 'h \<Rightarrow> 'h option" and del :: "'a \<Rightarrow> 'h \<Rightarrow> 'h option"
    and search :: "('a \<Rightarrow> bool option) \<Rightarrow> 'h \<Rightarrow> 'a \<Rightarrow> 'a option option"
  assumes add_law: "holds h l xs \<Longrightarrow> valid h x \<Longrightarrow> x \<notin> insert l (set xs) \<Longrightarrow>
      \<exists>h'. add x l h = Some h' \<and> holds h' l (x # xs) \<and> valid h' = valid h"
    and del_law: "holds h l xs \<Longrightarrow> x \<in> set xs \<Longrightarrow> \<exists>h'. del x h = Some h' \<and> holds h' l (remove1 x xs) \<and> valid h' = valid h"
    and search_law: "holds h l xs \<Longrightarrow> \<forall>x\<in>set xs. P x = Some (Q x) \<Longrightarrow> search P h l = Some (find Q xs)"
begin

lemma search_added:
  assumes "holds h l xs" "valid h x" "x \<notin> insert l (set xs)" "\<forall>y\<in>set (x # xs). P y = Some (Q y)" "Q x"
  shows "\<exists>h'. add x l h = Some h' \<and> search P h' l = Some (Some x)"
  using add_law [OF assms(1-3)] search_law [of _ l "x # xs" P Q] assms(4,5) by fastforce

lemma del_added:
  assumes "holds h l xs" "valid h x" "x \<notin> insert l (set xs)"
  shows "\<exists>h1 h2. add x l h = Some h1 \<and> del x h1 = Some h2 \<and> holds h2 l xs \<and> valid h2 = valid h"
proof -
  obtain h1 where h1: "add x l h = Some h1" "holds h1 l (x # xs)" "valid h1 = valid h" using add_law [OF assms] by blast
  have "x \<in> set (x # xs)" by simp
  then obtain h2 where "del x h1 = Some h2" "holds h2 l (remove1 x (x # xs))" "valid h2 = valid h1" using del_law [OF h1(2)] by blast
  then show ?thesis using h1 by simp
qed

lemma search_none: "holds h l xs \<Longrightarrow> \<forall>x\<in>set xs. P x = Some False \<Longrightarrow> search P h l = Some None"
  using search_law [of h l xs P "\<lambda>_. False"] by (simp add: find_None_iff [THEN iffD2])

end

interpretation lh: node_list ring "\<lambda>h a. a \<in> dom h" list_add list_del "\<lambda>P h head. list_find_entry P h head"
proof unfold_locales
  fix h :: lheap and l x xs
  assume "ring h l xs" "x \<in> dom h" "x \<notin> insert l (set xs)"
  from ring_list_add [OF this]
  show "\<exists>h'. list_add x l h = Some h' \<and> ring h' l (x # xs) \<and> (\<lambda>a. a \<in> dom h') = (\<lambda>a. a \<in> dom h)"
    by (auto simp: frame_def)
next
  fix h :: lheap and l x xs
  assume r: "ring h l xs" and "x \<in> set xs"
  then obtain us vs where xs: "xs = us @ x # vs" by (meson split_list)
  then have "remove1 x xs = us @ vs" using r by (auto simp: ring_def remove1_append)
  then show "\<exists>h'. list_del x h = Some h' \<and> ring h' l (remove1 x xs) \<and> (\<lambda>a. a \<in> dom h') = (\<lambda>a. a \<in> dom h)"
    using ring_del [of h l us x vs] r xs by (auto simp: frame_def)
qed (rule ring_find_entry)

subsection \<open>Properties\<close>

text \<open>A list with the head 1 and two nodes, and a node that is in no list.\<close>

definition sample_heap :: lheap where
  "sample_heap = [1 \<mapsto> \<lparr>lnext = 2, lprev = 3\<rparr>, 2 \<mapsto> \<lparr>lnext = 3, lprev = 1\<rparr>, 3 \<mapsto> \<lparr>lnext = 1, lprev = 2\<rparr>, 4 \<mapsto> \<lparr>lnext = 0, lprev = 0\<rparr>]"

lemma sample_ring: "ring sample_heap 1 [2, 3]" "4 \<in> dom sample_heap"
  by (auto simp: ring_def sample_heap_def get_next_def get_prev_def)

text \<open>C28: The operations of the intrusive list do what their names say, on every list and at every position:
  adding at the head or the tail, deleting, deleting and reinitialising, moving to the front or to the back,
  replacing and rotating are all defined and give the list with that change, in which both directions
  are linked correctly.\<close>

theorem list_operations_correct:
  assumes "ring h head (xs @ e # ys)" "x \<in> dom h" "x \<notin> insert head (set (xs @ e # ys))"
  shows "(\<exists>h'. list_add x head h = Some h' \<and> ring h' head (x # xs @ e # ys)) \<and>
     (\<exists>h'. list_add_tail x head h = Some h' \<and> ring h' head (xs @ e # ys @ [x])) \<and>
     (\<exists>h'. list_del e h = Some h' \<and> ring h' head (xs @ ys)) \<and>
     (\<exists>h'. list_del_init e h = Some h' \<and> ring h' head (xs @ ys) \<and> ring h' e []) \<and>
     (\<exists>h'. list_move e head h = Some h' \<and> ring h' head (e # xs @ ys)) \<and>
     (\<exists>h'. list_move_tail e head h = Some h' \<and> ring h' head (xs @ ys @ [e])) \<and>
     (\<exists>h'. list_replace e x h = Some h' \<and> ring h' head (xs @ x # ys)) \<and>
     (\<exists>h'. list_rotate_left head h = Some h' \<and> ring h' head (rotate1 (xs @ e # ys)))"
  using ring_list_add [OF assms] ring_list_add_tail [OF assms] ring_del [OF assms(1)] ring_del_init [OF assms(1)]
    ring_move_same [OF assms(1)] ring_replace(1) [OF assms] ring_rotate [OF assms(1)]
  by (intro conjI) (simp, blast)+

lemma list_operations_correct_witness:
  "\<exists>h'. list_del 3 sample_heap = Some h' \<and> ring h' 1 [2]"
  using list_operations_correct [of sample_heap 1 "[2]" 3 "[]" 4] sample_ring by simp

text \<open>The loops of the \<open>list_for_each\<close> macros end and visit every node exactly once, forwards or
  backwards; the search that breaks at a match finds the first one, and the safe loop may delete the node
  it is at: it removes exactly the nodes that match.\<close>

theorem list_loops_complete:
  assumes "ring h head xs"
  shows "(\<exists>n. get_next h head = Some n \<and> list_for_each h head n = Some xs) \<and>
     (\<exists>p. get_prev h head = Some p \<and> list_for_each_prev h head p = Some (rev xs)) \<and>
     list_find_entry (\<lambda>a. Some (P a)) h head = Some (find P xs) \<and>
     (\<exists>h'. list_remove_if P head h = Some h' \<and> ring h' head (filter (\<lambda>a. \<not> P a) xs))"
proof -
  have "get_next h head = Some (hd (xs @ [head]))" "get_prev h head = Some (last (head # xs))"
    using ring_ends(1) [of h head "[]" xs] ring_ends(2) [of h head xs "[]"] assms by simp_all
  then show ?thesis using ring_for_each [OF assms] ring_find_entry [OF assms, of "\<lambda>a. Some (P a)" P] ring_remove_if [OF assms] by blast
qed

lemma list_loops_complete_witness:
  "\<exists>h'. list_remove_if (\<lambda>a. a = 2) 1 sample_heap = Some h' \<and> ring h' 1 [3]"
  using list_loops_complete [OF sample_ring(1), of "\<lambda>a. a = 2"] by simp

end
