(* ===== verification/List_Loops.thy ===== *)
theory List_Loops
  imports List_Head
begin

text \<open>
  The other macros of \<open>base-utils.h\<close>: the entries at given places, and the loops that run backwards safely or
  start in the middle of a list. As in \<open>List_Head\<close> the list node is the first member of its entry, so
  \<open>container_of\<close> gives the address of the node.
\<close>

subsection \<open>Entries\<close>

definition list_entry :: "addr \<Rightarrow> addr" where
  \<comment> \<open>\<open>container_of\<close> with the offset 0\<close>
  "list_entry ptr = ptr"

definition list_first_entry :: "addr \<Rightarrow> lheap \<Rightarrow> addr option" where
  "list_first_entry head h = map_option list_entry (get_next h head)"

definition list_next_entry :: "addr \<Rightarrow> lheap \<Rightarrow> addr option" where
  "list_next_entry pos h = map_option list_entry (get_next h pos)"

definition list_prev_entry :: "addr \<Rightarrow> lheap \<Rightarrow> addr option" where
  "list_prev_entry pos h = map_option list_entry (get_prev h pos)"

text \<open>\<open>None\<close>: \<open>pos\<close> is NULL.\<close>

definition list_prepare_entry :: "addr option \<Rightarrow> addr \<Rightarrow> addr" where
  "list_prepare_entry pos head = (case pos of Some p \<Rightarrow> p | None \<Rightarrow> list_entry head)"

definition list_safe_reset_next :: "addr \<Rightarrow> lheap \<Rightarrow> addr option" where
  \<comment> \<open>the new value of \<open>n\<close>\<close>
  "list_safe_reset_next pos h = list_next_entry pos h"

subsection \<open>Loops from a node of the list\<close>

definition list_for_each_entry_continue :: "lheap \<Rightarrow> addr \<Rightarrow> addr \<Rightarrow> addr list option" where
  "list_for_each_entry_continue h head pos = do { p \<leftarrow> list_next_entry pos h; list_for_each h head p }"

definition list_for_each_entry_continue_reverse :: "lheap \<Rightarrow> addr \<Rightarrow> addr \<Rightarrow> addr list option" where
  "list_for_each_entry_continue_reverse h head pos = do { p \<leftarrow> list_prev_entry pos h; list_for_each_prev h head p }"

definition list_for_each_entry_from :: "lheap \<Rightarrow> addr \<Rightarrow> addr \<Rightarrow> addr list option" where
  "list_for_each_entry_from h head pos = list_for_each h head pos"

definition list_for_each_entry_safe_continue :: "(addr \<Rightarrow> lheap \<Rightarrow> lheap option) \<Rightarrow> addr \<Rightarrow> addr \<Rightarrow> lheap \<Rightarrow> lheap option" where
  "list_for_each_entry_safe_continue body head pos h =
     do { p \<leftarrow> list_next_entry pos h; n \<leftarrow> list_next_entry p h; list_for_each_safe body head p n h }"

definition list_for_each_entry_safe_from :: "(addr \<Rightarrow> lheap \<Rightarrow> lheap option) \<Rightarrow> addr \<Rightarrow> addr \<Rightarrow> lheap \<Rightarrow> lheap option" where
  "list_for_each_entry_safe_from body head pos h =
     do { n \<leftarrow> list_next_entry pos h; list_for_each_safe body head pos n h }"

subsection \<open>Backwards, with a body that may change the list\<close>

partial_function (option) list_for_each_prev_safe ::
    "(addr \<Rightarrow> lheap \<Rightarrow> lheap option) \<Rightarrow> addr \<Rightarrow> addr \<Rightarrow> addr \<Rightarrow> lheap \<Rightarrow> lheap option" where
  "list_for_each_prev_safe body head pos n h =
     (if pos = head then Some h
      else do { h1 \<leftarrow> body pos h; n1 \<leftarrow> get_prev h1 n; list_for_each_prev_safe body head n n1 h1 })"

definition list_for_each_entry_safe_reverse :: "(addr \<Rightarrow> lheap \<Rightarrow> lheap option) \<Rightarrow> addr \<Rightarrow> lheap \<Rightarrow> lheap option" where
  "list_for_each_entry_safe_reverse body head h =
     do { p \<leftarrow> list_prev_entry head h; n \<leftarrow> list_prev_entry p h; list_for_each_prev_safe body head p n h }"

text \<open>The bodies of the examples: \<open>if (P(pos)) list_del(pos)\<close>.\<close>

definition del_if :: "(addr \<Rightarrow> bool) \<Rightarrow> addr \<Rightarrow> lheap \<Rightarrow> lheap option" where
  "del_if P a h = (if P a then list_del a h else Some h)"

subsection \<open>What the loops do\<close>

lemma del_if_ring:
  assumes "ring h head (xs @ y # ys)"
  shows "\<exists>h1. del_if P y h = Some h1 \<and> ring h1 head (xs @ (if P y then [] else [y]) @ ys)"
  using ring_del [OF assms] assms by (auto simp: del_if_def)

lemma remove_back_loop:
  assumes "ring h head (ys @ ds)" "ys \<noteq> [] \<Longrightarrow> n = last (head # butlast ys)"
  shows "\<exists>h'. list_for_each_prev_safe (del_if P) head (last (head # ys)) n h = Some h' \<and> ring h' head (filter (\<lambda>a. \<not> P a) ys @ ds)"
  using assms
proof (induction ys arbitrary: ds h n rule: rev_induct)
  case Nil
  then show ?case by (simp add: list_for_each_prev_safe.simps)
next
  case (snoc y ys)
  have y: "y \<noteq> head" using snoc.prems(1) by (auto simp: ring_def)
  have n: "n = last (head # ys)" using snoc.prems(2) by simp
  obtain h1 where h1: "del_if P y h = Some h1" "ring h1 head (ys @ (if P y then [] else [y]) @ ds)"
    using del_if_ring [of h head ys y ds P] snoc.prems(1) by auto
  obtain n1 where n1: "get_prev h1 n = Some n1" "ys \<noteq> [] \<Longrightarrow> n1 = last (head # butlast ys)"
  proof (cases ys rule: rev_cases)
    case Nil
    then show thesis using that n ring_dom [OF h1(2)] by (auto simp: get_prev_def)
  next
    case (snoc zs z)
    then show thesis using that n ring_ends(2) [of h1 head zs "z # (if P y then [] else [y]) @ ds"] h1(2) by auto
  qed
  obtain h' where "list_for_each_prev_safe (del_if P) head (last (head # ys)) n1 h1 = Some h'"
    "ring h' head (filter (\<lambda>a. \<not> P a) ys @ (if P y then [] else [y]) @ ds)" using snoc.IH [OF h1(2) n1(2)] by blast
  then show ?case using y n n1(1) h1(1) by (subst list_for_each_prev_safe.simps) auto
qed

lemma ring_suffix:
  assumes "ring h head (us @ vs)"
  shows "list_for_each h head (hd (vs @ [head])) = Some vs" "list_for_each_prev h head (last (head # us)) = Some (rev us)"
proof -
  have c: "chain h (head # us @ vs @ [head])" "head \<notin> set us" "head \<notin> set vs" using assms by (auto simp: ring_def)
  have "chain h (vs @ [head])"
    using c(1) chain_append [of h "head # us" "hd (vs @ [head])" "tl (vs @ [head])"] by simp
  then show "list_for_each h head (hd (vs @ [head])) = Some vs" using for_each_chain c(3) by blast
  define bs l where "bs = butlast (head # us)" and "l = last (head # us)"
  have e: "bs @ [l] = head # us" by (simp add: bs_def l_def)
  then have "bs @ l # (vs @ [head]) = head # us @ vs @ [head]" by (metis append.assoc append_Cons append_Nil)
  then have "chain h (bs @ l # (vs @ [head]))" using c(1) by metis
  then have "chain h (head # us)" using chain_append [of h bs l "vs @ [head]"] e by metis
  then show "list_for_each_prev h head (last (head # us)) = Some (rev us)" using for_each_prev_chain c(2) by blast
qed

lemma ring_around:
  assumes "ring h head (us @ p # vs)"
  shows "list_next_entry p h = Some (hd (vs @ [head]))" "list_prev_entry p h = Some (last (head # us))"
  using ring_ends(1) [of h head "us @ [p]" vs] ring_ends(2) [of h head us "p # vs"] assms
  by (simp_all add: list_next_entry_def list_prev_entry_def list_entry_def)

lemma del_if_body: "del_if P = (\<lambda>a h. if P a then list_del a h else Some h)"
  by (simp add: del_if_def fun_eq_iff)

lemma ring_safe_suffix:
  assumes "ring h head (us @ vs)"
  shows "\<exists>n h'. list_next_entry (hd (vs @ [head])) h = Some n \<and> list_for_each_safe (del_if P) head (hd (vs @ [head])) n h = Some h' \<and>
     ring h' head (us @ filter (\<lambda>a. \<not> P a) vs)"
proof (cases vs)
  case Nil
  have "list_next_entry head h = Some (hd (us @ [head]))"
    using ring_ends(1) [of h head "[]" us] assms Nil by (simp add: list_next_entry_def list_entry_def)
  then show ?thesis using remove_if_loop [of h head us "[]" _ P] assms Nil by (auto simp: del_if_body)
next
  case (Cons p ws)
  have r: "ring h head (us @ p # ws)" using assms Cons by simp
  show ?thesis
    using ring_around(1) [OF r] remove_if_loop [of h head us vs "hd (ws @ [head])" P] assms Cons by (simp add: del_if_body)
qed

lemma ring_safe_reverse:
  assumes "ring h head xs"
  shows "\<exists>h'. list_for_each_entry_safe_reverse (del_if P) head h = Some h' \<and> ring h' head (filter (\<lambda>a. \<not> P a) xs)"
proof -
  have l: "list_prev_entry head h = Some (last (head # xs))"
    using ring_ends(2) [of h head xs "[]"] assms by (simp add: list_prev_entry_def list_entry_def)
  obtain n where n: "list_prev_entry (last (head # xs)) h = Some n" "xs \<noteq> [] \<Longrightarrow> n = last (head # butlast xs)"
  proof (cases xs rule: rev_cases)
    case Nil
    then show thesis using that l by simp
  next
    case (snoc ys y)
    then show thesis using that ring_around(2) [of h head ys y "[]"] assms by simp
  qed
  show ?thesis using remove_back_loop [of h head xs "[]" n P] n l assms by (simp add: list_for_each_entry_safe_reverse_def)
qed

text \<open>C34: The loops of the list macros end and see exactly the nodes they should, from the head or from any node of
  the list: onwards with the node or behind it, backwards from it, and over the whole list in both
  directions; the search that breaks at a match finds the first one; the safe loops may delete the node they are at, and then remove exactly
  the nodes that match, in both directions and from the middle; a node that is inserted behind the cursor is seen
  after \<open>list_safe_reset_next\<close>.\<close>

theorem list_macros_complete:
  assumes "ring h head (us @ p # vs)"
  shows "(\<exists>n. list_first_entry head h = Some n \<and> list_for_each h head n = Some (us @ p # vs)) \<and>
     (\<exists>n. list_prev_entry head h = Some n \<and> list_for_each_prev h head n = Some (rev vs @ p # rev us)) \<and>
     list_for_each_entry_from h head p = Some (p # vs) \<and>
     list_for_each_entry_continue h head p = Some vs \<and>
     list_for_each_entry_continue_reverse h head p = Some (rev us) \<and>
     list_for_each_entry_continue h head (list_prepare_entry None head) = Some (us @ p # vs) \<and>
     list_find_entry (\<lambda>a. Some (P a)) h head = Some (find P (us @ p # vs)) \<and>
     (\<exists>h'. list_remove_if P head h = Some h' \<and> ring h' head (filter (\<lambda>a. \<not> P a) (us @ p # vs))) \<and>
     (\<exists>h'. list_for_each_entry_safe_from (del_if P) head p h = Some h' \<and> ring h' head (us @ filter (\<lambda>a. \<not> P a) (p # vs))) \<and>
     (\<exists>h'. list_for_each_entry_safe_continue (del_if P) head p h = Some h' \<and> ring h' head (us @ p # filter (\<lambda>a. \<not> P a) vs)) \<and>
     (\<exists>h'. list_for_each_entry_safe_reverse (del_if P) head h = Some h' \<and> ring h' head (filter (\<lambda>a. \<not> P a) (us @ p # vs))) \<and>
     (\<forall>x\<in>dom h. x \<notin> insert head (set (us @ p # vs)) \<longrightarrow>
        (\<exists>h'. list_add x p h = Some h' \<and> list_safe_reset_next p h' = Some x \<and> ring h' head (us @ p # x # vs)))"
proof (intro conjI)
  note nxt = ring_around [OF assms]
  have f: "list_first_entry head h = Some (hd ((us @ p # vs) @ [head]))" "list_prev_entry head h = Some (last (head # us @ p # vs))"
    using ring_ends(1) [of h head "[]" "us @ p # vs"] ring_ends(2) [of h head "us @ p # vs" "[]"] assms
    by (simp_all add: list_first_entry_def list_prev_entry_def list_entry_def)
  show "\<exists>n. list_first_entry head h = Some n \<and> list_for_each h head n = Some (us @ p # vs)"
    using f(1) ring_suffix(1) [of h head "[]" "us @ p # vs"] assms by simp
  show "list_for_each_entry_continue h head (list_prepare_entry None head) = Some (us @ p # vs)"
    using f(1) ring_suffix(1) [of h head "[]" "us @ p # vs"] assms
    by (simp add: list_for_each_entry_continue_def list_prepare_entry_def list_entry_def list_next_entry_def list_first_entry_def)
  show "\<exists>n. list_prev_entry head h = Some n \<and> list_for_each_prev h head n = Some (rev vs @ p # rev us)"
    using f(2) ring_suffix(2) [of h head "us @ p # vs" "[]"] assms by simp
  show "list_for_each_entry_from h head p = Some (p # vs)"
    using ring_suffix(1) [of h head us "p # vs"] assms by (simp add: list_for_each_entry_from_def)
  show "list_for_each_entry_continue h head p = Some vs"
    using nxt(1) ring_suffix(1) [of h head "us @ [p]" vs] assms by (simp add: list_for_each_entry_continue_def)
  show "list_for_each_entry_continue_reverse h head p = Some (rev us)"
    using nxt(2) ring_suffix(2) [of h head us "p # vs"] assms by (simp add: list_for_each_entry_continue_reverse_def)
  show "list_find_entry (\<lambda>a. Some (P a)) h head = Some (find P (us @ p # vs))" using ring_find_entry [OF assms, of "\<lambda>a. Some (P a)" P] by simp
  show "\<exists>h'. list_remove_if P head h = Some h' \<and> ring h' head (filter (\<lambda>a. \<not> P a) (us @ p # vs))" by (rule ring_remove_if [OF assms])
  show "\<exists>h'. list_for_each_entry_safe_from (del_if P) head p h = Some h' \<and> ring h' head (us @ filter (\<lambda>a. \<not> P a) (p # vs))"
    using ring_safe_suffix [of h head us "p # vs" P] assms by (auto simp: list_for_each_entry_safe_from_def)
  show "\<exists>h'. list_for_each_entry_safe_continue (del_if P) head p h = Some h' \<and> ring h' head (us @ p # filter (\<lambda>a. \<not> P a) vs)"
    using ring_safe_suffix [of h head "us @ [p]" vs P] assms nxt(1) by (auto simp: list_for_each_entry_safe_continue_def)
  show "\<exists>h'. list_for_each_entry_safe_reverse (del_if P) head h = Some h' \<and> ring h' head (filter (\<lambda>a. \<not> P a) (us @ p # vs))"
    by (rule ring_safe_reverse [OF assms])
  show "\<forall>x\<in>dom h. x \<notin> insert head (set (us @ p # vs)) \<longrightarrow>
      (\<exists>h'. list_add x p h = Some h' \<and> list_safe_reset_next p h' = Some x \<and> ring h' head (us @ p # x # vs))"
  proof (intro ballI impI)
    fix x assume x: "x \<in> dom h" "x \<notin> insert head (set (us @ p # vs))"
    obtain h' where h': "list_add_between x p (hd (vs @ [head])) h = Some h'" "ring h' head (us @ p # x # vs)"
      using ring_add [of h head "us @ [p]" vs x] assms x by auto
    then show "\<exists>h'. list_add x p h = Some h' \<and> list_safe_reset_next p h' = Some x \<and> ring h' head (us @ p # x # vs)"
      using nxt(1) ring_around(1) [OF h'(2)] by (auto simp: list_add_def list_safe_reset_next_def list_next_entry_def list_entry_def)
  qed
qed

lemma list_macros_complete_witness:
  "list_for_each_entry_continue_reverse sample_heap 1 3 = Some [2] \<and>
   (\<exists>h'. list_for_each_entry_safe_reverse (del_if (\<lambda>a. a = 2)) 1 sample_heap = Some h' \<and> ring h' 1 [3])"
  using list_macros_complete [of sample_heap 1 "[2]" 3 "[]" "\<lambda>a. a = 2"] sample_ring(1) by simp

end
