(* ===== verification/Reply_Table.thy ===== *)
theory Reply_Table
  imports List_Head "HOL-Library.AList"
begin

text \<open>
  The table of outstanding requests of \<open>leda.c\<close>, from \<open>_ws_get_msg_id\<close> to \<open>_ws_get_reply_result\<close>: an
  intrusive list of heap blocks, one per request, with the semaphore its sender waits on. Touching a
  block that was freed is undefined (\<open>None\<close>). \<open>holds_table s t\<close> relates the heap to the list \<open>t\<close> of its
  entries, newest first, and every operation is shown to act on \<open>t\<close>; the places where two threads
  share a block without the lock are steps of their own.
\<close>

subsection \<open>The state\<close>

record ws_msg_reply =
  reply_id :: int
  reply_code :: int
  reply_payload :: "string option"
  reply_sem :: nat

text \<open>The list node is the first member of an entry, so both have the same address.
  \<open>malloc\<close> returns addresses that were never used before.\<close>

record reply_state =
  nodes :: lheap
  replies :: "addr \<rightharpoonup> ws_msg_reply"
  brk :: addr

definition g_ws_msg_reply_list :: addr where
  "g_ws_msg_reply_list = 0"

definition no_replies :: reply_state where
  "no_replies = \<lparr>nodes = [g_ws_msg_reply_list \<mapsto> \<lparr>lnext = g_ws_msg_reply_list, lprev = g_ws_msg_reply_list\<rparr>],
     replies = Map.empty, brk = 1\<rparr>"

subsection \<open>Message ids\<close>

text \<open>\<open>_ws_get_msg_id\<close>: the counter is incremented under the lock, but it is read again, for the result,
  after the unlock. The two halves are separate steps of a thread.\<close>

definition msg_id_inc :: "32 word \<Rightarrow> 32 word" where
  "msg_id_inc g_msg_id = g_msg_id + 1"

definition msg_id_read :: "32 word \<Rightarrow> 32 word" where
  "msg_id_read g_msg_id = g_msg_id"

definition ws_get_msg_id :: "32 word \<Rightarrow> 32 word \<times> 32 word" where
  \<comment> \<open>\<open>_ws_get_msg_id\<close> without interference: the result and the counter\<close>
  "ws_get_msg_id g = (msg_id_read (msg_id_inc g), msg_id_inc g)"

datatype id_step = Inc | Read nat

text \<open>The ids that the threads get, in the order of their reads.\<close>

fun run_ids :: "id_step list \<Rightarrow> 32 word \<Rightarrow> (nat \<times> 32 word) list" where
  "run_ids [] g = []"
| "run_ids (Inc # ss) g = run_ids ss (msg_id_inc g)"
| "run_ids (Read i # ss) g = (i, msg_id_read g) # run_ids ss g"

subsection \<open>Operations\<close>

definition ws_get_reply_by_msg_id :: "int \<Rightarrow> reply_state \<Rightarrow> addr option option" where
  \<comment> \<open>\<open>Some None\<close>: NULL\<close>
  "ws_get_reply_by_msg_id msg_id s =
     list_find_entry (\<lambda>a. map_option (\<lambda>r. reply_id r = msg_id) (replies s a)) (nodes s) g_ws_msg_reply_list"

definition ws_insert_reply :: "bool \<Rightarrow> int \<Rightarrow> reply_state \<Rightarrow> mem \<Rightarrow> (int \<times> reply_state \<times> mem) option" where
  \<comment> \<open>\<open>sem_ok\<close>: \<open>sem_init\<close> succeeds\<close>
  "ws_insert_reply sem_ok msg_id s m =
     (let (ok, m1) = malloc m in
      if \<not> ok then Some (LE_ERROR_ALLOCATING_MEM, s, m1)
      else if \<not> sem_ok then Some (LE_ERROR_UNKNOWN, s, c_free 1 m1)
      else
        (let a = brk s;
             r = \<lparr>reply_id = msg_id, reply_code = LE_ERROR_UNKNOWN, reply_payload = None, reply_sem = 0\<rparr>;
             h = (nodes s)(a \<mapsto> \<lparr>lnext = 0, lprev = 0\<rparr>) in
         do { h' \<leftarrow> list_add a g_ws_msg_reply_list h;
              Some (LE_SUCCESS, \<lparr>nodes = h', replies = (replies s)(a \<mapsto> r), brk = a + 1\<rparr>, m1) }))"

text \<open>The part of \<open>_ws_remove_reply\<close> under the lock, with the pointer found before.\<close>

definition free_reply :: "addr \<Rightarrow> reply_state \<Rightarrow> mem \<Rightarrow> (reply_state \<times> mem) option" where
  "free_reply a s m =
     do { r \<leftarrow> replies s a;
          let m1 = (if reply_payload r \<noteq> None then c_free 1 m else m);
          h' \<leftarrow> list_del a (nodes s);
          Some (s\<lparr>nodes := h'(a := None), replies := (replies s)(a := None)\<rparr>, c_free 1 m1) }"

definition ws_remove_reply :: "int \<Rightarrow> reply_state \<Rightarrow> mem \<Rightarrow> (reply_state \<times> mem) option" where
  "ws_remove_reply msg_id s m =
     do { p \<leftarrow> ws_get_reply_by_msg_id msg_id s;
          case p of None \<Rightarrow> Some (s, m) | Some a \<Rightarrow> free_reply a s m }"

text \<open>The part of \<open>_ws_set_reply_result\<close> under the lock, with the pointer found before.\<close>

definition write_reply :: "addr \<Rightarrow> int \<Rightarrow> string option \<Rightarrow> reply_state \<Rightarrow> mem \<Rightarrow> (reply_state \<times> mem) option" where
  "write_reply a code payload s m =
     do { r \<leftarrow> replies s a;
          let (pl, m1) = (case payload of None \<Rightarrow> (reply_payload r, m)
                          | Some t \<Rightarrow> (let (ok, m1) = malloc m in (if ok then Some t else None, m1)));
          Some (s\<lparr>replies := (replies s)(a \<mapsto> r\<lparr>reply_code := code, reply_payload := pl\<rparr>)\<rparr>, m1) }"

text \<open>\<open>sem_post\<close>, behind the unlock.\<close>

definition post_reply :: "addr \<Rightarrow> reply_state \<Rightarrow> reply_state option" where
  "post_reply a s = do { r \<leftarrow> replies s a; Some (s\<lparr>replies := (replies s)(a \<mapsto> r\<lparr>reply_sem := reply_sem r + 1\<rparr>)\<rparr>) }"

definition ws_set_reply_result :: "int \<Rightarrow> int \<Rightarrow> string option \<Rightarrow> reply_state \<Rightarrow> mem \<Rightarrow> (int \<times> reply_state \<times> mem) option" where
  "ws_set_reply_result msg_id code payload s m =
     do { p \<leftarrow> ws_get_reply_by_msg_id msg_id s;
          case p of None \<Rightarrow> Some (LE_ERROR_UNKNOWN, s, m)
          | Some a \<Rightarrow> do { (s1, m1) \<leftarrow> write_reply a code payload s m; s2 \<leftarrow> post_reply a s1; Some (LE_SUCCESS, s2, m1) } }"

text \<open>The remainder of C takes the sign of the dividend.\<close>

definition c_rem :: "int \<Rightarrow> int \<Rightarrow> int" where
  "c_rem a b = sgn a * (\<bar>a\<bar> mod \<bar>b\<bar>)"

text \<open>The deadline: \<open>timeout_ms % 1000\<close> times 1000000000, an \<open>int\<close>, is added to the nanoseconds.\<close>

definition deadline_nsec :: "int \<Rightarrow> int \<Rightarrow> int option" where
  "deadline_nsec now_nsec timeout_ms =
     (let d = c_rem timeout_ms 1000 * 1000000000 in if int_range d then Some (now_nsec + d) else None)"

text \<open>
  \<open>sem_timedwait\<close> in its loop: it returns at once when the semaphore was posted; otherwise it fails for a
  number of nanoseconds that is none, and waits. \<open>others\<close> is what the other threads do until the
  semaphore is posted; \<open>None\<close> when the deadline comes first.
\<close>

definition sem_timedwait ::
    "(reply_state \<Rightarrow> mem \<Rightarrow> (reply_state \<times> mem) option) \<Rightarrow> addr \<Rightarrow> int \<Rightarrow> reply_state \<Rightarrow> mem \<Rightarrow> (bool \<times> reply_state \<times> mem) option" where
  "sem_timedwait others a nsec s m =
     do { r \<leftarrow> replies s a;
          if 0 < reply_sem r then Some (True, s\<lparr>replies := (replies s)(a \<mapsto> r\<lparr>reply_sem := reply_sem r - 1\<rparr>)\<rparr>, m)
          else if nsec < 0 \<or> 1000000000 \<le> nsec then Some (False, s, m)
          else (case others s m of
                  None \<Rightarrow> Some (False, s, m)
                | Some (s1, m1) \<Rightarrow>
                    do { r1 \<leftarrow> replies s1 a;
                         if 0 < reply_sem r1
                         then Some (True, s1\<lparr>replies := (replies s1)(a \<mapsto> r1\<lparr>reply_sem := reply_sem r1 - 1\<rparr>)\<rparr>, m1)
                         else Some (False, s1, m1) }) }"

definition ws_get_reply_result ::
    "(reply_state \<Rightarrow> mem \<Rightarrow> (reply_state \<times> mem) option) \<Rightarrow> int option \<Rightarrow> int \<Rightarrow> int \<Rightarrow> bool \<Rightarrow> reply_state \<Rightarrow> mem \<Rightarrow>
     (int \<times> int option \<times> string option \<times> reply_state \<times> mem) option" where
  \<comment> \<open>\<open>clock\<close>: the nanoseconds of the time, \<open>None\<close> when \<open>clock_gettime\<close> fails; \<open>want\<close>: the caller asks for
     the payload; result: return value, \<open>*code\<close> when it was written, \<open>*payload\<close>\<close>
  "ws_get_reply_result others clock msg_id timeout_ms want s m =
     do { p \<leftarrow> ws_get_reply_by_msg_id msg_id s;
          case p of None \<Rightarrow> Some (LE_ERROR_INVAILD_PARAM, None, None, s, m)
          | Some a \<Rightarrow>
              (case clock of
                 None \<Rightarrow> do { (s', m') \<leftarrow> ws_remove_reply msg_id s m; Some (LE_ERROR_UNKNOWN, None, None, s', m') }
               | Some now \<Rightarrow>
                   do { nsec \<leftarrow> deadline_nsec now timeout_ms;
                        (woken, s1, m1) \<leftarrow> sem_timedwait others a nsec s m;
                        if \<not> woken
                        then do { (s', m') \<leftarrow> ws_remove_reply msg_id s1 m1; Some (LE_ERROR_TIMEOUT, None, None, s', m') }
                        else
                          do { r \<leftarrow> replies s1 a;
                               (pl, m2) \<leftarrow> (if \<not> want then Some (None, m1)
                                            else (case reply_payload r of
                                                    None \<Rightarrow> None
                                                  | Some t \<Rightarrow> (let (ok, m2) = malloc m1 in Some (if ok then Some t else None, m2))));
                               (s', m') \<leftarrow> ws_remove_reply msg_id s1 m2;
                               Some (LE_SUCCESS, Some (reply_code r), pl, s', m') } }) }"

subsection \<open>The table\<close>

definition holds_table :: "reply_state \<Rightarrow> (addr \<times> ws_msg_reply) list \<Rightarrow> bool" where
  "holds_table s t \<longleftrightarrow>
     ring (nodes s) g_ws_msg_reply_list (map fst t) \<and> dom (nodes s) = insert g_ws_msg_reply_list (fst ` set t) \<and>
     replies s = map_of t \<and> (\<forall>a\<in>insert g_ws_msg_reply_list (fst ` set t). a < brk s)"

definition entry_of :: "int \<Rightarrow> (addr \<times> ws_msg_reply) list \<Rightarrow> (addr \<times> ws_msg_reply) option" where
  "entry_of msg_id t = find (\<lambda>e. reply_id (snd e) = msg_id) t"

definition new_reply :: "int \<Rightarrow> ws_msg_reply" where
  "new_reply msg_id = \<lparr>reply_id = msg_id, reply_code = LE_ERROR_UNKNOWN, reply_payload = None, reply_sem = 0\<rparr>"

definition reply_blocks :: "ws_msg_reply \<Rightarrow> int" where
  "reply_blocks r = (if reply_payload r = None then 1 else 2)"

lemma holds_no_replies: "holds_table no_replies []"
  by (auto simp: holds_table_def no_replies_def g_ws_msg_reply_list_def ring_def get_next_def get_prev_def)

lemma entry_of_in: "entry_of i t = Some (a, r) \<Longrightarrow> (a, r) \<in> set t \<and> reply_id r = i"
  by (induction t) (auto simp: entry_of_def split: if_splits)

lemma holds_distinct: "holds_table s t \<Longrightarrow> distinct (map fst t)"
  by (simp add: holds_table_def ring_def)

lemma holds_lookup: "holds_table s t \<Longrightarrow> (a, r) \<in> set t \<Longrightarrow> replies s a = Some r"
  using holds_distinct [of s t] by (simp add: holds_table_def)

lemma find_map_fst:
  "distinct (map fst t) \<Longrightarrow> find (\<lambda>a. P (the (map_of t a))) (map fst t) = map_option fst (find (\<lambda>e. P (snd e)) t)"
proof (induction t)
  case (Cons e t)
  have "find (\<lambda>a. P (the (map_of (e # t) a))) (map fst t) = find (\<lambda>a. P (the (map_of t a))) (map fst t)"
  proof (rule find_cong)
    fix x assume "x \<in> set (map fst t)"
    then have "x \<noteq> fst e" using Cons.prems by force
    then show "P (the (map_of (e # t) x)) = P (the (map_of t x))" by (cases e) simp
  qed simp
  then show ?case using Cons by (cases e) auto
qed simp

lemma get_reply_table:
  assumes "holds_table s t"
  shows "ws_get_reply_by_msg_id i s = Some (map_option fst (entry_of i t))"
proof -
  have r: "ring (nodes s) g_ws_msg_reply_list (map fst t)" "replies s = map_of t" using assms by (simp_all add: holds_table_def)
  have "\<forall>a\<in>set (map fst t). map_option (\<lambda>r. reply_id r = i) (replies s a) = Some (reply_id (the (replies s a)) = i)"
    using r(2) by (auto dest!: weak_map_of_SomeI)
  from lh.search_law [OF r(1) this] show ?thesis
    using find_map_fst [OF holds_distinct [OF assms], of "\<lambda>r. reply_id r = i"] r(2)
    by (simp add: ws_get_reply_by_msg_id_def entry_of_def)
qed

lemma insert_table:
  assumes "holds_table s t"
  shows "\<exists>rc s' m'. ws_insert_reply sem_ok i s m = Some (rc, s', m') \<and>
     (if rc = LE_SUCCESS then holds_table s' ((brk s, new_reply i) # t) \<and> live m' = live m + 1 else s' = s \<and> live m' = live m) \<and>
     reliable m' = reliable m \<and> (reliable m \<and> sem_ok \<longrightarrow> rc = LE_SUCCESS)"
proof (cases rule: malloc_split [of m])
  case (2 m1)
  then show ?thesis by (simp add: ws_insert_reply_def le_error_defs)
next
  case (1 m1)
  show ?thesis
  proof (cases sem_ok)
    case False
    then show ?thesis using 1 by (simp add: ws_insert_reply_def le_error_defs)
  next
    case True
    define a h where "a = brk s" and "h = (nodes s)(brk s \<mapsto> \<lparr>lnext = 0, lprev = 0\<rparr>)"
    have ring: "ring (nodes s) g_ws_msg_reply_list (map fst t)" "a \<notin> insert g_ws_msg_reply_list (set (map fst t))"
      "a \<notin> dom (nodes s)" using assms by (force simp: holds_table_def a_def)+
    have "ring h g_ws_msg_reply_list (map fst t)"
      using ring unfolding ring_def
      by (subst chain_cong [of _ h "nodes s"]) (auto simp: h_def a_def get_next_def get_prev_def butlast_append dest: in_set_butlastD)
    moreover have "a \<in> dom h" by (simp add: h_def a_def)
    ultimately obtain h' where h': "list_add a g_ws_msg_reply_list h = Some h'" "ring h' g_ws_msg_reply_list (a # map fst t)"
      "dom h' = dom h" using ring_list_add [of h g_ws_msg_reply_list "map fst t" a] ring(2) by (auto simp: frame_def)
    define s' where "s' = \<lparr>nodes = h', replies = (replies s)(a \<mapsto> new_reply i), brk = a + 1\<rparr>"
    have "ws_insert_reply sem_ok i s m = Some (LE_SUCCESS, s', m1)"
      using 1 True h'(1) by (simp add: ws_insert_reply_def s'_def new_reply_def a_def h_def Let_def)
    moreover have "holds_table s' ((brk s, new_reply i) # t)"
      using assms h'(2,3) by (auto simp: holds_table_def s'_def a_def h_def less_Suc_eq)
    ultimately show ?thesis using 1 by simp
  qed
qed

lemma free_table:
  assumes "holds_table s t" "(a, r) \<in> set t"
  shows "\<exists>s' m'. free_reply a s m = Some (s', m') \<and> holds_table s' (AList.delete a t) \<and> live m' = live m - reply_blocks r \<and>
     reliable m' = reliable m \<and> replies s' a = None"
proof -
  have ring: "ring (nodes s) g_ws_msg_reply_list (map fst t)" using assms(1) by (simp add: holds_table_def)
  have "a \<in> set (map fst t)" using assms(2) by force
  then obtain us vs where keys: "map fst t = us @ a # vs" by (meson split_list)
  from ring_del [of "nodes s" g_ws_msg_reply_list us a vs] ring keys obtain h' where
    h': "list_del a (nodes s) = Some h'" "ring h' g_ws_msg_reply_list (us @ vs)" "dom h' = dom (nodes s)"
    by (auto simp: frame_def)
  have nin: "a \<notin> insert g_ws_msg_reply_list (set (us @ vs))" using ring keys by (auto simp: ring_def)
  have del: "map fst (AList.delete a t) = us @ vs"
    using holds_distinct [OF assms(1)] keys nin by (simp add: delete_keys)
  define s' where "s' = s\<lparr>nodes := h'(a := None), replies := (replies s)(a := None)\<rparr>"
  have "ring (h'(a := None)) g_ws_msg_reply_list (us @ vs)"
    using h'(2) nin unfolding ring_def
    by (subst chain_cong [of _ "h'(a := None)" h']) (auto simp: get_next_def get_prev_def butlast_append dest: in_set_butlastD)
  moreover have "fst ` set (AList.delete a t) = set (us @ vs)" using del by (metis list.set_map)
  moreover have "fst ` set t = insert a (set (us @ vs))" using keys by (metis list.set_map Un_insert_right list.simps(15) set_append)
  ultimately have "holds_table s' (AList.delete a t)"
    using assms(1) h'(3) del nin by (auto simp: holds_table_def s'_def delete_conv')
  then show ?thesis
    using holds_lookup [OF assms] h'(1) by (auto simp: free_reply_def s'_def reply_blocks_def)
qed

lemma update_table:
  assumes "holds_table s t" "(a, r) \<in> set t"
  shows "holds_table (s\<lparr>replies := (replies s)(a \<mapsto> r')\<rparr>) (AList.update a r' t)"
proof -
  have "a \<in> fst ` set t" using assms(2) by force
  then have "map fst (AList.update a r' t) = map fst t" by (simp add: update_keys)
  moreover from this have "fst ` set (AList.update a r' t) = fst ` set t" by (metis list.set_map)
  ultimately show ?thesis using assms(1) by (simp add: holds_table_def update_conv')
qed

lemma remove_table:
  assumes "holds_table s t"
  shows "\<exists>s' m'. ws_remove_reply i s m = Some (s', m') \<and> reliable m' = reliable m \<and>
     (case entry_of i t of None \<Rightarrow> s' = s \<and> m' = m
      | Some (a, r) \<Rightarrow> holds_table s' (AList.delete a t) \<and> live m' = live m - reply_blocks r)"
proof (cases "entry_of i t")
  case None
  then show ?thesis using get_reply_table [OF assms, of i] by (simp add: ws_remove_reply_def)
next
  case (Some e)
  then obtain a r where e: "entry_of i t = Some (a, r)" by (cases e) auto
  then obtain s' m' where "free_reply a s m = Some (s', m')" "holds_table s' (AList.delete a t)"
    "live m' = live m - reply_blocks r" "reliable m' = reliable m"
    using free_table [OF assms] entry_of_in by blast
  then show ?thesis using get_reply_table [OF assms, of i] e by (simp add: ws_remove_reply_def)
qed

lemma write_table:
  assumes "holds_table s t" "(a, r) \<in> set t"
  shows "\<exists>s' pl m'. write_reply a code payload s m = Some (s', m') \<and>
     holds_table s' (AList.update a (r\<lparr>reply_code := code, reply_payload := pl\<rparr>) t) \<and> reliable m' = reliable m \<and>
     replies s' a = Some (r\<lparr>reply_code := code, reply_payload := pl\<rparr>) \<and>
     (case payload of None \<Rightarrow> pl = reply_payload r \<and> m' = m
      | Some p \<Rightarrow> (pl = Some p \<and> live m' = live m + 1 \<or> pl = None \<and> \<not> reliable m \<and> live m' = live m))"
proof (cases payload)
  case None
  then show ?thesis
    using holds_lookup [OF assms] update_table [OF assms, of "r\<lparr>reply_code := code\<rparr>"]
    by (intro exI [of _ "s\<lparr>replies := (replies s)(a \<mapsto> r\<lparr>reply_code := code\<rparr>)\<rparr>"] exI [of _ "reply_payload r"] exI [of _ m])
      (simp add: write_reply_def)
next
  case (Some p)
  define pl where "pl = (if fst (malloc m) then Some p else None)"
  show ?thesis
    by (rule exI [of _ "s\<lparr>replies := (replies s)(a \<mapsto> r\<lparr>reply_code := code, reply_payload := pl\<rparr>)\<rparr>"], rule exI [of _ pl],
        rule exI [of _ "snd (malloc m)"], cases rule: malloc_split [of m])
      (use holds_lookup [OF assms] update_table [OF assms] Some in \<open>simp_all add: write_reply_def pl_def Let_def\<close>)
qed

lemma set_result_table:
  assumes "holds_table s t"
  shows "\<exists>rc s' m'. ws_set_reply_result i code payload s m = Some (rc, s', m') \<and> reliable m' = reliable m \<and>
     (case entry_of i t of None \<Rightarrow> rc = LE_ERROR_UNKNOWN \<and> s' = s \<and> m' = m
      | Some (a, r) \<Rightarrow> rc = LE_SUCCESS \<and>
          (\<exists>pl. holds_table s' (AList.update a (r\<lparr>reply_code := code, reply_payload := pl, reply_sem := reply_sem r + 1\<rparr>) t) \<and>
             (case payload of None \<Rightarrow> pl = reply_payload r \<and> m' = m
              | Some p \<Rightarrow> (pl = Some p \<and> live m' = live m + 1 \<or> pl = None \<and> \<not> reliable m \<and> live m' = live m))))"
proof (cases "entry_of i t")
  case None
  then show ?thesis using get_reply_table [OF assms, of i] by (simp add: ws_set_reply_result_def)
next
  case (Some e)
  then obtain a r where e: "entry_of i t = Some (a, r)" by (cases e) auto
  then have ar: "(a, r) \<in> set t" using entry_of_in by blast
  obtain s1 pl m1 where w: "write_reply a code payload s m = Some (s1, m1)" "reliable m1 = reliable m"
    "holds_table s1 (AList.update a (r\<lparr>reply_code := code, reply_payload := pl\<rparr>) t)"
    "replies s1 a = Some (r\<lparr>reply_code := code, reply_payload := pl\<rparr>)"
    "case payload of None \<Rightarrow> pl = reply_payload r \<and> m1 = m
      | Some p \<Rightarrow> (pl = Some p \<and> live m1 = live m + 1 \<or> pl = None \<and> \<not> reliable m \<and> live m1 = live m)"
    using write_table [OF assms ar] by blast
  define r' where "r' = r\<lparr>reply_code := code, reply_payload := pl, reply_sem := reply_sem r + 1\<rparr>"
  define s2 where "s2 = s1\<lparr>replies := (replies s1)(a \<mapsto> r')\<rparr>"
  have "(a, r\<lparr>reply_code := code, reply_payload := pl\<rparr>) \<in> set (AList.update a (r\<lparr>reply_code := code, reply_payload := pl\<rparr>) t)"
    using w(3,4) by (metis holds_table_def map_of_SomeD)
  from update_table [OF w(3) this, of r'] have "holds_table s2 (AList.update a r' t)"
    using holds_distinct [OF assms] by (simp add: s2_def update_last)
  moreover have "post_reply a s1 = Some s2" using w(4) by (simp add: post_reply_def s2_def r'_def)
  ultimately show ?thesis
    using get_reply_table [OF assms, of i] e w(1,2,5) by (auto simp: ws_set_reply_result_def r'_def)
qed

text \<open>Taking the reply of the newest entry, once it was posted.\<close>

lemma take_posted:
  assumes "holds_table s ((a, r) # t)" "reply_id r = i" "0 < reply_sem r" "deadline_nsec now timeout_ms = Some nsec"
    and "want \<Longrightarrow> reply_payload r \<noteq> None" "reliable m"
  shows "\<exists>s' m'. ws_get_reply_result others (Some now) i timeout_ms want s m =
     Some (LE_SUCCESS, Some (reply_code r), if want then reply_payload r else None, s', m') \<and>
     holds_table s' t \<and> live m' = live m - reply_blocks r + (if want then 1 else 0)"
proof -
  define r1 where "r1 = r\<lparr>reply_sem := reply_sem r - 1\<rparr>"
  define s1 where "s1 = s\<lparr>replies := (replies s)(a \<mapsto> r1)\<rparr>"
  define m1 where "m1 = (if want then snd (malloc m) else m)"
  have look: "ws_get_reply_by_msg_id i s = Some (Some a)"
    using get_reply_table [OF assms(1), of i] assms(2) by (simp add: entry_of_def)
  have ra: "replies s a = Some r" using holds_lookup [OF assms(1), of a r] by simp
  have s1: "holds_table s1 ((a, r1) # t)" using update_table [OF assms(1), of a r r1] by (simp add: s1_def)
  have "entry_of i ((a, r1) # t) = Some (a, r1)" using assms(2) by (simp add: entry_of_def r1_def)
  then obtain s' m' where rm: "ws_remove_reply i s1 m1 = Some (s', m')" "holds_table s' (AList.delete a ((a, r1) # t))"
    "live m' = live m1 - reply_blocks r1" using remove_table [OF s1, of i m1] by auto
  have "a \<notin> fst ` set t" using holds_distinct [OF assms(1)] by simp
  then have "AList.delete a ((a, r1) # t) = t" by (simp add: delete_id)
  moreover have live1: "live m1 = live m + (if want then 1 else 0)" "want \<Longrightarrow> malloc m = (True, m1)" "\<not> want \<Longrightarrow> m1 = m"
    using assms(6) by (simp_all add: m1_def malloc_def reliable_def)
  moreover have r1: "reply_blocks r1 = reply_blocks r" "reply_payload r1 = reply_payload r" "reply_code r1 = reply_code r"
    by (simp_all add: reply_blocks_def r1_def)
  moreover have wait: "sem_timedwait others a nsec s m = Some (True, s1, m)"
    using ra assms(3) by (simp add: sem_timedwait_def s1_def r1_def)
  moreover have ra1: "replies s1 a = Some r1" by (simp add: s1_def)
  moreover have "ws_get_reply_result others (Some now) i timeout_ms want s m =
     Some (LE_SUCCESS, Some (reply_code r), if want then reply_payload r else None, s', m')"
  proof (cases want)
    case True
    then obtain pl where "reply_payload r = Some pl" using assms(5) by blast
    then show ?thesis
      using True look assms(4) wait ra1 r1(2,3) live1(2) [OF True] rm(1) by (simp add: ws_get_reply_result_def)
  next
    case False
    then show ?thesis
      using look assms(4) wait ra1 r1(2,3) live1(3) [OF False] rm(1) by (simp add: ws_get_reply_result_def)
  qed
  ultimately show ?thesis using rm(2,3) by auto
qed

text \<open>What an operation of the responder does to the table of a waiter.\<close>

definition responder :: "int \<Rightarrow> int \<Rightarrow> string option \<Rightarrow> reply_state \<Rightarrow> mem \<Rightarrow> (reply_state \<times> mem) option" where
  "responder i code payload s m = do { (_, s', m') \<leftarrow> ws_set_reply_result i code payload s m; Some (s', m') }"

lemma reply_first:
  assumes "holds_table s t" "reliable m" "deadline_nsec now timeout_ms = Some nsec"
  shows "\<exists>s1 m1 s2 m2 s3 m3. ws_insert_reply True i s m = Some (LE_SUCCESS, s1, m1) \<and>
     ws_set_reply_result i code (Some p) s1 m1 = Some (LE_SUCCESS, s2, m2) \<and>
     ws_get_reply_result others (Some now) i timeout_ms want s2 m2 = Some (LE_SUCCESS, Some code, if want then Some p else None, s3, m3) \<and>
     holds_table s3 t \<and> live m3 = live m + (if want then 1 else 0)"
proof -
  obtain s1 m1 where 1: "ws_insert_reply True i s m = Some (LE_SUCCESS, s1, m1)" "holds_table s1 ((brk s, new_reply i) # t)"
    "live m1 = live m + 1" "reliable m1"
    using insert_table [OF assms(1), of True i m] assms(2) by auto
  define r where "r = (new_reply i)\<lparr>reply_code := code, reply_payload := Some p, reply_sem := 1\<rparr>"
  have "entry_of i ((brk s, new_reply i) # t) = Some (brk s, new_reply i)" by (simp add: entry_of_def new_reply_def)
  then obtain s2 m2 where 2: "ws_set_reply_result i code (Some p) s1 m1 = Some (LE_SUCCESS, s2, m2)"
    "holds_table s2 ((brk s, r) # t)" "live m2 = live m1 + 1" "reliable m2"
    using set_result_table [OF 1(2), of i code "Some p" m1] 1(4) by (auto simp: r_def new_reply_def)
  have rr: "reply_id r = i" "0 < reply_sem r" "reply_payload r = Some p" "reply_code r = code" "reply_blocks r = 2"
    by (simp_all add: r_def new_reply_def reply_blocks_def)
  obtain s3 m3 where "ws_get_reply_result others (Some now) i timeout_ms want s2 m2 =
      Some (LE_SUCCESS, Some code, if want then Some p else None, s3, m3)" "holds_table s3 t"
    "live m3 = live m2 - 2 + (if want then 1 else 0)"
    using take_posted [OF 2(2) rr(1,2) assms(3) _ 2(4), of want others] rr by auto
  then show ?thesis using 1 2 by auto
qed

text \<open>A blocked waiter goes on from the state in which its semaphore was posted.\<close>

lemma wait_until_posted:
  assumes "holds_table s t" "entry_of i t = Some (a, r)" "reply_sem r = 0" "deadline_nsec now timeout_ms = Some nsec"
    and "0 \<le> nsec" "nsec < 1000000000" "others s m = Some (s2, m2)"
    and "holds_table s2 t2" "entry_of i t2 = Some (a, r2)" "0 < reply_sem r2"
  shows "ws_get_reply_result others (Some now) i timeout_ms want s m = ws_get_reply_result others (Some now) i timeout_ms want s2 m2"
proof -
  have "replies s a = Some r" "replies s2 a = Some r2"
    using holds_lookup [OF assms(1)] holds_lookup [OF assms(8)] entry_of_in assms(2,9) by blast+
  then have "sem_timedwait others a nsec s m = sem_timedwait others a nsec s2 m2"
    using assms(3,5-7,10) by (simp add: sem_timedwait_def)
  then show ?thesis
    using get_reply_table [OF assms(1), of i] get_reply_table [OF assms(8), of i] assms(2,4,9)
    by (simp add: ws_get_reply_result_def)
qed

lemma waiter_first:
  assumes "holds_table s t" "reliable m" "deadline_nsec now timeout_ms = Some nsec" "0 \<le> nsec" "nsec < 1000000000"
  shows "\<exists>s1 m1 s3 m3. ws_insert_reply True i s m = Some (LE_SUCCESS, s1, m1) \<and>
     ws_get_reply_result (responder i code (Some p)) (Some now) i timeout_ms want s1 m1 =
       Some (LE_SUCCESS, Some code, if want then Some p else None, s3, m3) \<and>
     holds_table s3 t \<and> live m3 = live m + (if want then 1 else 0)"
proof -
  obtain s1 m1 where 1: "ws_insert_reply True i s m = Some (LE_SUCCESS, s1, m1)" "holds_table s1 ((brk s, new_reply i) # t)"
    "live m1 = live m + 1" "reliable m1"
    using insert_table [OF assms(1), of True i m] assms(2) by auto
  define r where "r = (new_reply i)\<lparr>reply_code := code, reply_payload := Some p, reply_sem := 1\<rparr>"
  have e1: "entry_of i ((brk s, new_reply i) # t) = Some (brk s, new_reply i)" by (simp add: entry_of_def new_reply_def)
  then obtain s2 m2 where 2: "ws_set_reply_result i code (Some p) s1 m1 = Some (LE_SUCCESS, s2, m2)"
    "holds_table s2 ((brk s, r) # t)" "live m2 = live m1 + 1" "reliable m2"
    using set_result_table [OF 1(2), of i code "Some p" m1] 1(4) by (auto simp: r_def new_reply_def)
  have rr: "reply_id r = i" "0 < reply_sem r" "reply_payload r = Some p" "reply_code r = code" "reply_blocks r = 2"
    by (simp_all add: r_def new_reply_def reply_blocks_def)
  have "entry_of i ((brk s, r) # t) = Some (brk s, r)" using rr(1) by (simp add: entry_of_def)
  moreover have "responder i code (Some p) s1 m1 = Some (s2, m2)" using 2(1) by (simp add: responder_def)
  moreover have "reply_sem (new_reply i) = 0" by (simp add: new_reply_def)
  ultimately have "ws_get_reply_result (responder i code (Some p)) (Some now) i timeout_ms want s1 m1 =
      ws_get_reply_result (responder i code (Some p)) (Some now) i timeout_ms want s2 m2"
    using wait_until_posted [OF 1(2) e1 _ assms(3-5) _ 2(2)] rr(2) by blast
  moreover obtain s3 m3 where "ws_get_reply_result (responder i code (Some p)) (Some now) i timeout_ms want s2 m2 =
      Some (LE_SUCCESS, Some code, if want then Some p else None, s3, m3)" "holds_table s3 t"
    "live m3 = live m2 - 2 + (if want then 1 else 0)"
    using take_posted [OF 2(2) rr(1,2) assms(3) _ 2(4), of want "responder i code (Some p)"] rr by auto
  ultimately show ?thesis using 1 2(3) by auto
qed

lemma timeout_outcome:
  assumes "holds_table s t" "entry_of i t = Some (a, r)" "reply_sem r = 0" "deadline_nsec now timeout_ms = Some nsec"
    and "others s m = None \<or> nsec < 0 \<or> 1000000000 \<le> nsec"
  shows "\<exists>s' m'. ws_get_reply_result others (Some now) i timeout_ms want s m = Some (LE_ERROR_TIMEOUT, None, None, s', m') \<and>
     holds_table s' (AList.delete a t) \<and> live m' = live m - reply_blocks r"
proof -
  have "replies s a = Some r" using holds_lookup [OF assms(1)] entry_of_in assms(2) by blast
  then have "sem_timedwait others a nsec s m = Some (False, s, m)"
    using assms(3,5) by (auto simp: sem_timedwait_def)
  moreover obtain s' m' where "ws_remove_reply i s m = Some (s', m')" "holds_table s' (AList.delete a t)"
    "live m' = live m - reply_blocks r"
    using remove_table [OF assms(1), of i m] assms(2) by auto
  ultimately show ?thesis
    using get_reply_table [OF assms(1), of i] assms(2,4) by (simp add: ws_get_reply_result_def)
qed

subsection \<open>Properties\<close>

text \<open>C26: The reply table implements its specification, a list of entries: on every table, looking up finds the
  newest entry with the id, inserting puts a new entry in front or fails without a trace, removing takes
  that entry out and frees exactly its blocks, and setting a result stores code and payload in it and posts
  its semaphore; all of it is defined.\<close>

theorem reply_table_refines:
  assumes "holds_table s t"
  shows "ws_get_reply_by_msg_id i s = Some (map_option fst (entry_of i t)) \<and>
     (\<exists>rc s' m'. ws_insert_reply sem_ok i s m = Some (rc, s', m') \<and> (reliable m \<and> sem_ok \<longrightarrow> rc = LE_SUCCESS) \<and>
        (if rc = LE_SUCCESS then holds_table s' ((brk s, new_reply i) # t) \<and> live m' = live m + 1 else s' = s \<and> live m' = live m)) \<and>
     (\<exists>s' m'. ws_remove_reply i s m = Some (s', m') \<and>
        (case entry_of i t of None \<Rightarrow> s' = s \<and> m' = m
         | Some (a, r) \<Rightarrow> holds_table s' (AList.delete a t) \<and> live m' = live m - reply_blocks r)) \<and>
     (\<exists>rc s' m'. ws_set_reply_result i code (Some p) s m = Some (rc, s', m') \<and>
        (case entry_of i t of None \<Rightarrow> rc = LE_ERROR_UNKNOWN \<and> s' = s \<and> m' = m
         | Some (a, r) \<Rightarrow> rc = LE_SUCCESS \<and>
             (\<exists>pl. holds_table s' (AList.update a (r\<lparr>reply_code := code, reply_payload := pl, reply_sem := reply_sem r + 1\<rparr>) t) \<and>
                (pl = Some p \<and> live m' = live m + 1 \<or> pl = None \<and> \<not> reliable m \<and> live m' = live m))))"
proof (intro conjI)
  show "ws_get_reply_by_msg_id i s = Some (map_option fst (entry_of i t))" by (rule get_reply_table [OF assms])
  show "\<exists>rc s' m'. ws_insert_reply sem_ok i s m = Some (rc, s', m') \<and> (reliable m \<and> sem_ok \<longrightarrow> rc = LE_SUCCESS) \<and>
        (if rc = LE_SUCCESS then holds_table s' ((brk s, new_reply i) # t) \<and> live m' = live m + 1 else s' = s \<and> live m' = live m)"
    using insert_table [OF assms, of sem_ok i m] by blast
  show "\<exists>s' m'. ws_remove_reply i s m = Some (s', m') \<and>
        (case entry_of i t of None \<Rightarrow> s' = s \<and> m' = m
         | Some (a, r) \<Rightarrow> holds_table s' (AList.delete a t) \<and> live m' = live m - reply_blocks r)"
    using remove_table [OF assms, of i m] by blast
  show "\<exists>rc s' m'. ws_set_reply_result i code (Some p) s m = Some (rc, s', m') \<and>
        (case entry_of i t of None \<Rightarrow> rc = LE_ERROR_UNKNOWN \<and> s' = s \<and> m' = m
         | Some (a, r) \<Rightarrow> rc = LE_SUCCESS \<and>
             (\<exists>pl. holds_table s' (AList.update a (r\<lparr>reply_code := code, reply_payload := pl, reply_sem := reply_sem r + 1\<rparr>) t) \<and>
                (pl = Some p \<and> live m' = live m + 1 \<or> pl = None \<and> \<not> reliable m \<and> live m' = live m)))"
    using set_result_table [OF assms, of i code "Some p" m] by (simp only: option.case) blast
qed

lemma reply_table_refines_witness:
  "\<exists>s' m'. ws_insert_reply True 7 no_replies always = Some (LE_SUCCESS, s', m') \<and> holds_table s' [(1, new_reply 7)] \<and> live m' = 1"
proof -
  obtain rc s' m' where "ws_insert_reply True 7 no_replies always = Some (rc, s', m')" "reliable always \<and> True \<longrightarrow> rc = LE_SUCCESS"
    "if rc = LE_SUCCESS then holds_table s' [(brk no_replies, new_reply 7)] \<and> live m' = live always + 1
     else s' = no_replies \<and> live m' = live always"
    using reply_table_refines [OF holds_no_replies, of 7 True always] by blast
  moreover have "brk no_replies = 1" "live always = 0" by (simp_all add: no_replies_def always_def)
  ultimately show ?thesis by simp
qed

text \<open>A reply reaches its waiter: when a request is registered and its result is set, before the sender
  starts to wait or while it is blocked, \<open>_ws_get_reply_result\<close> returns the code and the payload of the
  reply, and the table is as it was before the request, with nothing leaked; whatever else is in the table.\<close>

theorem reply_reaches_waiter:
  assumes "holds_table s t" "reliable m" "deadline_nsec now timeout_ms = Some nsec" "0 \<le> nsec" "nsec < 1000000000"
  shows "(\<exists>s1 m1 s2 m2 s3 m3. ws_insert_reply True i s m = Some (LE_SUCCESS, s1, m1) \<and>
       ws_set_reply_result i code (Some p) s1 m1 = Some (LE_SUCCESS, s2, m2) \<and>
       ws_get_reply_result others (Some now) i timeout_ms want s2 m2 = Some (LE_SUCCESS, Some code, if want then Some p else None, s3, m3) \<and>
       holds_table s3 t \<and> live m3 = live m + (if want then 1 else 0)) \<and>
     (\<exists>s1 m1 s3 m3. ws_insert_reply True i s m = Some (LE_SUCCESS, s1, m1) \<and>
       ws_get_reply_result (responder i code (Some p)) (Some now) i timeout_ms want s1 m1 =
         Some (LE_SUCCESS, Some code, if want then Some p else None, s3, m3) \<and>
       holds_table s3 t \<and> live m3 = live m + (if want then 1 else 0))"
  using reply_first [OF assms(1-3)] waiter_first [OF assms] by blast

lemma reply_reaches_waiter_witness:
  "\<exists>s1 m1 s3 m3. ws_insert_reply True 7 no_replies always = Some (LE_SUCCESS, s1, m1) \<and>
     ws_get_reply_result (responder 7 0 (Some ''{}'')) (Some 5) 7 10000 True s1 m1 = Some (LE_SUCCESS, Some 0, Some ''{}'', s3, m3)"
proof -
  have "deadline_nsec 5 10000 = Some 5" by (simp add: deadline_nsec_def c_rem_def int_range_def)
  from reply_reaches_waiter [OF holds_no_replies reliable_always this, of 7 0 "''{}''" _ True] show ?thesis by fastforce
qed

text \<open>C37: The late reply: \<open>_ws_set_reply_result\<close> finds the entry under the lock but writes to it after it has
  given the lock up. When the sender times out in between, it frees the entry, and the write (and the
  \<open>sem_post\<close> after it) touches freed memory.\<close>

theorem late_reply_uses_freed_entry:
  assumes "holds_table s t" "entry_of i t = Some (a, r)" "reply_sem r = 0" "deadline_nsec now timeout_ms = Some nsec"
  shows "ws_get_reply_by_msg_id i s = Some (Some a) \<and>
     (\<exists>s' m'. ws_get_reply_result (\<lambda>_ _. None) (Some now) i timeout_ms want s m = Some (LE_ERROR_TIMEOUT, None, None, s', m') \<and>
        write_reply a code payload s' m' = None \<and> post_reply a s' = None)"
proof -
  obtain s' m' where r: "ws_get_reply_result (\<lambda>_ _. None) (Some now) i timeout_ms want s m = Some (LE_ERROR_TIMEOUT, None, None, s', m')"
    "holds_table s' (AList.delete a t)"
    using timeout_outcome [OF assms, of "\<lambda>_ _. None" m want] by auto
  have "replies s' a = None" using r(2) by (simp add: holds_table_def delete_conv')
  then show ?thesis using get_reply_table [OF assms(1), of i] assms(2) r(1) by (simp add: write_reply_def post_reply_def)
qed

definition one_request :: reply_state where
  "one_request = \<lparr>nodes = [0 \<mapsto> \<lparr>lnext = 1, lprev = 1\<rparr>, 1 \<mapsto> \<lparr>lnext = 0, lprev = 0\<rparr>],
     replies = [1 \<mapsto> new_reply 7], brk = 2\<rparr>"

lemma one_request_holds: "holds_table one_request [(1, new_reply 7)]"
  by (auto simp: holds_table_def one_request_def g_ws_msg_reply_list_def ring_def get_next_def get_prev_def)

lemma late_reply_uses_freed_entry_witness:
  "\<exists>s' m'. ws_get_reply_result (\<lambda>_ _. None) (Some 5) 7 10000 False one_request always = Some (LE_ERROR_TIMEOUT, None, None, s', m') \<and>
     write_reply 1 0 None s' m' = None"
proof -
  have "entry_of 7 [(1, new_reply 7)] = Some (1, new_reply 7)" "reply_sem (new_reply 7) = 0"
    "deadline_nsec 5 10000 = Some 5" by (simp_all add: entry_of_def new_reply_def deadline_nsec_def c_rem_def int_range_def)
  from conjunct2 [OF late_reply_uses_freed_entry [OF one_request_holds this, of False always 0 None]]
  show ?thesis by blast
qed

text \<open>A timeout that is no whole number of seconds is never waited for: the milliseconds are multiplied by
  1000000000 instead of 1000000, so the \<open>int\<close> overflows, or the number of nanoseconds is none and
  \<open>sem_timedwait\<close> fails at once; the request counts as timed out although a reply would have come.\<close>

theorem subsecond_timeout_never_waits:
  assumes "holds_table s t" "entry_of i t = Some (a, r)" "reply_sem r = 0" "0 < timeout_ms" "timeout_ms mod 1000 \<noteq> 0" "0 \<le> now"
  shows "(\<exists>s' m'. ws_get_reply_result others (Some now) i timeout_ms want s m = Some (LE_ERROR_TIMEOUT, None, None, s', m')) \<or>
     ws_get_reply_result others (Some now) i timeout_ms want s m = None"
proof (cases "deadline_nsec now timeout_ms")
  case None
  then show ?thesis using get_reply_table [OF assms(1), of i] assms(2) by (simp add: ws_get_reply_result_def)
next
  case (Some nsec)
  have "1 \<le> timeout_ms mod 1000" using assms(5) pos_mod_sign [of 1000 timeout_ms] by linarith
  then have "1000000000 \<le> nsec"
    using Some assms(4,6) by (simp add: deadline_nsec_def c_rem_def Let_def split: if_splits)
  then show ?thesis using timeout_outcome [OF assms(1-3) Some, of others m want] by blast
qed

lemma subsecond_timeout_never_waits_witness:
  "ws_get_reply_result (responder 7 0 None) (Some 5) 7 500 False one_request always = None \<or>
   (\<exists>s' m'. ws_get_reply_result (responder 7 0 None) (Some 5) 7 500 False one_request always = Some (LE_ERROR_TIMEOUT, None, None, s', m'))"
  using subsecond_timeout_never_waits [OF one_request_holds, of 7 1 "new_reply 7" 500 5 "responder 7 0 None" False always]
  by (simp add: entry_of_def new_reply_def) blast

text \<open>Two threads that increment before either reads get the same id.\<close>

lemma ids_may_collide: "run_ids [Inc, Inc, Read 1, Read 2] g = [(1, g + 2), (2, g + 2)]"
  by (simp add: msg_id_inc_def msg_id_read_def)

end
