(* ===== verification/Reply_Threads.thy ===== *)
theory Reply_Threads
  imports Reply_Table
begin

text \<open>
  The senders and the workers of \<open>leda.c\<close> on the table of outstanding requests, as threads that take
  one step at a time. A step is what a thread does under one hold of \<open>g_ws_msg_reply_lock\<close>, or one access to
  an entry outside the lock. A schedule says who moves next, so it stands for any interleaving; a step
  that touches a freed entry makes the whole run undefined (\<open>None\<close>).

  \<open>holds_map s E\<close> is a coarser view of the table than the list of entries: which entry stands for which id.
  Every step changes the map at one id only, so the invariant is a predicate of one request.
\<close>

subsection \<open>The threads\<close>

text \<open>
  A sender: \<open>leda_send_method\<close> from \<open>_ws_insert_reply\<close> on. \<open>Sent\<close>: registered, at the search of
  \<open>_ws_get_reply_result\<close>. \<open>Waits a\<close>: in \<open>sem_timedwait\<close> on the entry at \<open>a\<close>. \<open>Woken a\<close>: behind it, about to read
  the code. \<open>Removes rc c\<close>: at \<open>_ws_remove_reply\<close>, with the result decided. \<open>Frees rc c a\<close>: in it,
  behind its search.
\<close>

datatype sender_pc =
  Begins | Sent | Waits addr | Woken addr | Removes int "int option" | Frees int "int option" addr | Ends int "int option"

text \<open>
  A worker with the reply to one request: \<open>_ws_set_reply_result\<close>. \<open>Found a\<close>: behind its search. \<open>Wrote a\<close>: behind
  the unlock, at \<open>sem_post\<close>. \<open>Missed\<close>: there was no entry.
\<close>

datatype replier_pc = Starts | Found addr | Wrote addr | Posted | Missed

text \<open>The callers of \<open>_ws_get_reply_result\<close> pass NULL for the payload; the clock works (see \<open>give_up\<close>).\<close>

fun sender_step :: "bool \<Rightarrow> int \<Rightarrow> sender_pc \<Rightarrow> reply_state \<Rightarrow> mem \<Rightarrow> (sender_pc \<times> reply_state \<times> mem) option" where
  "sender_step sem_ok i Begins s m =
     do { (rc, s', m') \<leftarrow> ws_insert_reply sem_ok i s m;
          Some (if rc \<noteq> LE_SUCCESS then Ends rc None else Sent, s', m') }"
| "sender_step sem_ok i Sent s m =
     do { p \<leftarrow> ws_get_reply_by_msg_id i s;
          Some (case p of None \<Rightarrow> Ends LE_ERROR_INVAILD_PARAM None | Some a \<Rightarrow> Waits a, s, m) }"
| "sender_step sem_ok i (Waits a) s m =
     do { r \<leftarrow> replies s a;
          Some (if 0 < reply_sem r then (Woken a, s\<lparr>replies := (replies s)(a \<mapsto> r\<lparr>reply_sem := reply_sem r - 1\<rparr>)\<rparr>, m)
                else (Waits a, s, m)) }"
| "sender_step sem_ok i (Woken a) s m = do { r \<leftarrow> replies s a; Some (Removes LE_SUCCESS (Some (reply_code r)), s, m) }"
| "sender_step sem_ok i (Removes rc c) s m =
     do { p \<leftarrow> ws_get_reply_by_msg_id i s;
          Some (case p of None \<Rightarrow> Ends rc c | Some a \<Rightarrow> Frees rc c a, s, m) }"
| "sender_step sem_ok i (Frees rc c a) s m = do { (s', m') \<leftarrow> free_reply a s m; Some (Ends rc c, s', m') }"
| "sender_step sem_ok i (Ends rc c) s m = Some (Ends rc c, s, m)"

text \<open>
  A sender gives a request up: \<open>sem_timedwait\<close> times out, \<open>wsc_add_msg\<close> refuses the message, or the clock
  fails.
\<close>

fun give_up :: "int \<Rightarrow> sender_pc \<Rightarrow> reply_state \<Rightarrow> sender_pc option" where
  "give_up rc Sent s = Some (Removes rc None)"
| "give_up rc (Waits a) s = do { r \<leftarrow> replies s a; Some (if reply_sem r = 0 then Removes rc None else Waits a) }"
| "give_up rc pc s = Some pc"

fun replier_step :: "int \<Rightarrow> int \<Rightarrow> string option \<Rightarrow> replier_pc \<Rightarrow> reply_state \<Rightarrow> mem \<Rightarrow> (replier_pc \<times> reply_state \<times> mem) option" where
  "replier_step i code payload Starts s m =
     do { p \<leftarrow> ws_get_reply_by_msg_id i s; Some (case p of None \<Rightarrow> Missed | Some a \<Rightarrow> Found a, s, m) }"
| "replier_step i code payload (Found a) s m = do { (s', m') \<leftarrow> write_reply a code payload s m; Some (Wrote a, s', m') }"
| "replier_step i code payload (Wrote a) s m = do { s' \<leftarrow> post_reply a s; Some (Posted, s', m) }"
| "replier_step i code payload Posted s m = Some (Posted, s, m)"
| "replier_step i code payload Missed s m = Some (Missed, s, m)"

text \<open>Without interference the steps of a thread are the functions of the code.\<close>

lemma worker_alone:
  "ws_set_reply_result i code payload s m =
     do { (w1, s1, m1) \<leftarrow> replier_step i code payload Starts s m;
          (w2, s2, m2) \<leftarrow> replier_step i code payload w1 s1 m1;
          (w3, s3, m3) \<leftarrow> replier_step i code payload w2 s2 m2;
          Some (if w3 = Posted then LE_SUCCESS else LE_ERROR_UNKNOWN, s3, m3) }"
  by (simp add: ws_set_reply_result_def split: option.split Option.bind_split)

lemma remover_alone:
  "ws_remove_reply i s m =
     do { (p1, s1, m1) \<leftarrow> sender_step sem_ok i (Removes rc c) s m;
          (p2, s2, m2) \<leftarrow> sender_step sem_ok i p1 s1 m1; Some (s2, m2) }"
  by (auto simp: ws_remove_reply_def split: option.split Option.bind_split)

lemma waiter_alone:
  assumes "ws_get_reply_by_msg_id i s = Some (Some a)" "replies s a = Some r" "0 < reply_sem r"
    "deadline_nsec now timeout_ms \<noteq> None"
  shows "ws_get_reply_result others (Some now) i timeout_ms False s m =
     do { (p1, s1, m1) \<leftarrow> sender_step sem_ok i Sent s m;
          (p2, s2, m2) \<leftarrow> sender_step sem_ok i p1 s1 m1;
          (p3, s3, m3) \<leftarrow> sender_step sem_ok i p2 s2 m2;
          (p4, s4, m4) \<leftarrow> sender_step sem_ok i p3 s3 m3;
          (p5, s5, m5) \<leftarrow> sender_step sem_ok i p4 s4 m4;
          case p5 of Ends rc c \<Rightarrow> Some (rc, c, None, s5, m5) | _ \<Rightarrow> None }"
  using assms
  by (auto simp: ws_get_reply_result_def sem_timedwait_def ws_remove_reply_def split: option.split Option.bind_split)

subsection \<open>The system\<close>

text \<open>
  The requests have different ids, and the gateway replies to each of them at most once: one sender and one
  worker per id. \<open>ans i\<close> is the reply to request \<open>i\<close>, its code and its payload.
\<close>

record reply_sys =
  tab :: reply_state
  heap :: mem
  spc :: "int \<Rightarrow> sender_pc"
  wpc :: "int \<Rightarrow> replier_pc"

datatype move = Sender int | Worker int | Give_up int int

fun rt_move :: "bool \<Rightarrow> (int \<Rightarrow> int \<times> string option) \<Rightarrow> move \<Rightarrow> reply_sys \<Rightarrow> reply_sys option" where
  "rt_move sem_ok ans (Sender i) ss =
     do { (pc, s', m') \<leftarrow> sender_step sem_ok i (spc ss i) (tab ss) (heap ss);
          Some (ss\<lparr>tab := s', heap := m', spc := (spc ss)(i := pc)\<rparr>) }"
| "rt_move sem_ok ans (Worker i) ss =
     do { (pc, s', m') \<leftarrow> replier_step i (fst (ans i)) (snd (ans i)) (wpc ss i) (tab ss) (heap ss);
          Some (ss\<lparr>tab := s', heap := m', wpc := (wpc ss)(i := pc)\<rparr>) }"
| "rt_move sem_ok ans (Give_up i rc) ss =
     do { pc \<leftarrow> give_up rc (spc ss i) (tab ss); Some (ss\<lparr>spc := (spc ss)(i := pc)\<rparr>) }"

fun rt_run :: "bool \<Rightarrow> (int \<Rightarrow> int \<times> string option) \<Rightarrow> move list \<Rightarrow> reply_sys \<Rightarrow> reply_sys option" where
  "rt_run sem_ok ans [] ss = Some ss"
| "rt_run sem_ok ans (mv # mvs) ss = do { ss' \<leftarrow> rt_move sem_ok ans mv ss; rt_run sem_ok ans mvs ss' }"

definition rt_start :: "mem \<Rightarrow> reply_sys" where
  "rt_start m = \<lparr>tab = no_replies, heap = m, spc = (\<lambda>_. Begins), wpc = (\<lambda>_. Starts)\<rparr>"

definition patient :: "move list \<Rightarrow> bool" where
  \<comment> \<open>no request is given up\<close>
  "patient mvs \<longleftrightarrow> list_all (\<lambda>mv. case mv of Give_up _ _ \<Rightarrow> False | _ \<Rightarrow> True) mvs"

definition in_flight :: "sender_pc \<Rightarrow> bool" where
  "in_flight pc \<longleftrightarrow> (case pc of Begins \<Rightarrow> False | Ends _ _ \<Rightarrow> False | _ \<Rightarrow> True)"

subsection \<open>The table as a map from ids to entries\<close>

definition unique_ids :: "(addr \<times> ws_msg_reply) list \<Rightarrow> bool" where
  "unique_ids t \<longleftrightarrow> distinct (map (\<lambda>e. reply_id (snd e)) t)"

definition holds_map :: "reply_state \<Rightarrow> (int \<Rightarrow> (addr \<times> ws_msg_reply) option) \<Rightarrow> bool" where
  "holds_map s E \<longleftrightarrow> (\<exists>t. holds_table s t \<and> unique_ids t \<and> (\<forall>i. entry_of i t = E i))"

lemma entry_of_iff: "unique_ids t \<Longrightarrow> entry_of i t = Some (a, r) \<longleftrightarrow> (a, r) \<in> set t \<and> reply_id r = i"
  by (induction t) (force simp: entry_of_def unique_ids_def split: if_splits)+

lemma entry_of_None: "entry_of i t = None \<longleftrightarrow> i \<notin> (\<lambda>e. reply_id (snd e)) ` set t"
  by (induction t) (auto simp: entry_of_def)

lemma holds_map_get: "holds_map s E \<Longrightarrow> ws_get_reply_by_msg_id i s = Some (map_option fst (E i))"
  using get_reply_table by (force simp: holds_map_def)

lemma holds_map_lookup: "holds_map s E \<Longrightarrow> E i = Some (a, r) \<Longrightarrow> replies s a = Some r \<and> reply_id r = i"
  using holds_lookup entry_of_in by (metis holds_map_def)

lemma unique_ids_update:
  "unique_ids t \<Longrightarrow> distinct (map fst t) \<Longrightarrow> (a, r) \<in> set t \<Longrightarrow> reply_id r' = reply_id r \<Longrightarrow>
   unique_ids (AList.update a r' t) \<and> (\<forall>i. entry_of i (AList.update a r' t) = ((\<lambda>i. entry_of i t)(reply_id r \<mapsto> (a, r'))) i)"
proof (induction t)
  case (Cons e t)
  obtain b q where e: "e = (b, q)" by (cases e)
  show ?case
  proof (cases "b = a")
    case True
    then have "q = r" using Cons.prems e by (force simp: image_iff)
    then show ?thesis using True Cons.prems e by (auto simp: unique_ids_def entry_of_def)
  next
    case False
    then have ar: "(a, r) \<in> set t" using Cons.prems(3) e by auto
    then have "reply_id q \<noteq> reply_id r" using Cons.prems(1) e by (force simp: unique_ids_def image_iff)
    moreover have "a \<in> fst ` set t" using ar by force
    moreover have IH: "unique_ids (AList.update a r' t)"
      "\<forall>i. entry_of i (AList.update a r' t) = ((\<lambda>i. entry_of i t)(reply_id r \<mapsto> (a, r'))) i"
      using Cons.IH Cons.prems ar by (auto simp: unique_ids_def)
    moreover have "reply_id q \<notin> (\<lambda>e. reply_id (snd e)) ` set (AList.update a r' t)"
      using Cons.prems(1) e calculation(1) IH(2) entry_of_None [of "reply_id q" "AList.update a r' t"]
        entry_of_None [of "reply_id q" t] by (auto simp: unique_ids_def)
    ultimately show ?thesis using False e by (auto simp: unique_ids_def entry_of_def)
  qed
qed simp

lemma unique_ids_delete:
  "unique_ids t \<Longrightarrow> distinct (map fst t) \<Longrightarrow> (a, r) \<in> set t \<Longrightarrow>
   unique_ids (AList.delete a t) \<and> (\<forall>i. entry_of i (AList.delete a t) = ((\<lambda>i. entry_of i t)(reply_id r := None)) i)"
proof (induction t)
  case (Cons e t)
  obtain b q where e: "e = (b, q)" by (cases e)
  show ?case
  proof (cases "b = a")
    case True
    then have "q = r" using Cons.prems e by (force simp: image_iff)
    moreover have "AList.delete a t = t" using True Cons.prems(2) e by (simp add: delete_id)
    moreover have "entry_of (reply_id q) t = None" using Cons.prems(1) e by (auto simp: entry_of_None unique_ids_def)
    ultimately show ?thesis using True Cons.prems(1) e by (auto simp: unique_ids_def entry_of_def)
  next
    case False
    then have ar: "(a, r) \<in> set t" using Cons.prems(3) e by auto
    then have "reply_id q \<noteq> reply_id r" using Cons.prems(1) e by (force simp: unique_ids_def image_iff)
    moreover have "unique_ids (AList.delete a t)"
      "\<forall>i. entry_of i (AList.delete a t) = ((\<lambda>i. entry_of i t)(reply_id r := None)) i"
      using Cons.IH Cons.prems ar by (auto simp: unique_ids_def)
    moreover have "reply_id q \<notin> (\<lambda>e. reply_id (snd e)) ` set (AList.delete a t)"
      using Cons.prems(1) e by (auto simp: unique_ids_def AList.delete_eq)
    ultimately show ?thesis using False e by (auto simp: unique_ids_def entry_of_def)
  qed
qed simp

text \<open>What the operations do to the map.\<close>

lemma holds_map_start: "holds_map no_replies Map.empty"
  unfolding holds_map_def by (rule exI [of _ "[]"]) (simp add: holds_no_replies unique_ids_def entry_of_def)

lemma holds_map_insert:
  assumes "holds_map s E" "E i = None"
  shows "\<exists>rc s' m'. ws_insert_reply sem_ok i s m = Some (rc, s', m') \<and>
     (if rc = LE_SUCCESS then \<exists>a. holds_map s' (E(i \<mapsto> (a, new_reply i))) else s' = s)"
proof -
  obtain t where t: "holds_table s t" "unique_ids t" "\<forall>i. entry_of i t = E i" using assms(1) by (auto simp: holds_map_def)
  obtain rc s' m' where ins: "ws_insert_reply sem_ok i s m = Some (rc, s', m')"
    "if rc = LE_SUCCESS then holds_table s' ((brk s, new_reply i) # t) \<and> live m' = live m + 1 else s' = s \<and> live m' = live m"
    using insert_table [OF t(1), of sem_ok i m] by blast
  have "unique_ids ((brk s, new_reply i) # t)"
    using t assms(2) entry_of_None [of i t] by (simp add: unique_ids_def new_reply_def)
  moreover have "\<forall>j. entry_of j ((brk s, new_reply i) # t) = (E(i \<mapsto> (brk s, new_reply i))) j"
    using t(3) by (auto simp: entry_of_def new_reply_def)
  ultimately have "rc = LE_SUCCESS \<Longrightarrow> holds_map s' (E(i \<mapsto> (brk s, new_reply i)))"
    unfolding holds_map_def using ins(2) by (intro exI [of _ "(brk s, new_reply i) # t"]) simp
  then show ?thesis using ins by auto
qed

lemma holds_map_update:
  assumes "holds_map s E" "E i = Some (a, r)" "reply_id r' = i"
  shows "holds_map (s\<lparr>replies := (replies s)(a \<mapsto> r')\<rparr>) (E(i \<mapsto> (a, r')))"
proof -
  obtain t where t: "holds_table s t" "unique_ids t" "\<forall>i. entry_of i t = E i" using assms(1) by (auto simp: holds_map_def)
  have ar: "(a, r) \<in> set t" "reply_id r = i" using t(3) assms(2) entry_of_in by metis+
  show ?thesis
    unfolding holds_map_def
    using update_table [OF t(1) ar(1)] unique_ids_update [OF t(2) holds_distinct [OF t(1)] ar(1), of r'] t(3) ar(2) assms(3)
    by (intro exI [of _ "AList.update a r' t"]) simp
qed

lemma holds_map_free:
  assumes "holds_map s E" "E i = Some (a, r)"
  shows "\<exists>s' m'. free_reply a s m = Some (s', m') \<and> holds_map s' (E(i := None))"
proof -
  obtain t where t: "holds_table s t" "unique_ids t" "\<forall>i. entry_of i t = E i" using assms(1) by (auto simp: holds_map_def)
  have ar: "(a, r) \<in> set t" "reply_id r = i" using t(3) assms(2) entry_of_in by metis+
  obtain s' m' where "free_reply a s m = Some (s', m')" "holds_table s' (AList.delete a t)"
    using free_table [OF t(1) ar(1), of m] by blast
  moreover have "holds_map s' (E(i := None))"
    unfolding holds_map_def
    using calculation(2) unique_ids_delete [OF t(2) holds_distinct [OF t(1)] ar(1)] t(3) ar(2)
    by (intro exI [of _ "AList.delete a t"]) simp
  ultimately show ?thesis by blast
qed

lemma holds_map_write:
  assumes "holds_map s E" "E i = Some (a, r)"
  shows "\<exists>s' m' r'. write_reply a code payload s m = Some (s', m') \<and> holds_map s' (E(i \<mapsto> (a, r'))) \<and>
     reply_id r' = i \<and> reply_code r' = code \<and> reply_sem r' = reply_sem r"
proof -
  have r: "replies s a = Some r" "reply_id r = i" using holds_map_lookup [OF assms] by auto
  define pl m' where "pl = (case payload of None \<Rightarrow> reply_payload r | Some t \<Rightarrow> if fst (malloc m) then Some t else None)"
    and "m' = (case payload of None \<Rightarrow> m | Some t \<Rightarrow> snd (malloc m))"
  define r' where "r' = r\<lparr>reply_code := code, reply_payload := pl\<rparr>"
  have "write_reply a code payload s m = Some (s\<lparr>replies := (replies s)(a \<mapsto> r')\<rparr>, m')"
    using r(1) by (simp add: write_reply_def r'_def pl_def m'_def split: option.split prod.split)
  then show ?thesis using holds_map_update [OF assms, of r'] r(2) by (auto simp: r'_def)
qed

lemma holds_map_post:
  assumes "holds_map s E" "E i = Some (a, r)"
  shows "\<exists>s'. post_reply a s = Some s' \<and> holds_map s' (E(i \<mapsto> (a, r\<lparr>reply_sem := reply_sem r + 1\<rparr>)))"
  using holds_map_lookup [OF assms] holds_map_update [OF assms, of "r\<lparr>reply_sem := reply_sem r + 1\<rparr>"]
  by (simp add: post_reply_def)

subsection \<open>The invariant of a request\<close>

text \<open>The sender, the worker and the entry of one request; \<open>c\<close> is the code of its reply.\<close>

definition before_post :: "int \<Rightarrow> replier_pc \<Rightarrow> addr \<Rightarrow> ws_msg_reply \<Rightarrow> bool" where
  "before_post c w a r \<longleftrightarrow>
     w \<in> {Starts, Missed, Found a} \<and> reply_sem r = 0 \<or> w = Wrote a \<and> reply_sem r = 0 \<and> reply_code r = c \<or>
     w = Posted \<and> reply_sem r = 1 \<and> reply_code r = c"

definition request_ok :: "int \<Rightarrow> sender_pc \<Rightarrow> replier_pc \<Rightarrow> (addr \<times> ws_msg_reply) option \<Rightarrow> bool" where
  "request_ok c p w e \<longleftrightarrow>
     (case e of
        None \<Rightarrow> p = Begins \<and> w \<in> {Starts, Missed} \<or> (\<exists>rc. p = Ends rc None \<and> rc \<noteq> LE_SUCCESS) \<and> w \<in> {Starts, Missed} \<or>
          p = Ends LE_SUCCESS (Some c) \<and> w = Posted
      | Some (a, r) \<Rightarrow> p \<in> {Sent, Waits a} \<and> before_post c w a r \<or>
          p \<in> {Woken a, Removes LE_SUCCESS (Some c), Frees LE_SUCCESS (Some c) a} \<and> w = Posted \<and> reply_code r = c)"

definition requests_ok :: "(int \<Rightarrow> int \<times> string option) \<Rightarrow> reply_sys \<Rightarrow> bool" where
  "requests_ok ans ss \<longleftrightarrow>
     (\<exists>E. holds_map (tab ss) E \<and> (\<forall>i. request_ok (fst (ans i)) (spc ss i) (wpc ss i) (E i)))"

lemma request_ok_entry:
  "in_flight p \<Longrightarrow> request_ok c p w e \<Longrightarrow> \<exists>a r. e = Some (a, r)"
  by (auto simp: in_flight_def request_ok_def split: option.splits sender_pc.splits)

lemma sender_preserves:
  assumes E: "holds_map s E" and ok: "request_ok c p w (E i)"
  shows "\<exists>p' s' m' e. sender_step sem_ok i p s m = Some (p', s', m') \<and> holds_map s' (E(i := e)) \<and> request_ok c p' w e"
proof (cases p)
  case Begins
  then have "E i = None" "w \<in> {Starts, Missed}" using ok by (auto simp: request_ok_def split: option.splits)
  moreover obtain rc s' m' where "ws_insert_reply sem_ok i s m = Some (rc, s', m')"
    "if rc = LE_SUCCESS then \<exists>a. holds_map s' (E(i \<mapsto> (a, new_reply i))) else s' = s"
    using holds_map_insert [OF E calculation(1), of sem_ok m] by blast
  ultimately show ?thesis
    using Begins E by (cases "rc = LE_SUCCESS")
      (auto simp: request_ok_def before_post_def new_reply_def fun_upd_idem intro: exI [of _ "None"] exI [of _ "Some (_, _)"])
next
  case Sent
  then obtain a r where "E i = Some (a, r)" using request_ok_entry [OF _ ok] by (auto simp: in_flight_def)
  then show ?thesis
    using Sent E ok holds_map_get [OF E, of i] by (intro exI [of _ "Waits a"] exI [of _ s] exI [of _ m] exI [of _ "E i"])
      (auto simp: request_ok_def fun_upd_idem)
next
  case (Waits b)
  then obtain a r where Ei: "E i = Some (a, r)" using request_ok_entry [OF _ ok] by (auto simp: in_flight_def)
  then have a: "a = b" "before_post c w a r" using Waits ok by (auto simp: request_ok_def)
  have r: "replies s a = Some r" "reply_id r = i" using holds_map_lookup [OF E Ei] by auto
  show ?thesis
  proof (cases "0 < reply_sem r")
    case True
    then have "w = Posted" "reply_code r = c" using a(2) by (auto simp: before_post_def)
    then show ?thesis
      using True Waits a(1) r holds_map_update [OF E Ei, of "r\<lparr>reply_sem := reply_sem r - 1\<rparr>"]
      by (auto simp: request_ok_def intro!: exI [of _ "Some (a, r\<lparr>reply_sem := reply_sem r - 1\<rparr>)"])
  next
    case False
    then show ?thesis using Waits a(1) r E Ei ok
      by (intro exI [of _ p] exI [of _ s] exI [of _ m] exI [of _ "E i"]) (auto simp: fun_upd_idem)
  qed
next
  case (Woken b)
  then obtain a r where Ei: "E i = Some (a, r)" using request_ok_entry [OF _ ok] by (auto simp: in_flight_def)
  then have "a = b" "w = Posted" "reply_code r = c" using Woken ok by (auto simp: request_ok_def)
  then show ?thesis using Woken E Ei holds_map_lookup [OF E Ei]
    by (intro exI [of _ "Removes LE_SUCCESS (Some c)"] exI [of _ s] exI [of _ m] exI [of _ "E i"])
      (auto simp: fun_upd_idem request_ok_def)
next
  case (Removes rc d)
  then obtain a r where Ei: "E i = Some (a, r)" using request_ok_entry [OF _ ok] by (auto simp: in_flight_def)
  then show ?thesis using Removes ok E holds_map_get [OF E, of i]
    by (intro exI [of _ "Frees rc d a"] exI [of _ s] exI [of _ m] exI [of _ "E i"])
      (auto simp: fun_upd_idem request_ok_def)
next
  case (Frees rc d b)
  then obtain a r where Ei: "E i = Some (a, r)" using request_ok_entry [OF _ ok] by (auto simp: in_flight_def)
  then have "a = b" "w = Posted" "rc = LE_SUCCESS" "d = Some c" using Frees ok by (auto simp: request_ok_def)
  moreover obtain s' m' where "free_reply a s m = Some (s', m')" "holds_map s' (E(i := None))"
    using holds_map_free [OF E Ei, of m] by blast
  ultimately show ?thesis using Frees
    by (intro exI [of _ "Ends rc d"] exI [of _ s'] exI [of _ m'] exI [of _ None]) (auto simp: request_ok_def)
next
  case (Ends rc d)
  then show ?thesis using E ok
    by (intro exI [of _ p] exI [of _ s] exI [of _ m] exI [of _ "E i"]) (auto simp: fun_upd_idem)
qed

lemma worker_preserves:
  assumes E: "holds_map s E" and ok: "request_ok c p w (E i)"
  shows "\<exists>w' s' m' e. replier_step i c payload w s m = Some (w', s', m') \<and> holds_map s' (E(i := e)) \<and> request_ok c p w' e"
proof (cases w)
  case Starts
  then show ?thesis using E ok holds_map_get [OF E, of i]
    by (intro exI [of _ "case E i of None \<Rightarrow> Missed | Some e \<Rightarrow> Found (fst e)"] exI [of _ s] exI [of _ m] exI [of _ "E i"])
      (auto simp: request_ok_def before_post_def fun_upd_idem split: option.splits)
next
  case (Found b)
  then obtain a r where Ei: "E i = Some (a, r)" using ok by (auto simp: request_ok_def split: option.splits)
  then have "a = b" "p \<in> {Sent, Waits a}" "reply_sem r = 0" using Found ok by (auto simp: request_ok_def before_post_def)
  moreover obtain s' m' r' where "write_reply a c payload s m = Some (s', m')" "holds_map s' (E(i \<mapsto> (a, r')))"
    "reply_code r' = c" "reply_sem r' = reply_sem r" using holds_map_write [OF E Ei, of c payload m] by blast
  ultimately show ?thesis using Found
    by (intro exI [of _ "Wrote a"] exI [of _ s'] exI [of _ m'] exI [of _ "Some (a, r')"]) (auto simp: request_ok_def before_post_def)
next
  case (Wrote b)
  then obtain a r where Ei: "E i = Some (a, r)" using ok by (auto simp: request_ok_def split: option.splits)
  then have "a = b" "p \<in> {Sent, Waits a}" "reply_sem r = 0" "reply_code r = c"
    using Wrote ok by (auto simp: request_ok_def before_post_def)
  moreover obtain s' where "post_reply a s = Some s'" "holds_map s' (E(i \<mapsto> (a, r\<lparr>reply_sem := reply_sem r + 1\<rparr>)))"
    using holds_map_post [OF E Ei] by blast
  ultimately show ?thesis using Wrote
    by (intro exI [of _ Posted] exI [of _ s'] exI [of _ m] exI [of _ "Some (a, r\<lparr>reply_sem := reply_sem r + 1\<rparr>)"])
      (auto simp: request_ok_def before_post_def)
qed (use E ok in \<open>auto simp: fun_upd_idem intro!: exI [of _ "E i"]\<close>)

lemma move_preserves:
  assumes "requests_ok ans ss" "patient [mv]"
  shows "\<exists>ss'. rt_move sem_ok ans mv ss = Some ss' \<and> requests_ok ans ss'"
proof -
  obtain E where E: "holds_map (tab ss) E" "\<And>i. request_ok (fst (ans i)) (spc ss i) (wpc ss i) (E i)"
    using assms(1) by (auto simp: requests_ok_def)
  show ?thesis
  proof (cases mv)
    case (Sender i)
    obtain p s' m' e where "sender_step sem_ok i (spc ss i) (tab ss) (heap ss) = Some (p, s', m')"
      "holds_map s' (E(i := e))" "request_ok (fst (ans i)) p (wpc ss i) e"
      using sender_preserves [OF E(1) E(2) [of i]] by blast
    then show ?thesis using Sender E(2) by (auto simp: requests_ok_def intro!: exI [of _ "E(i := e)"])
  next
    case (Worker i)
    obtain w s' m' e where "replier_step i (fst (ans i)) (snd (ans i)) (wpc ss i) (tab ss) (heap ss) = Some (w, s', m')"
      "holds_map s' (E(i := e))" "request_ok (fst (ans i)) (spc ss i) w e"
      using worker_preserves [OF E(1) E(2) [of i]] by blast
    then show ?thesis using Worker E(2) by (auto simp: requests_ok_def intro!: exI [of _ "E(i := e)"])
  next
    case (Give_up i rc)
    then show ?thesis using assms(2) by (simp add: patient_def)
  qed
qed

lemma run_preserves:
  "requests_ok ans ss \<Longrightarrow> patient mvs \<Longrightarrow> \<exists>ss'. rt_run sem_ok ans mvs ss = Some ss' \<and> requests_ok ans ss'"
proof (induction mvs arbitrary: ss)
  case (Cons mv mvs)
  then have "patient [mv]" "patient mvs" by (simp_all add: patient_def)
  then show ?case using move_preserves [OF Cons.prems(1), of mv sem_ok] Cons.IH by fastforce
qed simp

lemma start_ok: "requests_ok ans (rt_start m)"
  unfolding requests_ok_def by (rule exI [of _ Map.empty]) (simp add: rt_start_def holds_map_start request_ok_def)
subsection \<open>Progress\<close>

text \<open>The steps that a sender has to go when the reply was posted, and a worker until it posts.\<close>

fun sender_left :: "sender_pc \<Rightarrow> nat" where
  "sender_left Sent = 5"
| "sender_left (Waits _) = 4"
| "sender_left (Woken _) = 3"
| "sender_left (Removes _ _) = 2"
| "sender_left (Frees _ _ _) = 1"
| "sender_left _ = 0"

fun worker_left :: "replier_pc \<Rightarrow> nat" where
  "worker_left Starts = 3"
| "worker_left (Found _) = 2"
| "worker_left (Wrote _) = 1"
| "worker_left _ = 0"

text \<open>The reply will be delivered: the worker has not come too early.\<close>

definition on_its_way :: "sender_pc \<Rightarrow> replier_pc \<Rightarrow> bool" where
  "on_its_way p w \<longleftrightarrow> w = Posted \<or> w \<noteq> Missed \<and> in_flight p"

lemma sender_advances:
  assumes "holds_map s E" "request_ok c p w (E i)" "on_its_way p w" "sender_step sem_ok i p s m = Some (p', s', m')"
  shows "on_its_way p' w \<and> (w = Posted \<longrightarrow> sender_left p' \<le> sender_left p - 1)"
proof (cases "E i")
  case None
  then show ?thesis using assms(2-4) by (auto simp: request_ok_def on_its_way_def in_flight_def)
next
  case (Some e)
  then obtain a r where Ei: "E i = Some (a, r)" by (cases e) auto
  have r: "replies s a = Some r" "ws_get_reply_by_msg_id i s = Some (Some a)"
    using holds_map_lookup [OF assms(1) Ei] holds_map_get [OF assms(1), of i] Ei by auto
  show ?thesis
    using assms(2-4) Ei r
    by (cases p) (auto simp: request_ok_def before_post_def on_its_way_def in_flight_def split: if_splits Option.bind_splits)
qed

lemma worker_advances:
  assumes "holds_map s E" "request_ok c p w (E i)" "on_its_way p w" "replier_step i c payload w s m = Some (w', s', m')"
  shows "on_its_way p w' \<and> worker_left w' \<le> worker_left w - 1"
proof (cases w)
  case Starts
  then have "in_flight p" using assms(3) by (simp add: on_its_way_def)
  then obtain a r where "E i = Some (a, r)" using request_ok_entry [OF _ assms(2)] by blast
  then have "w' = Found a" using assms(4) Starts holds_map_get [OF assms(1), of i] by auto
  then show ?thesis using Starts \<open>in_flight p\<close> by (simp add: on_its_way_def)
qed (use assms(3,4) in \<open>auto simp: on_its_way_def split: Option.bind_splits\<close>)

lemma move_advances:
  assumes "requests_ok ans ss" "patient [mv]" "on_its_way (spc ss i) (wpc ss i)" "rt_move sem_ok ans mv ss = Some ss'"
  shows "on_its_way (spc ss' i) (wpc ss' i) \<and>
     worker_left (wpc ss' i) \<le> worker_left (wpc ss i) - (if mv = Worker i then 1 else 0) \<and>
     (wpc ss i = Posted \<longrightarrow> wpc ss' i = Posted \<and> sender_left (spc ss' i) \<le> sender_left (spc ss i) - (if mv = Sender i then 1 else 0))"
proof -
  obtain E where E: "holds_map (tab ss) E" "request_ok (fst (ans i)) (spc ss i) (wpc ss i) (E i)"
    using assms(1) by (auto simp: requests_ok_def)
  show ?thesis
  proof (cases mv)
    case (Sender j)
    show ?thesis
    proof (cases "j = i")
      case True
      then obtain p s' m' where "sender_step sem_ok i (spc ss i) (tab ss) (heap ss) = Some (p, s', m')" "spc ss' = (spc ss)(i := p)"
        "wpc ss' = wpc ss" using Sender assms(4) by (auto split: Option.bind_splits)
      then show ?thesis using sender_advances [OF E assms(3)] Sender True by auto
    qed (use Sender assms(3,4) in \<open>auto split: Option.bind_splits\<close>)
  next
    case (Worker j)
    show ?thesis
    proof (cases "j = i")
      case True
      then obtain w s' m' where w: "replier_step i (fst (ans i)) (snd (ans i)) (wpc ss i) (tab ss) (heap ss) = Some (w, s', m')"
        "wpc ss' = (wpc ss)(i := w)" "spc ss' = spc ss" using Worker assms(4) by (auto split: Option.bind_splits)
      moreover have "wpc ss i = Posted \<Longrightarrow> w = Posted" using w(1) by simp
      ultimately show ?thesis using worker_advances [OF E assms(3) w(1)] Worker True by auto
    qed (use Worker assms(3,4) in \<open>auto split: Option.bind_splits\<close>)
  qed (use assms(2) in \<open>simp add: patient_def\<close>)
qed

lemma run_advances:
  assumes "requests_ok ans ss" "patient mvs" "on_its_way (spc ss i) (wpc ss i)" "rt_run sem_ok ans mvs ss = Some ss'"
  shows "requests_ok ans ss' \<and> on_its_way (spc ss' i) (wpc ss' i) \<and>
     worker_left (wpc ss' i) \<le> worker_left (wpc ss i) - count_list mvs (Worker i) \<and>
     (wpc ss i = Posted \<longrightarrow> wpc ss' i = Posted \<and> sender_left (spc ss' i) \<le> sender_left (spc ss i) - count_list mvs (Sender i))"
  using assms
proof (induction mvs arbitrary: ss)
  case (Cons mv mvs)
  then have p: "patient [mv]" "patient mvs" by (simp_all add: patient_def)
  obtain s1 where s1: "rt_move sem_ok ans mv ss = Some s1" "requests_ok ans s1" "rt_run sem_ok ans mvs s1 = Some ss'"
    using move_preserves [OF Cons.prems(1) p(1), of sem_ok] Cons.prems(4) by auto
  note step = move_advances [OF Cons.prems(1) p(1) Cons.prems(3) s1(1)]
  from Cons.IH [OF s1(2) p(2) _ s1(3)] step show ?case by (auto split: if_splits)
qed simp

lemma run_append: "rt_run sem_ok ans (xs @ ys) ss = do { s1 \<leftarrow> rt_run sem_ok ans xs ss; rt_run sem_ok ans ys s1 }"
  by (induction xs arbitrary: ss) (auto split: Option.bind_split)

subsection \<open>Properties\<close>





text \<open>Without patience the run may be undefined: the sender gives up between the search of the worker and its write.\<close>

lemma impatient_run_undefined:
  "rt_run True ans [Sender 7, Sender 7, Worker 7, Give_up 7 LE_ERROR_TIMEOUT, Sender 7, Sender 7, Worker 7] (rt_start always) = None"
proof -
  obtain s1 m1 where 1: "ws_insert_reply True 7 no_replies always = Some (LE_SUCCESS, s1, m1)"
    using insert_table [OF holds_no_replies, of True 7 always] by auto
  have "None = (None :: (addr \<times> ws_msg_reply) option)" by simp
  from holds_map_insert [OF holds_map_start this, where i = 7 and sem_ok = True and m = always]
  obtain a where 3: "holds_map s1 [7 \<mapsto> (a, new_reply 7)]" using 1 by auto
  have e: "ws_get_reply_by_msg_id 7 s1 = Some (Some a)" "replies s1 a = Some (new_reply 7)"
    using holds_map_get [OF 3, of 7] holds_map_lookup [OF 3, of 7 a "new_reply 7"] by simp_all
  obtain s2 m2 where 2: "free_reply a s1 m1 = Some (s2, m2)"
    using holds_map_free [OF 3, of 7 a "new_reply 7" m1] by auto
  then have "replies s2 a = None" by (auto simp: free_reply_def Let_def split: Option.bind_splits)
  then have "write_reply a code payload s2 m2 = None" for code payload by (simp add: write_reply_def)
  then show ?thesis using 1 e 2 by (simp add: rt_start_def new_reply_def)
qed
end
