(* ===== verification/CJSON_Edit.thy ===== *)
theory CJSON_Edit
  imports CJSON_Tree
begin

text \<open>
  Building and changing JSON trees (\<open>cJSON.c\<close> from \<open>create_reference\<close> to \<open>cJSON_Minify\<close>):
  adding, detaching, inserting and replacing items, arrays of numbers and strings, copies, and
  the in-place minifier. A function that changes a parent returns it; an item pointer into a
  parent is its index. Memory is threaded through, so that what leaks is visible in \<open>live\<close>.
\<close>

subsection \<open>Adding\<close>

definition create_reference :: "cJSON option \<Rightarrow> mem \<Rightarrow> cJSON option \<times> mem" where
  "create_reference it m =
     (case it of
        None \<Rightarrow> (None, m)
      | Some i \<Rightarrow>
          (case cJSON_New_Item m of
             (None, m') \<Rightarrow> (None, m')
           | (Some _, m') \<Rightarrow> (Some (set_type (ctype i OR cJSON_IsReference) (set_jstring None i)), m')))"

definition add_item_to_array :: "cJSON option \<Rightarrow> cJSON option \<Rightarrow> bool \<times> cJSON option" where
  \<comment> \<open>result: success, the array\<close>
  "add_item_to_array a it =
     (case (it, a) of
        (Some i, Some arr) \<Rightarrow> (True, Some (set_child (child arr @ [i]) arr))
      | _ \<Rightarrow> (False, a))"

definition cJSON_AddItemToArray :: "cJSON option \<Rightarrow> cJSON option \<Rightarrow> cJSON option" where
  "cJSON_AddItemToArray a it = snd (add_item_to_array a it)"

definition add_item_to_object ::
    "cJSON option \<Rightarrow> string option \<Rightarrow> cJSON option \<Rightarrow> bool \<Rightarrow> mem \<Rightarrow> bool \<times> cJSON option \<times> cJSON option \<times> mem" where
  \<comment> \<open>result: success, the object, the item, the memory\<close>
  "add_item_to_object obj str it constant_key m =
     (case (obj, str, it) of
        (Some ob, Some s, Some i) \<Rightarrow>
          (let (new_key, m1) = (if constant_key then (Some s, m) else cJSON_strdup (Some s) m) in
           if new_key = None then (False, obj, it, m1)
           else
             (let new_type = (if constant_key then ctype i OR cJSON_StringIsConst
                              else ctype i AND NOT cJSON_StringIsConst);
                  m2 = (if \<not> is_const i \<and> jstring i \<noteq> None then c_free 1 m1 else m1);
                  i' = set_type new_type (set_jstring new_key i);
                  (ok, obj') = add_item_to_array obj (Some i') in
              (ok, obj', Some i', m2)))
      | _ \<Rightarrow> (False, obj, it, m))"

definition cJSON_AddItemToObject :: "cJSON option \<Rightarrow> string option \<Rightarrow> cJSON option \<Rightarrow> mem \<Rightarrow> cJSON option \<times> mem" where
  "cJSON_AddItemToObject obj str it m =
     (let (ok, obj', it', m') = add_item_to_object obj str it False m in (obj', m'))"

definition cJSON_AddItemToObjectCS :: "cJSON option \<Rightarrow> string option \<Rightarrow> cJSON option \<Rightarrow> mem \<Rightarrow> cJSON option \<times> mem" where
  "cJSON_AddItemToObjectCS obj str it m =
     (let (ok, obj', it', m') = add_item_to_object obj str it True m in (obj', m'))"

definition cJSON_AddItemReferenceToArray :: "cJSON option \<Rightarrow> cJSON option \<Rightarrow> mem \<Rightarrow> cJSON option \<times> mem" where
  "cJSON_AddItemReferenceToArray a it m =
     (if a = None then (None, m)
      else (let (r, m') = create_reference it m in (snd (add_item_to_array a r), m')))"

definition cJSON_AddItemReferenceToObject ::
    "cJSON option \<Rightarrow> string option \<Rightarrow> cJSON option \<Rightarrow> mem \<Rightarrow> cJSON option \<times> mem" where
  "cJSON_AddItemReferenceToObject obj str it m =
     (if obj = None \<or> str = None then (obj, m)
      else
        (let (r, m1) = create_reference it m;
             (ok, obj', r', m2) = add_item_to_object obj str r False m1 in (obj', m2)))"

text \<open>The common body of \<open>cJSON_AddNullToObject\<close> ... \<open>cJSON_AddArrayToObject\<close>.\<close>

definition add_created ::
    "cJSON option \<Rightarrow> string option \<Rightarrow> cJSON option \<times> mem \<Rightarrow> cJSON option \<times> cJSON option \<times> mem" where
  \<comment> \<open>result: the added item or NULL, the object, the memory\<close>
  "add_created obj nm created =
     (let (it, m) = created; (ok, obj', it', m') = add_item_to_object obj nm it False m in
      if ok then (it', obj', m') else (None, obj', cJSON_Delete it' m'))"

definition cJSON_AddNullToObject :: "cJSON option \<Rightarrow> string option \<Rightarrow> mem \<Rightarrow> cJSON option \<times> cJSON option \<times> mem" where
  "cJSON_AddNullToObject obj nm m = add_created obj nm (cJSON_CreateNull m)"
definition cJSON_AddTrueToObject :: "cJSON option \<Rightarrow> string option \<Rightarrow> mem \<Rightarrow> cJSON option \<times> cJSON option \<times> mem" where
  "cJSON_AddTrueToObject obj nm m = add_created obj nm (cJSON_CreateTrue m)"
definition cJSON_AddFalseToObject :: "cJSON option \<Rightarrow> string option \<Rightarrow> mem \<Rightarrow> cJSON option \<times> cJSON option \<times> mem" where
  "cJSON_AddFalseToObject obj nm m = add_created obj nm (cJSON_CreateFalse m)"
definition cJSON_AddBoolToObject :: "cJSON option \<Rightarrow> string option \<Rightarrow> int \<Rightarrow> mem \<Rightarrow> cJSON option \<times> cJSON option \<times> mem" where
  "cJSON_AddBoolToObject obj nm b m = add_created obj nm (cJSON_CreateBool b m)"
definition cJSON_AddNumberToObject ::
    "cJSON option \<Rightarrow> string option \<Rightarrow> double \<Rightarrow> mem \<Rightarrow> (cJSON option \<times> cJSON option \<times> mem) option" where
  "cJSON_AddNumberToObject obj nm d m = do { c \<leftarrow> cJSON_CreateNumber d m; Some (add_created obj nm c) }"
definition cJSON_AddStringToObject ::
    "cJSON option \<Rightarrow> string option \<Rightarrow> string option \<Rightarrow> mem \<Rightarrow> cJSON option \<times> cJSON option \<times> mem" where
  "cJSON_AddStringToObject obj nm s m = add_created obj nm (cJSON_CreateString s m)"
definition cJSON_AddRawToObject ::
    "cJSON option \<Rightarrow> string option \<Rightarrow> string option \<Rightarrow> mem \<Rightarrow> cJSON option \<times> cJSON option \<times> mem" where
  "cJSON_AddRawToObject obj nm s m = add_created obj nm (cJSON_CreateRaw s m)"
definition cJSON_AddObjectToObject :: "cJSON option \<Rightarrow> string option \<Rightarrow> mem \<Rightarrow> cJSON option \<times> cJSON option \<times> mem" where
  "cJSON_AddObjectToObject obj nm m = add_created obj nm (cJSON_CreateObject m)"
definition cJSON_AddArrayToObject :: "cJSON option \<Rightarrow> string option \<Rightarrow> mem \<Rightarrow> cJSON option \<times> cJSON option \<times> mem" where
  "cJSON_AddArrayToObject obj nm m = add_created obj nm (cJSON_CreateArray m)"

subsection \<open>Detaching, inserting, replacing\<close>

text \<open>\<open>item\<close> is the index of the item among the children of \<open>parent\<close>, \<open>None\<close> for NULL.\<close>

definition cJSON_DetachItemViaPointer :: "cJSON option \<Rightarrow> nat option \<Rightarrow> cJSON option \<times> cJSON option" where
  \<comment> \<open>result: the item, the parent\<close>
  "cJSON_DetachItemViaPointer parent item =
     (case (parent, item) of
        (Some p, Some i) \<Rightarrow> (nth_item (child p) i, Some (set_child (take i (child p) @ drop (Suc i) (child p)) p))
      | _ \<Rightarrow> (None, parent))"

text \<open>The pointer \<open>get_array_item\<close> returns, as an index.\<close>

definition array_index :: "cJSON option \<Rightarrow> nat \<Rightarrow> nat option" where
  "array_index a i = (case get_array_item a i of None \<Rightarrow> None | Some _ \<Rightarrow> Some i)"

definition cJSON_DetachItemFromArray :: "cJSON option \<Rightarrow> int \<Rightarrow> cJSON option \<times> cJSON option" where
  "cJSON_DetachItemFromArray a which =
     (if which < 0 then (None, a) else cJSON_DetachItemViaPointer a (array_index a (nat which)))"

definition cJSON_DeleteItemFromArray :: "cJSON option \<Rightarrow> int \<Rightarrow> mem \<Rightarrow> cJSON option \<times> mem" where
  "cJSON_DeleteItemFromArray a which m =
     (let (it, a') = cJSON_DetachItemFromArray a which in (a', cJSON_Delete it m))"

definition detach_from_object :: "bool \<Rightarrow> cJSON option \<Rightarrow> string option \<Rightarrow> (cJSON option \<times> cJSON option) option" where
  "detach_from_object cs obj str =
     do { i \<leftarrow> get_object_index cs obj str; Some (cJSON_DetachItemViaPointer obj i) }"

definition cJSON_DetachItemFromObject :: "cJSON option \<Rightarrow> string option \<Rightarrow> (cJSON option \<times> cJSON option) option" where
  "cJSON_DetachItemFromObject = detach_from_object False"
definition cJSON_DetachItemFromObjectCaseSensitive ::
    "cJSON option \<Rightarrow> string option \<Rightarrow> (cJSON option \<times> cJSON option) option" where
  "cJSON_DetachItemFromObjectCaseSensitive = detach_from_object True"
definition cJSON_DeleteItemFromObject :: "cJSON option \<Rightarrow> string option \<Rightarrow> mem \<Rightarrow> (cJSON option \<times> mem) option" where
  "cJSON_DeleteItemFromObject obj str m =
     do { (it, obj') \<leftarrow> cJSON_DetachItemFromObject obj str; Some (obj', cJSON_Delete it m) }"
definition cJSON_DeleteItemFromObjectCaseSensitive ::
    "cJSON option \<Rightarrow> string option \<Rightarrow> mem \<Rightarrow> (cJSON option \<times> mem) option" where
  "cJSON_DeleteItemFromObjectCaseSensitive obj str m =
     do { (it, obj') \<leftarrow> cJSON_DetachItemFromObjectCaseSensitive obj str; Some (obj', cJSON_Delete it m) }"

text \<open>Inserting NULL in front of an existing item dereferences it.\<close>

definition cJSON_InsertItemInArray :: "cJSON option \<Rightarrow> int \<Rightarrow> cJSON option \<Rightarrow> cJSON option option" where
  "cJSON_InsertItemInArray a which newitem =
     (if which < 0 then Some a
      else
        (case (array_index a (nat which), a, newitem) of
           (None, _, _) \<Rightarrow> Some (snd (add_item_to_array a newitem))
         | (Some i, Some arr, Some n) \<Rightarrow> Some (Some (set_child (take i (child arr) @ n # drop i (child arr)) arr))
         | _ \<Rightarrow> None))"

definition cJSON_ReplaceItemViaPointer ::
    "cJSON option \<Rightarrow> nat option \<Rightarrow> cJSON option \<Rightarrow> bool \<Rightarrow> mem \<Rightarrow> bool \<times> cJSON option \<times> mem" where
  \<comment> \<open>\<open>same\<close>: the replacement is the item itself\<close>
  "cJSON_ReplaceItemViaPointer parent item replacement same m =
     (case (parent, replacement, item) of
        (Some p, Some r, Some i) \<Rightarrow>
          if same then (True, parent, m)
          else (True, Some (set_child ((child p)[i := r]) p), cJSON_Delete (nth_item (child p) i) m)
      | _ \<Rightarrow> (False, parent, m))"

definition cJSON_ReplaceItemInArray :: "cJSON option \<Rightarrow> int \<Rightarrow> cJSON option \<Rightarrow> mem \<Rightarrow> cJSON option \<times> mem" where
  "cJSON_ReplaceItemInArray a which newitem m =
     (if which < 0 then (a, m)
      else (let (ok, a', m') = cJSON_ReplaceItemViaPointer a (array_index a (nat which)) newitem False m in (a', m')))"

definition replace_item_in_object ::
    "cJSON option \<Rightarrow> string option \<Rightarrow> cJSON option \<Rightarrow> bool \<Rightarrow> mem \<Rightarrow> (bool \<times> cJSON option \<times> mem) option" where
  "replace_item_in_object obj str replacement cs m =
     (case (replacement, str) of
        (Some r, Some s) \<Rightarrow>
          (let m1 = (if \<not> is_const r \<and> jstring r \<noteq> None then c_free 1 m else m);
               (k, m2) = cJSON_strdup str m1;
               r' = set_type (ctype r AND NOT cJSON_StringIsConst) (set_jstring k r) in
           do { i \<leftarrow> get_object_index cs obj str;
                let (ok, obj', m3) = cJSON_ReplaceItemViaPointer obj i (Some r') False m2;
                Some (True, obj', m3) })
      | _ \<Rightarrow> Some (False, obj, m))"

definition cJSON_ReplaceItemInObject ::
    "cJSON option \<Rightarrow> string option \<Rightarrow> cJSON option \<Rightarrow> mem \<Rightarrow> (cJSON option \<times> mem) option" where
  "cJSON_ReplaceItemInObject obj str it m =
     do { (ok, obj', m') \<leftarrow> replace_item_in_object obj str it False m; Some (obj', m') }"
definition cJSON_ReplaceItemInObjectCaseSensitive ::
    "cJSON option \<Rightarrow> string option \<Rightarrow> cJSON option \<Rightarrow> mem \<Rightarrow> (cJSON option \<times> mem) option" where
  "cJSON_ReplaceItemInObjectCaseSensitive obj str it m =
     do { (ok, obj', m') \<leftarrow> replace_item_in_object obj str it True m; Some (obj', m') }"

subsection \<open>Arrays of numbers and strings\<close>

text \<open>The loop that creates the elements \<open>i\<close>, \<open>i + 1\<close>, ... (\<open>k\<close> left) and appends them.\<close>

fun fill_array ::
    "('a \<Rightarrow> mem \<Rightarrow> (cJSON option \<times> mem) option) \<Rightarrow> 'a list \<Rightarrow> nat \<Rightarrow> nat \<Rightarrow> cJSON \<Rightarrow> mem \<Rightarrow> (cJSON option \<times> mem) option" where
  "fill_array mk xs i 0 a m = Some (Some a, m)"
| "fill_array mk xs i (Suc k) a m =
     do { x \<leftarrow> rd xs i;
          (n, m1) \<leftarrow> mk x m;
          (case n of
             None \<Rightarrow> Some (None, cJSON_Delete (Some a) m1)
           | Some e \<Rightarrow> fill_array mk xs (Suc i) k (set_child (child a @ [e]) a) m1) }"

definition create_array ::
    "('a \<Rightarrow> mem \<Rightarrow> (cJSON option \<times> mem) option) \<Rightarrow> 'a list option \<Rightarrow> int \<Rightarrow> mem \<Rightarrow> (cJSON option \<times> mem) option" where
  "create_array mk xs cnt m =
     (case xs of
        None \<Rightarrow> Some (None, m)
      | Some ys \<Rightarrow>
          if cnt < 0 then Some (None, m)
          else (case cJSON_CreateArray m of
                  (None, m1) \<Rightarrow> Some (None, m1)
                | (Some a, m1) \<Rightarrow> fill_array mk ys 0 (nat cnt) a m1))"

definition cJSON_CreateIntArray :: "int list option \<Rightarrow> int \<Rightarrow> mem \<Rightarrow> (cJSON option \<times> mem) option" where
  "cJSON_CreateIntArray = create_array (\<lambda>n. cJSON_CreateNumber (double_of_int n))"
definition cJSON_CreateFloatArray :: "double list option \<Rightarrow> int \<Rightarrow> mem \<Rightarrow> (cJSON option \<times> mem) option" where
  \<comment> \<open>every \<open>float\<close> is a \<open>double\<close>\<close>
  "cJSON_CreateFloatArray = create_array cJSON_CreateNumber"
definition cJSON_CreateDoubleArray :: "double list option \<Rightarrow> int \<Rightarrow> mem \<Rightarrow> (cJSON option \<times> mem) option" where
  "cJSON_CreateDoubleArray = create_array cJSON_CreateNumber"
definition cJSON_CreateStringArray :: "string option list option \<Rightarrow> int \<Rightarrow> mem \<Rightarrow> (cJSON option \<times> mem) option" where
  "cJSON_CreateStringArray = create_array (\<lambda>s m. Some (cJSON_CreateString s m))"

subsection \<open>Copies\<close>

text \<open>The copy of an item without its children; \<open>None\<close> when an allocation failed.\<close>

definition dup_shallow :: "cJSON \<Rightarrow> mem \<Rightarrow> cJSON option \<times> mem" where
  "dup_shallow it m =
     (case cJSON_New_Item m of
        (None, m1) \<Rightarrow> (None, m1)
      | (Some b, m1) \<Rightarrow>
          (let n0 = set_number (valueint it) (valuedouble it) (set_type (ctype it AND NOT cJSON_IsReference) b);
               (vs, m2) = (if valuestring it = None then (None, m1) else cJSON_strdup (valuestring it) m1) in
           if valuestring it \<noteq> None \<and> vs = None then (None, cJSON_Delete (Some n0) m2)
           else
             (let n1 = set_valuestring vs n0;
                  (k, m3) = (if jstring it = None then (None, m2)
                             else if is_const it then (jstring it, m2) else cJSON_strdup (jstring it) m2) in
              if jstring it \<noteq> None \<and> k = None then (None, cJSON_Delete (Some n1) m3)
              else (Some (set_jstring k n1), m3))))"

fun dup_item :: "cJSON \<Rightarrow> mem \<Rightarrow> cJSON option \<times> mem"
  and dup_children :: "cJSON list \<Rightarrow> cJSON \<Rightarrow> mem \<Rightarrow> cJSON option \<times> mem" where
  "dup_item (Item t vs vi vd k ch) m =
     (case dup_shallow (Item t vs vi vd k ch) m of
        (None, m1) \<Rightarrow> (None, m1)
      | (Some n, m1) \<Rightarrow> dup_children ch n m1)"
| "dup_children [] n m = (Some n, m)"
| "dup_children (e # es) n m =
     (case dup_item e m of
        (None, m1) \<Rightarrow> (None, cJSON_Delete (Some n) m1)
      | (Some c, m1) \<Rightarrow> dup_children es (set_child (child n @ [c]) n) m1)"

definition cJSON_Duplicate :: "cJSON option \<Rightarrow> bool \<Rightarrow> mem \<Rightarrow> cJSON option \<times> mem" where
  "cJSON_Duplicate it recurse m =
     (case it of None \<Rightarrow> (None, m)
      | Some i \<Rightarrow> if recurse then dup_item i m else dup_shallow i m)"

subsection \<open>Minifying\<close>

text \<open>
  \<open>cJSON_Minify\<close> reads the block from the position of \<open>json\<close> on (the argument is the rest of
  the block, its NUL included) and writes behind; \<open>None\<close> is a read past the end of the block.
\<close>

fun skip_comment :: "string \<Rightarrow> string option" where
  "skip_comment [] = None"
| "skip_comment (c # cs) =
     (if c = NUL then Some (drop 2 (c # cs))
      else if c = CHR ''*'' then
        (case cs of [] \<Rightarrow> None | d # ds \<Rightarrow> if d = CHR ''/'' then Some ds else skip_comment cs)
      else skip_comment cs)"

fun copy_literal :: "string \<Rightarrow> (string \<times> string) option" where
  \<comment> \<open>behind the opening quote: what is copied, and the rest\<close>
  "copy_literal [] = None"
| "copy_literal (c # cs) =
     (if c = NUL \<or> c = CHR 0x22 then Some ([c], cs)
      else if c = CHR 0x5C then
        (case cs of [] \<Rightarrow> None
         | d # ds \<Rightarrow> do { (out, r) \<leftarrow> copy_literal ds; Some (c # d # out, r) })
      else do { (out, r) \<leftarrow> copy_literal cs; Some (c # out, r) })"

lemma skip_comment_length: "skip_comment s = Some r \<Longrightarrow> length r < length s"
  by (induction s) (auto split: if_splits list.splits)

lemma copy_literal_length: "copy_literal s = Some (out, r) \<Longrightarrow> length r < length s"
  by (induction s arbitrary: out rule: copy_literal.induct) (fastforce split: if_splits list.splits bind_splits)+

function minify :: "string \<Rightarrow> string option" where
  "minify [] = None"
| "minify (c # cs) =
     (if c = NUL then Some []
      else if c = CHR '' '' \<or> c = CHR 0x09 \<or> c = CHR 0x0D \<or> c = CHR 0x0A then minify cs
      else if c = CHR ''/'' then
        (case cs of
           [] \<Rightarrow> None
         | d # ds \<Rightarrow>
             if d = CHR ''/'' then minify (dropWhile (\<lambda>x. x \<noteq> NUL \<and> x \<noteq> CHR 0x0A) cs)
             else if d = CHR ''*'' then do { r \<leftarrow> skip_comment (c # cs); minify r }
             else do { out \<leftarrow> minify cs; Some (c # out) })
      else if c = CHR 0x22 then
        do { (lit, r) \<leftarrow> copy_literal cs; out \<leftarrow> minify r; Some (c # lit @ out) }
      else do { out \<leftarrow> minify cs; Some (c # out) })"
  by pat_completeness auto

termination
  by (relation "measure length")
    (auto dest: skip_comment_length copy_literal_length intro: length_dropWhile_le [THEN le_less_trans]
      simp del: skip_comment.simps)

definition cJSON_Minify :: "string option \<Rightarrow> string option option" where
  "cJSON_Minify json = (case json of None \<Rightarrow> Some None | Some s \<Rightarrow> do { out \<leftarrow> minify s; Some (Some (out @ [NUL])) })"

subsection \<open>Memory balance\<close>

lemma New_Item_cases:
  obtains m' where "cJSON_New_Item m = (None, m')" "live m' = live m" "\<not> reliable m"
    | m' where "cJSON_New_Item m = (Some blank, m')" "live m' = live m + 1" "reliable m' = reliable m"
  by (cases rule: malloc_cases [of m]) (auto simp: cJSON_New_Item_def reliable_def)

lemma strdup_cases:
  obtains m' where "cJSON_strdup (Some s) m = (None, m')" "live m' = live m" "\<not> reliable m"
    | m' where "cJSON_strdup (Some s) m = (Some s, m')" "live m' = live m + 1" "reliable m' = reliable m"
  by (cases rule: malloc_cases [of m]) (auto simp: cJSON_strdup_def reliable_def)

lemma and_or_absorb [simp]: "(t AND c) OR c = c" for t c :: int
  by (auto simp: bit_eq_iff bit_simps)

lemma ref_bit [simp]:
  "(t AND NOT cJSON_IsReference) AND cJSON_IsReference = 0"
  "(t AND NOT cJSON_IsReference) AND cJSON_StringIsConst = t AND cJSON_StringIsConst"
  "(t AND NOT cJSON_IsReference) AND 255 = t AND 255"
  "(t AND NOT cJSON_StringIsConst) AND cJSON_StringIsConst = 0"
  "(t AND NOT cJSON_StringIsConst) AND cJSON_IsReference = t AND cJSON_IsReference"
  "(t AND NOT cJSON_StringIsConst) AND 255 = t AND 255"
  "(t OR cJSON_StringIsConst) AND cJSON_StringIsConst = cJSON_StringIsConst"
  "(t OR cJSON_StringIsConst) AND cJSON_IsReference = t AND cJSON_IsReference"
  "(t OR cJSON_StringIsConst) AND 255 = t AND 255"
  "(t OR cJSON_IsReference) AND cJSON_IsReference = cJSON_IsReference"
  "(t OR cJSON_IsReference) AND cJSON_StringIsConst = t AND cJSON_StringIsConst"
  by (simp_all add: cjson_type_defs and.assoc bit.conj_disj_distrib2)

lemma bits_nonzero [simp]: "cJSON_IsReference \<noteq> 0" "cJSON_StringIsConst \<noteq> 0"
  by (simp_all add: cjson_type_defs)

text \<open>The copy \<open>cJSON_Duplicate\<close> makes: the same tree, with no reference left.\<close>

fun unref :: "cJSON \<Rightarrow> cJSON" where
  "unref (Item t vs vi vd k ch) = Item (t AND NOT cJSON_IsReference) vs vi vd k (map unref ch)"

lemma dup_shallow_spec:
  assumes "dup_shallow it m = (r, m')"
  shows "(r = None \<longrightarrow> live m' = live m \<and> \<not> reliable m) \<and>
         (\<forall>n. r = Some n \<longrightarrow> n = set_child [] (unref it) \<and> live m' = live m + blocks n \<and> reliable m' = reliable m)"
proof (cases it)
  case (Item t vs vi vd k ch)
  show ?thesis
  proof (cases rule: New_Item_cases [of m])
    case (1 m1)
    then show ?thesis using assms by (simp add: dup_shallow_def)
  next
    case new: (2 m1)
    show ?thesis
    proof (cases vs)
      case None
      show ?thesis
      proof (cases k)
        case k: (Some s)
        show ?thesis
          by (cases rule: strdup_cases [of s m1])
            (use assms Item None new k in \<open>auto simp: dup_shallow_def blank_def cJSON_Delete_def split: if_splits\<close>)
      qed (use assms Item None new in \<open>auto simp: dup_shallow_def blank_def\<close>)
    next
      case (Some v)
      show ?thesis
      proof (cases rule: strdup_cases [of v m1])
        case (1 m2)
        then show ?thesis using assms Item Some new by (auto simp: dup_shallow_def blank_def cJSON_Delete_def)
      next
        case vs: (2 m2)
        show ?thesis
        proof (cases k)
          case k: (Some s)
          show ?thesis
            by (cases rule: strdup_cases [of s m2])
              (use assms Item Some new vs k in \<open>auto simp: dup_shallow_def blank_def cJSON_Delete_def split: if_splits\<close>)
        qed (use assms Item Some new vs in \<open>auto simp: dup_shallow_def blank_def\<close>)
      qed
    qed
  qed
qed

lemma blocks_add_child:
  "\<not> is_ref n \<Longrightarrow> blocks (set_child (child n @ [c]) n) = blocks n + blocks c"
  by (cases n) simp

lemma is_ref_unref [simp]: "\<not> is_ref (unref it)"
  by (cases it) simp

lemma dup_spec:
  "dup_item it m = (r, m') \<Longrightarrow>
     (r = None \<longrightarrow> live m' = live m \<and> \<not> reliable m) \<and>
     (\<forall>c. r = Some c \<longrightarrow> c = unref it \<and> live m' = live m + blocks c \<and> reliable m' = reliable m)"
  "dup_children es n m = (r, m') \<Longrightarrow> \<not> is_ref n \<Longrightarrow>
     (r = None \<longrightarrow> live m' = live m - blocks n \<and> \<not> reliable m) \<and>
     (\<forall>c. r = Some c \<longrightarrow> c = set_child (child n @ map unref es) n \<and>
        live m' - blocks c = live m - blocks n \<and> reliable m' = reliable m)"
proof (induction it m and es n m arbitrary: r m' and r m' rule: dup_item_dup_children.induct)
  case (1 t vs vi vd k ch m)
  obtain n m1 where sh: "dup_shallow (Item t vs vi vd k ch) m = (n, m1)" by (cases "dup_shallow (Item t vs vi vd k ch) m")
  note spec = dup_shallow_spec [OF sh]
  show ?case
  proof (cases n)
    case None
    then show ?thesis using 1 sh spec by simp
  next
    case (Some x)
    then have x: "x = set_child [] (unref (Item t vs vi vd k ch))" "live m1 = live m + blocks x" "reliable m1 = reliable m"
      using spec by auto
    then have "\<not> is_ref x" by simp
    moreover have "dup_children ch x m1 = (r, m')" using 1 sh Some by simp
    ultimately show ?thesis using "1.IH" [OF sh [symmetric] Some] x by auto
  qed
next
  case (2 n m)
  then show ?case by (cases n) auto
next
  case (3 e es n m)
  obtain c m1 where d: "dup_item e m = (c, m1)" by (cases "dup_item e m")
  show ?case
  proof (cases c)
    case None
    then have "live m1 = live m" "\<not> reliable m" using "3.IH"(1) [OF d] by simp_all
    moreover have "r = None" "m' = cJSON_Delete (Some n) m1" using "3.prems"(1) d None by simp_all
    ultimately show ?thesis by (simp add: cJSON_Delete_def)
  next
    case (Some x)
    then have x: "x = unref e" "live m1 = live m + blocks x" "reliable m1 = reliable m"
      using "3.IH"(1) [OF d] by simp_all
    define n' where "n' = set_child (child n @ [x]) n"
    have "dup_children es n' m1 = (r, m')" using "3.prems"(1) d Some by (simp add: n'_def)
    moreover have "\<not> is_ref n'" using "3.prems"(2) by (simp add: n'_def)
    ultimately have IH: "(r = None \<longrightarrow> live m' = live m1 - blocks n' \<and> \<not> reliable m1) \<and>
       (\<forall>c. r = Some c \<longrightarrow> c = set_child (child n' @ map unref es) n' \<and>
          live m' - blocks c = live m1 - blocks n' \<and> reliable m' = reliable m1)"
      using "3.IH"(2) [OF d [symmetric] Some] unfolding n'_def by blast
    have b: "blocks n' = blocks n + blocks x" unfolding n'_def using "3.prems"(2) by (rule blocks_add_child)
    have s: "set_child (child n' @ map unref es) n' = set_child (child n @ map unref (e # es)) n"
      using x(1) by (cases n) (simp add: n'_def)
    show ?thesis
    proof (cases r)
      case None
      then show ?thesis using IH x b by simp
    next
      case (Some c)
      then show ?thesis using IH x b s by auto
    qed
  qed
qed

subsection \<open>Objects as named stores\<close>

lemma find_append: "List.find P (xs @ ys) = (case List.find P xs of None \<Rightarrow> List.find P ys | Some x \<Rightarrow> Some x)"
  by (induction xs) auto

definition same_name :: "string \<Rightarrow> string \<Rightarrow> bool" where
  "same_name s t \<longleftrightarrow> map lower s = map lower t"

lemma eq_nocase_Some [simp]: "eq_nocase (Some s) (Some t) = same_name s t"
  by (simp add: eq_nocase_def same_name_def)

text \<open>What the users of objects rely on: a member that was put under a new name is found under it
  (whatever the case of the letters), and the members under other names stay what they were.\<close>

locale named_store =
  fixes get :: "string \<Rightarrow> 's \<Rightarrow> 'v option"
    and put :: "string \<Rightarrow> 'v \<Rightarrow> 's \<Rightarrow> 's"
    and val :: "string \<Rightarrow> 'v \<Rightarrow> 'v"
  assumes get_put_same: "get nm s = None \<Longrightarrow> same_name nm nm' \<Longrightarrow> get nm' (put nm v s) = Some (val nm v)"
    and get_put_other: "\<not> same_name nm nm' \<Longrightarrow> get nm' (put nm v s) = get nm' s"
begin

text \<open>Several members with different names, put one after the other, are all found.\<close>

lemma get_fold_other:
  "\<forall>p\<in>set ps. \<not> same_name (fst p) nm \<Longrightarrow> get nm (fold (\<lambda>(k, v). put k v) ps s) = get nm s"
  by (induction ps arbitrary: s) (auto simp: get_put_other)

lemma get_fold:
  assumes "pairwise (\<lambda>p q. \<not> same_name (fst p) (fst q)) (set ps)" "distinct ps"
    and "\<forall>p\<in>set ps. get (fst p) s = None" "(nm, v) \<in> set ps"
  shows "get nm (fold (\<lambda>(k, v). put k v) ps s) = Some (val nm v)"
  using assms
proof (induction ps arbitrary: s)
  case (Cons p ps)
  obtain k w where p: "p = (k, w)" by (cases p)
  have apart: "\<not> same_name k (fst q) \<and> \<not> same_name (fst q) k" if "q \<in> set ps" for q
    using Cons.prems(1,2) that p by (auto simp: pairwise_def)
  have new: "\<forall>q\<in>set ps. get (fst q) (put k w s) = None"
    using apart Cons.prems(3) get_put_other by auto
  show ?case
  proof (cases "(nm, v) = p")
    case True
    then have "get nm (put k w s) = Some (val k w)"
      using p Cons.prems(3) get_put_same [of k s nm w] by (simp add: same_name_def)
    moreover have "\<forall>q\<in>set ps. \<not> same_name (fst q) nm" using apart True p by auto
    ultimately show ?thesis using True p get_fold_other [of ps nm "put k w s"] by simp
  next
    case False
    then have "get nm (fold (\<lambda>(k, v). put k v) ps (put k w s)) = Some (val nm v)"
      using Cons.prems new by (intro Cons.IH) (auto simp: pairwise_insert)
    then show ?thesis using p by simp
  qed
qed simp

end

text \<open>The key an item gets when it is added without \<open>constant_key\<close>, and the object with it.\<close>

definition keyed :: "string \<Rightarrow> cJSON \<Rightarrow> cJSON" where
  "keyed nm it = set_type (ctype it AND NOT cJSON_StringIsConst) (set_jstring (Some nm) it)"

definition with_member :: "string \<Rightarrow> cJSON \<Rightarrow> cJSON \<Rightarrow> cJSON" where
  "with_member nm it ob = set_child (child ob @ [keyed nm it]) ob"

lemma jstring_keyed [simp]: "jstring (keyed nm it) = Some nm"
  by (simp add: keyed_def)

lemma get_same_name:
  "same_name nm nm' \<Longrightarrow> cJSON_GetObjectItem (Some ob) (Some nm) = cJSON_GetObjectItem (Some ob) (Some nm')"
  unfolding cJSON_GetObjectItem_find by (rule arg_cong [where f = "\<lambda>P. List.find P _"]) (auto simp: eq_nocase_def same_name_def split: option.splits)

lemma get_with_member:
  "cJSON_GetObjectItem (Some (with_member nm it ob)) (Some nm') =
     (case cJSON_GetObjectItem (Some ob) (Some nm') of
        None \<Rightarrow> if same_name nm' nm then Some (keyed nm it) else None | Some x \<Rightarrow> Some x)"
  by (simp add: cJSON_GetObjectItem_find with_member_def find_append split: option.split)

lemma same_name_sym: "same_name s t \<longleftrightarrow> same_name t s"
  by (auto simp: same_name_def)

interpretation obj: named_store "\<lambda>nm ob. cJSON_GetObjectItem (Some ob) (Some nm)" with_member keyed
proof unfold_locales
  fix nm nm' v s
  show "cJSON_GetObjectItem (Some (with_member nm v s)) (Some nm') = Some (keyed nm v)"
    if "cJSON_GetObjectItem (Some s) (Some nm) = None" "same_name nm nm'"
    using that get_same_name [OF that(2), of s] same_name_sym [of nm] by (simp add: get_with_member)
  show "cJSON_GetObjectItem (Some (with_member nm v s)) (Some nm') = cJSON_GetObjectItem (Some s) (Some nm')"
    if "\<not> same_name nm nm'"
    using that same_name_sym [of nm] by (simp add: get_with_member split: option.splits)
qed

lemma add_item_to_object_spec:
  assumes "add_item_to_object (Some ob) (Some nm) (Some it) False m = (ok, ob', it', m')"
  shows "(ok \<and> ob' = Some (with_member nm it ob) \<and> it' = Some (keyed nm it) \<and>
           live m' = live m + 1 - (if is_const it \<or> jstring it = None then 0 else 1) \<and> reliable m' = reliable m)
       \<or> (\<not> ok \<and> ob' = Some ob \<and> it' = Some it \<and> live m' = live m \<and> \<not> reliable m)"
proof (cases rule: strdup_cases [of nm m])
  case (1 m1)
  then have "(ok, ob', it', m') = (False, Some ob, Some it, m1)"
    unfolding assms [symmetric] by (simp add: add_item_to_object_def)
  then show ?thesis using 1 by simp
next
  case (2 m1)
  then have "(ok, ob', it', m') = (True, Some (with_member nm it ob), Some (keyed nm it),
      if \<not> is_const it \<and> jstring it \<noteq> None then c_free 1 m1 else m1)"
    unfolding assms [symmetric]
    by (simp add: add_item_to_object_def add_item_to_array_def with_member_def keyed_def Let_def)
  then show ?thesis using 2 by (simp split: if_splits)
qed

lemma blocks_keyed: "int (blocks (keyed nm it)) = int (blocks it) + 1 - (if is_const it \<or> jstring it = None then 0 else 1)"
  by (cases it) (auto simp: keyed_def)

lemma blocks_with_member:
  "\<not> is_ref ob \<Longrightarrow> blocks (with_member nm it ob) = blocks ob + blocks (keyed nm it)"
  unfolding with_member_def by (rule blocks_add_child)

subsection \<open>Properties\<close>

text \<open>C30: a copy made by \<open>cJSON_Duplicate\<close> is the same tree with no references in it, it consists of
  exactly the blocks its deletion will give back, and a copy that fails leaves nothing allocated;
  it only fails when an allocation does.\<close>

theorem duplicate_copies:
  assumes "cJSON_Duplicate (Some it) True m = (r, m')"
  shows "(r = None \<longrightarrow> live m' = live m \<and> \<not> reliable m) \<and>
         (\<forall>c. r = Some c \<longrightarrow> c = unref it \<and> live (cJSON_Delete r m') = live m)"
  using dup_spec(1) [of it m r m'] assms by (auto simp: cJSON_Duplicate_def cJSON_Delete_def)

text \<open>C29: adding an item to an object under a new name either fails and changes nothing, or it appends
  the item, after which the name finds it, whatever the case of its letters, every other name finds
  what it found before, and the object owns exactly the blocks of the item and of its key besides
  its own.\<close>

theorem add_then_get:
  assumes "add_item_to_object (Some ob) (Some nm) (Some it) False m = (ok, ob', it', m')"
    and "cJSON_GetObjectItem (Some ob) (Some nm) = None" "\<not> is_ref ob"
  shows "(\<not> ok \<and> ob' = Some ob \<and> it' = Some it \<and> live m' = live m \<and> \<not> reliable m) \<or>
         (ok \<and> (\<exists>o2 i2. ob' = Some o2 \<and> it' = Some i2 \<and> child o2 = child ob @ [i2] \<and>
            jstring i2 = Some nm \<and> valuestring i2 = valuestring it \<and> child i2 = child it \<and> kind i2 = kind it \<and>
            (\<forall>nm'. same_name nm nm' \<longrightarrow> cJSON_GetObjectItem ob' (Some nm') = it') \<and>
            (\<forall>nm'. \<not> same_name nm nm' \<longrightarrow> cJSON_GetObjectItem ob' (Some nm') = cJSON_GetObjectItem (Some ob) (Some nm')) \<and>
            live m' - blocks o2 = live m - blocks ob - blocks it))"
proof -
  note spec = add_item_to_object_spec [OF assms(1)]
  have "live m' - blocks (with_member nm it ob) = live m - blocks ob - blocks it"
    if "live m' = live m + 1 - (if is_const it \<or> jstring it = None then 0 else 1)"
    unfolding blocks_with_member [OF assms(3)] that using blocks_keyed [of nm it] by simp
  moreover have "child (with_member nm it ob) = child ob @ [keyed nm it]" by (simp add: with_member_def)
  moreover have "valuestring (keyed nm it) = valuestring it" "child (keyed nm it) = child it" "kind (keyed nm it) = kind it"
    by (simp_all add: keyed_def)
  ultimately show ?thesis
    using spec obj.get_put_same [OF assms(2)] obj.get_put_other [of nm _ it ob] by auto
qed

text \<open>\<open>cJSON_AddItemReferenceToObject\<close> leaks the reference it created when the copy of the name
  cannot be allocated, and does not tell.\<close>

theorem add_reference_leaks:
  assumes "orc m (calls m)" "\<not> orc m (calls m + 1)"
  shows "\<exists>m'. cJSON_AddItemReferenceToObject (Some ob) (Some nm) (Some it) m = (Some ob, m') \<and>
           live m' = live m + 1"
  using assms
  by (auto simp: cJSON_AddItemReferenceToObject_def create_reference_def cJSON_New_Item_def malloc_def
      add_item_to_object_def cJSON_strdup_def)

text \<open>Replacing a member that the object does not have is reported as a success: nothing is
  replaced, and the replacement (with its new key) belongs to nobody.\<close>

theorem replace_missing_reports_success:
  assumes "cJSON_GetObjectItem (Some ob) (Some nm) = None" "reliable m"
  shows "\<exists>m'. replace_item_in_object (Some ob) (Some nm) (Some it) False m = Some (True, Some ob, m') \<and>
           live m' = live m + 1 - (if is_const it \<or> jstring it = None then 0 else 1)"
proof -
  have "get_object_index False (Some ob) (Some nm) = Some None"
    using assms(1)
    by (auto simp: cJSON_GetObjectItem_def get_object_item_def get_object_index_def find_name_nocase
        get_array_item_def nth_item_eq split: option.splits if_splits dest!: find_enumerate_Some)
  moreover define m1 where "m1 = (if \<not> is_const it \<and> jstring it \<noteq> None then c_free 1 m else m)"
  moreover have "reliable m1" "live m1 = live m - (if is_const it \<or> jstring it = None then 0 else 1)"
    using assms(2) by (auto simp: m1_def)
  ultimately show ?thesis
    by (cases rule: strdup_cases [of nm m1])
      (auto simp: replace_item_in_object_def cJSON_ReplaceItemViaPointer_def m1_def [symmetric])
qed

text \<open>Comparing two items (case-insensitively) always gives an answer, and the same one in both
  directions.\<close>

theorem compare_symmetric:
  "cJSON_Compare same a b False \<noteq> None \<and> cJSON_Compare False a b False = cJSON_Compare False b a False"
  using compare_total(1) [of False] compare_items_sym(1) [of False]
  by (auto simp: cJSON_Compare_def split: option.splits)

lemma skip_comment_open:
  assumes "\<And>xs ys. c \<noteq> xs @ ''*/'' @ ys" "is_cstr c"
  shows "skip_comment (c @ [NUL]) = Some []"
  using assms
proof (induction c)
  case (Cons a c)
  have IH: "skip_comment (c @ [NUL]) = Some []"
    using Cons.prems by (intro Cons.IH) (metis append_Cons, simp)
  show ?case
  proof (cases "a = CHR ''*''")
    case True
    have "hd (c @ [NUL]) \<noteq> CHR ''/''" using Cons.prems(1) [of "[]" "tl c"] True by (cases c) auto
    then show ?thesis using True IH Cons.prems by (cases "c @ [NUL]") auto
  qed (use IH Cons.prems in auto)
qed simp

text \<open>Minifying a text that ends in a block comment without an end reads past the end of the
  buffer.\<close>

theorem minify_open_comment_overreads:
  assumes "\<And>xs ys. ''*'' @ c \<noteq> xs @ ''*/'' @ ys" "is_cstr c"
  shows "cJSON_Minify (Some (''/*'' @ c @ [NUL])) = None"
proof -
  have "skip_comment (CHR ''*'' # c @ [NUL]) = Some []"
    using skip_comment_open [of "''*'' @ c"] assms by simp
  then have "skip_comment (CHR ''/'' # CHR ''*'' # c @ [NUL]) = Some []" by simp
  then have "minify (CHR ''/'' # CHR ''*'' # c @ [NUL]) = None"
    by (subst minify.simps) (simp del: skip_comment.simps)
  then show ?thesis by (simp add: cJSON_Minify_def del: minify.simps)
qed

subsection \<open>Witnesses\<close>

definition ex_num :: cJSON where
  "ex_num = Item cJSON_Number None 7 (double_of_int 7) None []"

definition ex_obj :: cJSON where
  "ex_obj = Item cJSON_Object None 0 zero_double None
     [Item (cJSON_String OR cJSON_IsReference) (Some ''v'') 0 zero_double (Some ''Name'') []]"

definition fails_second :: mem where
  "fails_second = \<lparr>orc = (\<lambda>k. k \<noteq> 1), calls = 0, live = 0\<rparr>"

theorem duplicate_copies_witness:
  "\<exists>c. fst (cJSON_Duplicate (Some ex_obj) True always) = Some c \<and> c = unref ex_obj"
proof -
  have "fst (cJSON_Duplicate (Some ex_obj) True always) \<noteq> None" by code_simp
  then show ?thesis
    using duplicate_copies [of ex_obj always "fst (cJSON_Duplicate (Some ex_obj) True always)"
        "snd (cJSON_Duplicate (Some ex_obj) True always)"] by auto
qed

lemma ex_obj_misses: "cJSON_GetObjectItem (Some ex_obj) (Some ''id'') = None" "\<not> is_ref ex_obj"
  by code_simp+

theorem add_then_get_witness:
  "\<exists>ob' it' m'. add_item_to_object (Some ex_obj) (Some ''id'') (Some ex_num) False always = (True, ob', it', m') \<and>
     cJSON_GetObjectItem ob' (Some ''ID'') = it'"
proof -
  obtain ok ob' it' m' where a: "add_item_to_object (Some ex_obj) (Some ''id'') (Some ex_num) False always = (ok, ob', it', m')"
    by (cases "add_item_to_object (Some ex_obj) (Some ''id'') (Some ex_num) False always") auto
  have "same_name ''id'' ''ID''" by code_simp
  then show ?thesis using add_then_get [OF a ex_obj_misses] a by auto
qed

theorem add_reference_leaks_witness:
  "\<exists>m'. cJSON_AddItemReferenceToObject (Some ex_obj) (Some ''id'') (Some ex_num) fails_second = (Some ex_obj, m') \<and>
     live m' = live fails_second + 1"
  by (rule add_reference_leaks) (simp_all add: fails_second_def)

theorem replace_missing_reports_success_witness:
  "\<exists>m'. replace_item_in_object (Some ex_obj) (Some ''id'') (Some ex_num) False always = Some (True, Some ex_obj, m') \<and>
     live m' = live always + 1 - (if is_const ex_num \<or> jstring ex_num = None then 0 else 1)"
  by (rule replace_missing_reports_success [OF ex_obj_misses(1) reliable_always])

theorem minify_open_comment_overreads_witness:
  "cJSON_Minify (Some (''/*'' @ ''x'' @ [NUL])) = None"
proof (rule minify_open_comment_overreads)
  fix xs ys show "''*'' @ ''x'' \<noteq> xs @ ''*/'' @ ys"
    by (cases xs; cases "tl xs") auto
qed simp

end
