(* ===== verification/CJSON_Parse.thy ===== *)
theory CJSON_Parse
  imports CJSON_Edit
begin

text \<open>
  The JSON parser of \<open>cJSON.c\<close>, from \<open>parse_number\<close> to \<open>cJSON_Parse\<close>. The text is read by
  index from a block that ends with the NUL, as the code does; every read is bounds-checked, the
  output of a string literal is written into a block of the size the code computes, and \<open>None\<close>
  stands for an access outside a block (or for fuel that does not suffice, which does not
  happen: see \<open>parse_value_total\<close>).
\<close>

subsection \<open>The parse buffer\<close>

text \<open>\<open>content\<close> is the text with its NUL, so its length is the \<open>length\<close> of the code.\<close>

record parse_buffer =
  content :: string
  offset :: nat
  depth :: nat

definition CJSON_NESTING_LIMIT :: nat where
  "CJSON_NESTING_LIMIT = 1000"

definition can_access_at_index :: "parse_buffer \<Rightarrow> nat \<Rightarrow> bool" where
  "can_access_at_index p i \<longleftrightarrow> offset p + i < length (content p)"

definition can_read :: "parse_buffer \<Rightarrow> nat \<Rightarrow> bool" where
  "can_read p n \<longleftrightarrow> offset p + n \<le> length (content p)"

definition char_at :: "parse_buffer \<Rightarrow> char option" where
  "char_at p = rd (content p) (offset p)"

text \<open>\<open>can_access_at_index(buffer, 0) && buffer_at_offset(buffer)[0] == c\<close>\<close>

definition looking_at :: "parse_buffer \<Rightarrow> char \<Rightarrow> bool" where
  "looking_at p c \<longleftrightarrow> can_access_at_index p 0 \<and> char_at p = Some c"

definition literal_at :: "parse_buffer \<Rightarrow> string \<Rightarrow> bool" where
  "literal_at p w \<longleftrightarrow> can_read p (length w) \<and> take (length w) (drop (offset p) (content p)) = w"

abbreviation advance :: "nat \<Rightarrow> parse_buffer \<Rightarrow> parse_buffer" where
  "advance n p \<equiv> p\<lparr>offset := offset p + n\<rparr>"

definition buffer_skip_whitespace :: "parse_buffer \<Rightarrow> parse_buffer" where
  "buffer_skip_whitespace p =
     (let o1 = offset p + length (takeWhile (\<lambda>c. (of_char c :: nat) \<le> 32) (drop (offset p) (content p))) in
      p\<lparr>offset := (if o1 = length (content p) then o1 - 1 else o1)\<rparr>)"

definition skip_utf8_bom :: "parse_buffer \<Rightarrow> parse_buffer option" where
  \<comment> \<open>\<open>None\<close>: the NULL the function returns\<close>
  "skip_utf8_bom p =
     (if offset p \<noteq> 0 then None
      else if can_access_at_index p 4 \<and> take 3 (content p) = [CHR 0xEF, CHR 0xBB, CHR 0xBF]
      then Some (advance 3 p) else Some p)"

subsection \<open>Numbers\<close>

definition is_number_char :: "char \<Rightarrow> bool" where
  "is_number_char c \<longleftrightarrow> is_digit c \<or> c = CHR ''+'' \<or> c = CHR ''-'' \<or> c = CHR ''e'' \<or> c = CHR ''E'' \<or> c = CHR ''.''"

definition parse_number :: "cJSON \<Rightarrow> parse_buffer \<Rightarrow> (bool \<times> cJSON \<times> parse_buffer) option" where
  "parse_number it p =
     (let number_c_string = takeWhile is_number_char (take 63 (drop (offset p) (content p)));
          (number, k) = strtod number_c_string in
      if k = 0 then Some (False, it, p)
      else do { n \<leftarrow> saturate number;
                Some (True, set_type cJSON_Number (set_number n number it), advance k p) })"

subsection \<open>String literals\<close>

text \<open>Four hexadecimal digits; a character that is none makes the whole value 0.\<close>

fun hex4_loop :: "nat \<Rightarrow> int \<Rightarrow> string \<Rightarrow> int option" where
  "hex4_loop 0 h cs = Some h"
| "hex4_loop (Suc k) h [] = None"
| "hex4_loop (Suc k) h (c # cs) =
     (case hex_val c of
        None \<Rightarrow> Some 0
      | Some v \<Rightarrow> hex4_loop k (if 0 < k then push_bit 4 (h + v) else h + v) cs)"

definition parse_hex4 :: "string \<Rightarrow> int option" where
  "parse_hex4 = hex4_loop 4 0"

text \<open>The continuation bytes, last one first.\<close>

fun utf8_tail :: "nat \<Rightarrow> int \<Rightarrow> string \<Rightarrow> int \<times> string" where
  "utf8_tail 0 cp out = (cp, out)"
| "utf8_tail (Suc k) cp out = utf8_tail k (drop_bit 6 cp) (char_of ((cp OR 0x80) AND 0xBF) # out)"

definition utf8_encode :: "int \<Rightarrow> string option" where
  \<comment> \<open>\<open>None\<close>: not a codepoint\<close>
  "utf8_encode cp =
     (if cp < 0x80 then Some [char_of (cp AND 0x7F)]
      else if 0x10FFFF < cp then None
      else
        (let (n, mark) = (if cp < 0x800 then (1, 0xC0) else if cp < 0x10000 then (2, 0xE0) else (3, 0xF0));
             (c, out) = utf8_tail n cp [] in
         Some (char_of ((c OR mark) AND 0xFF) # out)))"

text \<open>The argument is what lies between the input pointer and the end of the literal.\<close>

definition utf16_literal_to_utf8 :: "string \<Rightarrow> (nat \<times> string) option" where
  \<comment> \<open>result: the length of the sequence (0 for a failure) and the bytes; \<open>None\<close>: bad access\<close>
  "utf16_literal_to_utf8 inp =
     (if length inp < 6 then Some (0, [])
      else do {
        first_code \<leftarrow> parse_hex4 (drop 2 inp);
        if 0xDC00 \<le> first_code \<and> first_code \<le> 0xDFFF then Some (0, [])
        else if 0xD800 \<le> first_code \<and> first_code \<le> 0xDBFF then
          (if length inp - 6 < 6 then Some (0, [])
           else if take 2 (drop 6 inp) \<noteq> [CHR 0x5C, CHR ''u''] then Some (0, [])
           else do {
             second_code \<leftarrow> parse_hex4 (drop 8 inp);
             if second_code < 0xDC00 \<or> 0xDFFF < second_code then Some (0, [])
             else
               (let codepoint = 0x10000 + (push_bit 10 (first_code AND 0x3FF) OR (second_code AND 0x3FF)) in
                Some (case utf8_encode codepoint of None \<Rightarrow> (0, []) | Some out \<Rightarrow> (12, out))) })
        else Some (case utf8_encode first_code of None \<Rightarrow> (0, []) | Some out \<Rightarrow> (6, out)) })"

text \<open>
  The first pass: how far the closing quote is and how many characters the escapes save;
  \<open>None\<close> when the text ends first.
\<close>

fun scan_quote :: "string \<Rightarrow> (nat \<times> nat) option" where
  "scan_quote [] = None"
| "scan_quote (c # cs) =
     (if c = CHR 0x22 then Some (0, 0)
      else if c = CHR 0x5C then
        (case cs of [] \<Rightarrow> None | _ # ds \<Rightarrow> do { (n, sk) \<leftarrow> scan_quote ds; Some (n + 2, sk + 1) })
      else do { (n, sk) \<leftarrow> scan_quote cs; Some (n + 1, sk) })"

definition simple_escape :: "char \<Rightarrow> char option" where
  "simple_escape c =
     (if c = CHR ''b'' then Some (CHR 0x08) else if c = CHR ''f'' then Some (CHR 0x0C)
      else if c = CHR ''n'' then Some (CHR 0x0A) else if c = CHR ''r'' then Some (CHR 0x0D)
      else if c = CHR ''t'' then Some (CHR 0x09)
      else if c = CHR 0x22 \<or> c = CHR 0x5C \<or> c = CHR ''/'' then Some c else None)"

text \<open>
  The second pass over the \<open>n\<close> characters in front of the closing quote (\<open>cs\<close>: the text from
  the input pointer on), writing into a block of \<open>cap\<close> bytes; the result is whether all of it was
  converted, the bytes written, and where the input pointer \<open>ip\<close> is.
\<close>

function unescape :: "nat \<Rightarrow> nat \<Rightarrow> string \<Rightarrow> string \<Rightarrow> nat \<Rightarrow> (bool \<times> string \<times> nat) option" where
  "unescape cap n cs out ip =
     (if n = 0 then Some (True, out, ip)
      else
        (case cs of
           [] \<Rightarrow> None
         | c # ds \<Rightarrow>
             if c \<noteq> CHR 0x5C then
               (if length out < cap then unescape cap (n - 1) ds (out @ [c]) (ip + 1) else None)
             else
               (case ds of
                  [] \<Rightarrow> None
                | e # es \<Rightarrow>
                    (case simple_escape e of
                       Some b \<Rightarrow> if length out < cap then unescape cap (n - 2) es (out @ [b]) (ip + 2) else None
                     | None \<Rightarrow>
                         if e = CHR ''u'' then
                           (case utf16_literal_to_utf8 (take n cs) of
                              None \<Rightarrow> None
                            | Some (k, bs) \<Rightarrow>
                                if k = 0 then Some (False, out, ip)
                                else if length out + length bs \<le> cap
                                then unescape cap (n - k) (drop k cs) (out @ bs) (ip + k) else None)
                         else Some (False, out, ip)))))"
  by pat_completeness auto

termination
  by (relation "measure (\<lambda>(cap, n, cs, out, ip). n)") auto

declare unescape.simps [simp del]

definition parse_string :: "cJSON \<Rightarrow> parse_buffer \<Rightarrow> mem \<Rightarrow> (bool \<times> cJSON \<times> parse_buffer \<times> mem) option" where
  "parse_string it p m =
     do { c \<leftarrow> char_at p;
          let cs = drop (offset p + 1) (content p);
          if c \<noteq> CHR 0x22 then Some (False, it, advance 1 p, m)
          else
            (case scan_quote cs of
               None \<Rightarrow> Some (False, it, advance 1 p, m)
             | Some (n, skipped_bytes) \<Rightarrow>
                 (let allocation_length = n + 1 - skipped_bytes; (ok, m1) = malloc m in
                  if \<not> ok then Some (False, it, advance 1 p, m1)
                  else
                    do { (done, out, ip) \<leftarrow> unescape (allocation_length + 1) n cs [] (offset p + 1);
                         if \<not> done then Some (False, it, p\<lparr>offset := ip\<rparr>, c_free 1 m1)
                         else if length out < allocation_length + 1
                         then Some (True, set_type cJSON_String (set_valuestring (Some (c_str out)) it),
                                    p\<lparr>offset := offset p + 1 + n + 1\<rparr>, m1)
                         else None })) }"

subsection \<open>Values\<close>

text \<open>
  The part that \<open>parse_array\<close> and \<open>parse_object\<close> share, behind the opening bracket: the empty
  list, or the loop over the elements or members (from the character in front of the first one)
  and the closing bracket.
\<close>

definition parse_items ::
    "char \<Rightarrow> int \<Rightarrow> (parse_buffer \<Rightarrow> mem \<Rightarrow> (bool \<times> cJSON list \<times> parse_buffer \<times> mem) option) \<Rightarrow>
     cJSON \<Rightarrow> parse_buffer \<Rightarrow> mem \<Rightarrow> (bool \<times> cJSON \<times> parse_buffer \<times> mem) option" where
  "parse_items close t loop it p m =
     (let p1 = buffer_skip_whitespace (advance 1 p) in
      if looking_at p1 close
      then Some (True, set_child [] (set_type t it), p1\<lparr>offset := offset p1 + 1, depth := depth p1 - 1\<rparr>, m)
      else if \<not> can_access_at_index p1 0 then Some (False, it, p1\<lparr>offset := offset p1 - 1\<rparr>, m)
      else do { (ok, es, p2, m2) \<leftarrow> loop (p1\<lparr>offset := offset p1 - 1\<rparr>) m;
                if ok \<and> looking_at p2 close
                then Some (True, set_child es (set_type t it), p2\<lparr>offset := offset p2 + 1, depth := depth p2 - 1\<rparr>, m2)
                else Some (False, it, p2, delete_chain es m2) })"

definition parse_array ::
    "(parse_buffer \<Rightarrow> mem \<Rightarrow> (bool \<times> cJSON list \<times> parse_buffer \<times> mem) option) \<Rightarrow>
     cJSON \<Rightarrow> parse_buffer \<Rightarrow> mem \<Rightarrow> (bool \<times> cJSON \<times> parse_buffer \<times> mem) option" where
  "parse_array loop it p m =
     (if CJSON_NESTING_LIMIT \<le> depth p then Some (False, it, p, m)
      else
        do { let p0 = p\<lparr>depth := depth p + 1\<rparr>;
             c \<leftarrow> char_at p0;
             if c \<noteq> CHR ''['' then Some (False, it, p0, m)
             else parse_items (CHR '']'') cJSON_Array loop it p0 m })"

definition parse_object ::
    "(parse_buffer \<Rightarrow> mem \<Rightarrow> (bool \<times> cJSON list \<times> parse_buffer \<times> mem) option) \<Rightarrow>
     cJSON \<Rightarrow> parse_buffer \<Rightarrow> mem \<Rightarrow> (bool \<times> cJSON \<times> parse_buffer \<times> mem) option" where
  "parse_object loop it p m =
     (if CJSON_NESTING_LIMIT \<le> depth p then Some (False, it, p, m)
      else
        (let p0 = p\<lparr>depth := depth p + 1\<rparr> in
         if \<not> looking_at p0 (CHR ''{'') then Some (False, it, p0, m)
         else parse_items (CHR ''}'') cJSON_Object loop it p0 m))"

text \<open>
  The two loops return whether the end of the list was reached, and the items attached so far,
  an unfinished one included.
\<close>

fun parse_value :: "nat \<Rightarrow> cJSON \<Rightarrow> parse_buffer \<Rightarrow> mem \<Rightarrow> (bool \<times> cJSON \<times> parse_buffer \<times> mem) option"
  and parse_elements :: "nat \<Rightarrow> cJSON list \<Rightarrow> parse_buffer \<Rightarrow> mem \<Rightarrow> (bool \<times> cJSON list \<times> parse_buffer \<times> mem) option"
  and parse_members :: "nat \<Rightarrow> cJSON list \<Rightarrow> parse_buffer \<Rightarrow> mem \<Rightarrow> (bool \<times> cJSON list \<times> parse_buffer \<times> mem) option" where
  "parse_value 0 it p m = None"
| "parse_value (Suc f) it p m =
     (if literal_at p ''null'' then Some (True, set_type cJSON_NULL it, advance 4 p, m)
      else if literal_at p ''false'' then Some (True, set_type cJSON_False it, advance 5 p, m)
      else if literal_at p ''true''
      then Some (True, set_type cJSON_True (set_number 1 (valuedouble it) it), advance 4 p, m)
      else if looking_at p (CHR 0x22) then parse_string it p m
      else if looking_at p (CHR ''-'') \<or> (can_access_at_index p 0 \<and> is_digit (content p ! offset p))
      then do { (ok, it', p') \<leftarrow> parse_number it p; Some (ok, it', p', m) }
      else if looking_at p (CHR ''['') then parse_array (\<lambda>q n. parse_elements f [] q n) it p m
      else if looking_at p (CHR ''{'') then parse_object (\<lambda>q n. parse_members f [] q n) it p m
      else Some (False, it, p, m))"
| "parse_elements 0 es p m = None"
| "parse_elements (Suc f) es p m =
     (case cJSON_New_Item m of
        (None, m1) \<Rightarrow> Some (False, es, p, m1)
      | (Some it, m1) \<Rightarrow>
          do { (ok, it', p2, m2) \<leftarrow> parse_value f it (buffer_skip_whitespace (advance 1 p)) m1;
               if \<not> ok then Some (False, es @ [it'], p2, m2)
               else
                 (let p3 = buffer_skip_whitespace p2 in
                  if looking_at p3 (CHR '','') then parse_elements f (es @ [it']) p3 m2
                  else Some (True, es @ [it'], p3, m2)) })"
| "parse_members 0 es p m = None"
| "parse_members (Suc f) es p m =
     (case cJSON_New_Item m of
        (None, m1) \<Rightarrow> Some (False, es, p, m1)
      | (Some it, m1) \<Rightarrow>
          do { (ok, it1, p2, m2) \<leftarrow> parse_string it (buffer_skip_whitespace (advance 1 p)) m1;
               if \<not> ok then Some (False, es @ [it1], p2, m2)
               else
                 (let p3 = buffer_skip_whitespace p2;
                      it2 = set_valuestring None (set_jstring (valuestring it1) it1) in
                  if \<not> looking_at p3 (CHR '':'') then Some (False, es @ [it2], p3, m2)
                  else
                    do { (ok3, it3, p4, m3) \<leftarrow> parse_value f it2 (buffer_skip_whitespace (advance 1 p3)) m2;
                         if \<not> ok3 then Some (False, es @ [it3], p4, m3)
                         else
                           (let p5 = buffer_skip_whitespace p4 in
                            if looking_at p5 (CHR '','') then parse_members f (es @ [it3]) p5 m3
                            else Some (True, es @ [it3], p5, m3)) }) })"

definition parse_fuel :: "string \<Rightarrow> nat" where
  "parse_fuel s = 2 * length s + 1"

definition cJSON_ParseWithOpts :: "string option \<Rightarrow> bool \<Rightarrow> mem \<Rightarrow> (cJSON option \<times> nat \<times> mem) option" where
  \<comment> \<open>result: the item, the end of the parse or the position of the error, the memory\<close>
  "cJSON_ParseWithOpts value require_null_terminated m =
     (case value of
        None \<Rightarrow> Some (None, 0, m)
      | Some s \<Rightarrow>
          (let p0 = \<lparr>content = s @ [NUL], offset = 0, depth = 0\<rparr>;
               err = (\<lambda>p. if offset p < length (content p) then offset p else length (content p) - 1) in
           case cJSON_New_Item m of
             (None, m1) \<Rightarrow> Some (None, err p0, m1)
           | (Some it, m1) \<Rightarrow>
               (case skip_utf8_bom p0 of
                  None \<Rightarrow> Some (None, err p0, cJSON_Delete (Some it) m1)
                | Some p1 \<Rightarrow>
                    do { (ok, it', p2, m2) \<leftarrow> parse_value (parse_fuel (s @ [NUL])) it (buffer_skip_whitespace p1) m1;
                         if \<not> ok then Some (None, err p2, cJSON_Delete (Some it') m2)
                         else
                           (let p3 = (if require_null_terminated then buffer_skip_whitespace p2 else p2) in
                            if require_null_terminated \<and> \<not> looking_at p3 NUL
                            then Some (None, err p3, cJSON_Delete (Some it') m2)
                            else Some (Some it', offset p3, m2)) })))"

definition cJSON_Parse :: "string option \<Rightarrow> mem \<Rightarrow> (cJSON option \<times> mem) option" where
  "cJSON_Parse value m = do { (it, _, m') \<leftarrow> cJSON_ParseWithOpts value False m; Some (it, m') }"

text \<open>Texts for the examples: a backquote stands for the double quote, a dollar
  sign for the backslash.\<close>

definition jtext :: "string \<Rightarrow> string" where
  "jtext = map (\<lambda>c. if c = CHR 0x60 then CHR 0x22 else if c = CHR ''$'' then CHR 0x5C else c)"


subsection \<open>A string literal fits its block\<close>

text \<open>
  The number of escapes the first pass counts in a text; \<open>b\<close> tells that the text starts with the
  second character of an escape.
\<close>

fun escapes :: "bool \<Rightarrow> string \<Rightarrow> nat" where
  "escapes b [] = 0"
| "escapes True (c # cs) = escapes False cs"
| "escapes False (c # cs) = (if c = CHR 0x5C then Suc (escapes True cs) else escapes False cs)"

fun in_escape :: "bool \<Rightarrow> string \<Rightarrow> bool" where
  "in_escape b [] = b"
| "in_escape True (c # cs) = in_escape False cs"
| "in_escape False (c # cs) = in_escape (c = CHR 0x5C) cs"

lemma escapes_append: "escapes b (xs @ ys) = escapes b xs + escapes (in_escape b xs) ys"
  by (induction b xs rule: escapes.induct) auto

lemma in_escape_append: "in_escape b (xs @ ys) = in_escape (in_escape b xs) ys"
  by (induction b xs rule: in_escape.induct) auto

lemma escapes_half: "2 * escapes b xs \<le> length xs + (if b then 0 else 1)"
  by (induction b xs rule: escapes.induct) auto

lemma escapes_le: "escapes b xs \<le> length xs"
  by (induction b xs rule: escapes.induct) auto

lemma scan_quote_Some:
  "scan_quote cs = Some (n, sk) \<Longrightarrow>
     n < length cs \<and> cs ! n = CHR 0x22 \<and> sk = escapes False (take n cs) \<and> \<not> in_escape False (take n cs)"
proof (induction cs arbitrary: n sk rule: scan_quote.induct)
  case (2 c cs)
  show ?case
  proof (cases "c = CHR 0x5C")
    case True
    then obtain d ds n' sk' where "cs = d # ds" "scan_quote ds = Some (n', sk')" "n = n' + 2" "sk = sk' + 1"
      using 2(3) by (auto split: list.splits bind_splits)
    then show ?thesis using 2(1) [of d ds n' sk'] True by auto
  next
    case no_escape: False
    show ?thesis
    proof (cases "c = CHR 0x22")
      case True
      then show ?thesis using 2(3) by simp
    next
      case False
      then obtain n' where "scan_quote cs = Some (n', sk)" "n = n' + 1"
        using 2(3) no_escape by (auto split: bind_splits)
      then show ?thesis using 2(2) [of n' sk] False no_escape by simp
    qed
  qed
qed simp

lemma hex4_loop_total: "k \<le> length cs \<Longrightarrow> hex4_loop k h cs \<noteq> None"
  by (induction k h cs rule: hex4_loop.induct) (auto split: option.splits)

lemma utf8_tail_length: "length (snd (utf8_tail k cp out)) = k + length out"
  by (induction k cp out rule: utf8_tail.induct) auto

lemma utf8_encode_length:
  assumes "utf8_encode cp = Some bs"
  shows "0 < length bs \<and> length bs \<le> 4 \<and> (cp < 0x10000 \<longrightarrow> length bs \<le> 3)"
  using assms utf8_tail_length [of _ cp "[]"]
  by (auto simp: utf8_encode_def Let_def split: if_splits prod.splits dest!: arg_cong [where f = snd] intro!: Suc_leI)

lemma hex_val_range: "hex_val c = Some v \<Longrightarrow> 0 \<le> v \<and> v < 16"
  by (auto simp: hex_val_def Let_def split: if_splits)

lemma parse_hex4_range:
  assumes "parse_hex4 cs = Some h"
  shows "0 \<le> h \<and> h < 0x10000"
proof -
  have "0 \<le> r \<and> r < 16 ^ Suc j * (b + 1)"
    if "hex4_loop (Suc j) h cs = Some r" "0 \<le> h" "h \<le> 16 * b" for j h b r and cs
    using that
  proof (induction j arbitrary: h b cs)
    case 0
    then show ?case by (cases cs) (auto split: option.splits dest!: hex_val_range)
  next
    case (Suc j)
    then obtain c ds where cs: "cs = c # ds" by (cases cs) auto
    show ?case
    proof (cases "hex_val c")
      case None
      then show ?thesis using Suc.prems cs by simp
    next
      case (Some v)
      then have run: "hex4_loop (Suc j) (16 * (h + v)) ds = Some r"
        using Suc.prems(1) cs by (simp add: push_bit_eq_mult mult.commute)
      have v: "0 \<le> v" "v < 16" using hex_val_range [OF Some] by auto
      have r: "0 \<le> r \<and> r < 16 ^ Suc j * ((h + v) + 1)"
        by (rule Suc.IH [OF run]) (use v Suc.prems(2) in auto)
      have "16 ^ Suc j * ((h + v) + 1) \<le> 16 ^ Suc j * (16 * (b + 1))"
        using v Suc.prems(3) by (intro mult_left_mono) auto
      also have "16 ^ Suc j * (16 * (b + 1)) = 16 ^ Suc (Suc j) * (b + 1)" by simp
      finally show ?thesis using r by linarith
    qed
  qed
  from this [of 3 0 cs h 0] show ?thesis using assms by (simp add: parse_hex4_def numeral_eq_Suc)
qed

lemma utf16_total: "utf16_literal_to_utf8 inp \<noteq> None"
proof (cases "length inp < 6")
  case False
  then have "4 \<le> length (drop 2 inp)" by simp
  then obtain a where a: "parse_hex4 (drop 2 inp) = Some a"
    using hex4_loop_total [of 4 "drop 2 inp" 0] by (auto simp: parse_hex4_def)
  show ?thesis
  proof (cases "length inp - 6 < 6")
    case True
    then show ?thesis using a by (auto simp: utf16_literal_to_utf8_def split: option.splits)
  next
    case far: False
    then have "4 \<le> length (drop 8 inp)" by simp
    then obtain b where "parse_hex4 (drop 8 inp) = Some b"
      using hex4_loop_total [of 4 "drop 8 inp" 0] by (auto simp: parse_hex4_def)
    then show ?thesis using a by (auto simp: utf16_literal_to_utf8_def Let_def split: option.splits)
  qed
qed (simp add: utf16_literal_to_utf8_def)

lemma utf16_Some:
  assumes "utf16_literal_to_utf8 inp = Some (k, bs)" "k \<noteq> 0"
  shows "k \<le> length inp \<and> 0 < length bs \<and> (k = 6 \<and> length bs \<le> 3 \<or> k = 12 \<and> length bs \<le> 4)"
proof -
  have long: "\<not> length inp < 6" using assms by (auto simp: utf16_literal_to_utf8_def)
  then have "4 \<le> length (drop 2 inp)" by simp
  then obtain a where a: "parse_hex4 (drop 2 inp) = Some a"
    using hex4_loop_total [of 4 "drop 2 inp" 0] by (auto simp: parse_hex4_def)
  note r = parse_hex4_range [OF a]
  show ?thesis
    using assms long a r
    by (auto simp: utf16_literal_to_utf8_def Let_def split: if_splits bind_splits option.splits
        dest: utf8_encode_length)
qed

text \<open>What is still to be written: the characters left, less the escapes the first pass counted.\<close>

lemma escapes_drop:
  assumes "k \<le> length xs"
  shows "escapes b xs = escapes b (take k xs) + escapes (in_escape b (take k xs)) (drop k xs)"
  using escapes_append [of b "take k xs" "drop k xs"] by simp

text \<open>
  The second pass never leaves the block of \<open>n + 2 - sk\<close> bytes, whatever the text, even where
  its escapes are not those of the first pass: a Unicode escape with bad digits swallows six characters.
\<close>

declare ex_bool_eq [simp]

lemma unescape_fits:
  assumes "n < length cs" "cs ! n = CHR 0x22" "\<not> in_escape b (take n cs)"
    and "length out + (n - escapes b (take n cs)) < cap"
  shows "\<exists>done out' ip'. unescape cap n cs out ip = Some (done, out', ip') \<and> length out' < cap"
  using assms
proof (induction n arbitrary: cs out ip b rule: less_induct)
  case (less n)
  show ?case
  proof (cases n)
    case 0
    then show ?thesis using less.prems by (subst unescape.simps) simp
  next
    case (Suc n1)
    obtain c ds where cs: "cs = c # ds" using less.prems(1) by (cases cs) auto
    then have ds: "n1 < length ds" "ds ! n1 = CHR 0x22" using less.prems Suc by auto
    have le: "escapes b' (take k zs) \<le> k" for b' k and zs :: string
      using escapes_le [of b' "take k zs"] by simp
    show ?thesis
    proof (cases "c = CHR 0x5C")
      case False
      define b1 where "b1 = in_escape b [c]"
      have b1: "\<not> in_escape b1 (take n1 ds)" "escapes b (take n cs) = escapes b1 (take n1 ds)"
        using less.prems(3) cs Suc False by (cases b; simp add: b1_def)+
      have "length (out @ [c]) + (n1 - escapes b1 (take n1 ds)) < cap"
        using less.prems(4) b1(2) Suc le [of b1 n1 ds] by simp
      from less.IH [OF _ ds b1(1) this, of "ip + 1"] show ?thesis
        using False cs Suc less.prems(4) by (subst unescape.simps) simp
    next
      case escape: True
      obtain e es where es: "ds = e # es" using ds by (cases ds) auto
      show ?thesis
      proof (cases "simple_escape e")
        case (Some x)
        show ?thesis
        proof (cases n1)
          case 0
          \<comment> \<open>the last character is the second one of an escape: the closing quote is taken for one\<close>
          then have "b" using less.prems(3) cs Suc escape by (cases b) auto
          then have "escapes b (take n cs) = 0" using cs Suc 0 by simp
          then have "length out + 1 < cap" using less.prems(4) Suc 0 by simp
          then show ?thesis
            using Some cs Suc 0 es escape
            by (subst unescape.simps) (simp add: unescape.simps [of cap 0])
        next
          case (Suc n2)
          have n: "n = Suc (Suc n2)" using Suc \<open>n = Suc n1\<close> by simp
          define b2 where "b2 = in_escape b [c, e]"
          have tk: "take n cs = [c, e] @ take n2 es" using n cs es by simp
          have b2: "\<not> in_escape b2 (take n2 es)" "escapes b (take n cs) = escapes b [c, e] + escapes b2 (take n2 es)"
            using less.prems(3) unfolding tk in_escape_append escapes_append b2_def by simp_all
          have half: "escapes b [c, e] \<le> 1" by (cases b) (auto simp: escape)
          have ds2: "n2 < length es" "es ! n2 = CHR 0x22" using ds es Suc by auto
          have "length (out @ [x]) + (n2 - escapes b2 (take n2 es)) < cap"
            using less.prems(4) b2(2) half n le [of b2 n2 es] by simp
          from less.IH [OF _ ds2 b2(1) this, of "ip + 2"] show ?thesis
            using Some cs n es escape less.prems(4) by (subst unescape.simps) simp
        qed
      next
        case None
        show ?thesis
        proof (cases "e = CHR ''u''")
          case False
          then show ?thesis using None cs Suc es escape less.prems(4) by (subst unescape.simps) simp
        next
          case u: True
          obtain k bs where u16: "utf16_literal_to_utf8 (take n cs) = Some (k, bs)"
            using utf16_total [of "take n cs"] by auto
          show ?thesis
          proof (cases "k = 0")
            case True
            then show ?thesis using None cs Suc es escape u u16 less.prems(4)
              by (subst unescape.simps) simp
          next
            case False
            from utf16_Some [OF u16 False] have k: "k \<le> n" "0 < k" "length bs + (k + 1) div 2 \<le> k"
              using less.prems(1) by auto
            define b' where "b' = in_escape b (take k cs)"
            have tk: "take n cs = take k cs @ take (n - k) (drop k cs)"
              using k(1) by (metis le_add_diff_inverse take_add)
            have b': "\<not> in_escape b' (take (n - k) (drop k cs))"
              "escapes b (take n cs) = escapes b (take k cs) + escapes b' (take (n - k) (drop k cs))"
              using less.prems(3) unfolding tk in_escape_append escapes_append b'_def by simp_all
            have half: "escapes b (take k cs) \<le> (k + 1) div 2"
            proof -
              have "2 * escapes b (take k cs) \<le> k + 1"
                using escapes_half [of b "take k cs"] less.prems(1) k(1) by (simp split: if_splits)
              then show ?thesis by simp
            qed
            have rest: "n - k < length (drop k cs)" "drop k cs ! (n - k) = CHR 0x22"
              using less.prems(1,2) k(1) by simp_all
            have room: "length (out @ bs) + (n - k - escapes b' (take (n - k) (drop k cs))) < cap"
              using less.prems(4) b'(2) half k le [of b' "n - k" "drop k cs"] by simp
            have "n - k < n" using k by simp
            from less.IH [OF this rest b'(1) room, of "ip + k"] show ?thesis
              using None cs Suc es escape u u16 False room by (subst unescape.simps) simp
          qed
        qed
      qed
    qed
  qed
qed

subsection \<open>The parser stays inside the text, ends, and leaks nothing\<close>

definition wf_buf :: "parse_buffer \<Rightarrow> bool" where
  "wf_buf p \<longleftrightarrow> (\<exists>s. is_cstr s \<and> content p = s @ [NUL]) \<and> offset p < length (content p)"

lemma wf_last:
  assumes "wf_buf p" "i < length (content p)" "content p ! i \<noteq> NUL"
  shows "Suc i < length (content p)"
  using assms by (auto simp: wf_buf_def nth_append split: if_splits)

lemma char_at_Some [simp]: "wf_buf p \<Longrightarrow> char_at p = Some (content p ! offset p)"
  by (simp add: wf_buf_def char_at_def rd_Some)

lemma looking_at_wf: "wf_buf p \<Longrightarrow> looking_at p c \<longleftrightarrow> content p ! offset p = c"
  by (auto simp: looking_at_def can_access_at_index_def wf_buf_def char_at_def rd_Some)

lemma skip_ws:
  assumes "\<exists>s. is_cstr s \<and> content p = s @ [NUL]" "offset p \<le> length (content p)"
  shows "content (buffer_skip_whitespace p) = content p" "depth (buffer_skip_whitespace p) = depth p"
    "wf_buf (buffer_skip_whitespace p)"
    "offset p < length (content p) \<Longrightarrow> offset p \<le> offset (buffer_skip_whitespace p)"
    "offset p \<le> Suc (offset (buffer_skip_whitespace p))"
proof -
  let ?k = "length (takeWhile (\<lambda>c. (of_char c :: nat) \<le> 32) (drop (offset p) (content p)))"
  have k: "offset p + ?k \<le> length (content p)"
    using length_takeWhile_le [of "\<lambda>c. (of_char c :: nat) \<le> 32" "drop (offset p) (content p)"] assms(2) by simp
  show "content (buffer_skip_whitespace p) = content p" "depth (buffer_skip_whitespace p) = depth p"
    by (simp_all add: buffer_skip_whitespace_def Let_def)
  show "wf_buf (buffer_skip_whitespace p)" using assms k by (auto simp: wf_buf_def buffer_skip_whitespace_def Let_def)
  show "offset p \<le> offset (buffer_skip_whitespace p)" if "offset p < length (content p)"
    using that k by (auto simp: buffer_skip_whitespace_def Let_def)
  show "offset p \<le> Suc (offset (buffer_skip_whitespace p))" by (auto simp: buffer_skip_whitespace_def Let_def)
qed

lemma advance_wf:
  assumes "wf_buf p" "content p ! offset p \<noteq> NUL"
  shows "wf_buf (advance 1 p)"
  using assms wf_last [of p "offset p"] by (auto simp: wf_buf_def)

lemma parse_string_total:
  assumes "wf_buf p"
  shows "\<exists>ok it' p' m'. parse_string it p m = Some (ok, it', p', m') \<and>
     content p' = content p \<and> depth p' = depth p \<and>
     (ok \<longrightarrow> wf_buf p' \<and> offset p < offset p' \<and> live m' = live m + 1 \<and>
        (\<exists>s. is_cstr s \<and> it' = set_type cJSON_String (set_valuestring (Some s) it))) \<and>
     (\<not> ok \<longrightarrow> it' = it \<and> live m' = live m)"
proof (cases "content p ! offset p = CHR 0x22")
  case False
  then have "parse_string it p m = Some (False, it, advance 1 p, m)" using assms by (simp add: parse_string_def)
  then show ?thesis by (simp del: ex_bool_eq) blast
next
  case quote: True
  define cs where "cs = drop (offset p + 1) (content p)"
  have unf: "parse_string it p m =
     (case scan_quote cs of
        None \<Rightarrow> Some (False, it, advance 1 p, m)
      | Some (n, sk) \<Rightarrow>
          (let (ok, m1) = malloc m in
           if \<not> ok then Some (False, it, advance 1 p, m1)
           else do { (dn, out, ip) \<leftarrow> unescape (n + 1 - sk + 1) n cs [] (offset p + 1);
                     if \<not> dn then Some (False, it, p\<lparr>offset := ip\<rparr>, c_free 1 m1)
                     else if length out < n + 1 - sk + 1
                     then Some (True, set_type cJSON_String (set_valuestring (Some (c_str out)) it),
                                p\<lparr>offset := offset p + 1 + n + 1\<rparr>, m1)
                     else None }))"
    by (simp only: parse_string_def char_at_Some [OF assms] quote bind.bind_lunit Let_def cs_def simp_thms if_False)
  show ?thesis
  proof (cases "scan_quote cs")
    case None
    then show ?thesis using unf by (simp del: ex_bool_eq) blast
  next
    case (Some r)
    then obtain n sk where r: "scan_quote cs = Some (n, sk)" by (cases r) auto
    from scan_quote_Some [OF r]
    have n: "n < length cs" "cs ! n = CHR 0x22" "sk = escapes False (take n cs)" "\<not> in_escape False (take n cs)"
      by auto
    have "sk \<le> n" using n(1,3) escapes_le [of False "take n cs"] by simp
    then have "length [] + (n - escapes False (take n cs)) < n + 1 - sk + 1" using n(3) by simp
    from unescape_fits [OF n(1,2,4) this] obtain dn out ip where
      un: "unescape (n + 1 - sk + 1) n cs [] (offset p + 1) = Some (dn, out, ip)" "length out < n + 1 - sk + 1"
      by blast
    have "content p ! (offset p + 1 + n) = CHR 0x22" "offset p + 1 + n < length (content p)"
      using n(1,2) assms by (auto simp: cs_def wf_buf_def)
    then have next_ok: "offset p + 1 + n + 1 < length (content p)"
      using wf_last [OF assms, of "offset p + 1 + n"] by simp
    obtain ok m1 where m1: "malloc m = (ok, m1)" by (cases "malloc m")
    note live1 = malloc_live [OF m1]
    show ?thesis
    proof (cases "ok \<and> dn")
      case True
      have "parse_string it p m = Some (True, set_type cJSON_String (set_valuestring (Some (c_str out)) it),
              p\<lparr>offset := offset p + 1 + n + 1\<rparr>, m1)"
        using unf r m1 un True by simp
      moreover have "wf_buf (p\<lparr>offset := offset p + 1 + n + 1\<rparr>)" using assms next_ok by (simp add: wf_buf_def)
      ultimately show ?thesis using live1 True by (auto simp del: ex_bool_eq)
    next
      case False
      then have "parse_string it p m = Some (False, it, if ok then p\<lparr>offset := ip\<rparr> else advance 1 p,
              if ok then c_free 1 m1 else m1)"
        using unf r m1 un by simp
      then show ?thesis using live1 by (cases ok) (simp_all del: ex_bool_eq, blast+)
    qed
  qed
qed

lemma saturate_total: "d \<noteq> NaN \<Longrightarrow> saturate d \<noteq> None"
proof (cases d)
  case (Fin sg r)
  then show ?thesis
    by (cases sg) (auto simp: saturate_def int_range_def Let_def not_le floor_less_iff le_floor_iff less_imp_le, linarith+)
qed (auto simp: saturate_def)

lemma sign_of_le: "snd (sign_of s) \<le> length s"
  by (auto simp: sign_of_def split: list.splits)

lemma exp_part_le: "snd (exp_part s) \<le> length s"
proof (cases s)
  case (Cons c t)
  obtain neg k where sg: "sign_of t = (neg, k)" by (cases "sign_of t")
  then have "k + length (takeWhile is_digit (drop k t)) \<le> length t"
    using sign_of_le [of t] length_takeWhile_le [of is_digit "drop k t"] by simp
  then show ?thesis using Cons sg by (simp add: exp_part_def Let_def)
qed (simp add: exp_part_def)

lemma decimal_le:
  assumes "decimal s = Some (r, l)"
  shows "l \<le> length s"
proof -
  define ip r1 where "ip = takeWhile is_digit s" and "r1 = drop (length ip) s"
  obtain fp k where fk: "(case r1 of [] \<Rightarrow> ([], 0) | c # t \<Rightarrow>
       if c = CHR ''.'' then (takeWhile is_digit t, 1 + length (takeWhile is_digit t)) else ([], 0)) = (fp, k)"
    by (rule prod.exhaust)
  have k: "k \<le> length r1" using fk length_takeWhile_le [of is_digit "tl r1"] by (cases r1) (auto split: if_splits)
  obtain ex l' where ex: "exp_part (drop k r1) = (ex, l')" by (cases "exp_part (drop k r1)")
  then have l': "l' \<le> length (drop k r1)" using exp_part_le [of "drop k r1"] by simp
  have "length ip \<le> length s" by (simp add: ip_def length_takeWhile_le)
  moreover have "decimal s = (if ip = [] \<and> fp = [] then None else
      Some (of_int (dec_val (ip @ fp)) * pow10 (ex - int (length fp)), length ip + k + l'))"
    by (simp only: decimal_def Let_def ip_def [symmetric] r1_def [symmetric] fk ex prod.case)
  then have "l = length ip + k + l'" using assms by (simp split: if_splits)
  ultimately show ?thesis using k l' by (simp add: r1_def)
qed

lemma lower_E: "lower (CHR ''E'') = CHR ''e''"
  by code_simp

lemma number_char_not:
  assumes "is_number_char c"
  shows "c \<noteq> NUL" "lower c \<noteq> CHR ''i''" "lower c \<noteq> CHR ''n''" "lower c \<noteq> CHR ''x''" "\<not> is_space c"
  using assms lower_E by (auto simp: is_number_char_def is_digit_def is_space_def) (auto simp: lower_def)

lemma strtod_number_chars:
  assumes "\<forall>c\<in>set s. is_number_char c" "strtod s = (d, k)"
  shows "d \<noteq> NaN \<and> k \<le> length s"
proof -
  have ws: "takeWhile is_space s = []" using assms(1) number_char_not(5) by (cases s) auto
  obtain neg j where sg: "sign_of s = (neg, j)" by (cases "sign_of s")
  define t where "t = drop j s"
  have t: "\<forall>c\<in>set t. is_number_char c" using assms(1) by (auto simp: t_def dest: in_set_dropD)
  have sp: "special neg t = None" using t number_char_not by (cases t) (auto simp: special_def)
  have hx: "hexadecimal t = None"
    using t number_char_not(4) by (cases t; cases "tl t") (auto simp: hexadecimal_def)
  have "j \<le> length s" using sign_of_le [of s] sg by simp
  moreover have "l \<le> length t" if "decimal t = Some (r, l)" for r l using that by (rule decimal_le)
  ultimately show ?thesis
    using assms(2) ws sg sp hx
    by (auto simp: strtod_def t_def [symmetric] mk_double_def split: option.splits if_splits)
      (simp_all add: t_def)
qed

lemma parse_number_total:
  assumes "wf_buf p"
  shows "\<exists>ok it' p'. parse_number it p = Some (ok, it', p') \<and>
     content p' = content p \<and> depth p' = depth p \<and>
     (ok \<longrightarrow> wf_buf p' \<and> offset p < offset p' \<and> (\<exists>n d. it' = set_type cJSON_Number (set_number n d it))) \<and>
     (\<not> ok \<longrightarrow> it' = it)"
proof -
  define cs where "cs = takeWhile is_number_char (take 63 (drop (offset p) (content p)))"
  obtain d k where dk: "strtod cs = (d, k)" by (cases "strtod cs")
  have chars: "\<forall>c\<in>set cs. is_number_char c" by (auto simp: cs_def dest: set_takeWhileD)
  from strtod_number_chars [OF chars dk] have "d \<noteq> NaN" and k: "k \<le> length cs" by auto
  then obtain n where n: "saturate d = Some n" using saturate_total by blast
  have num: "parse_number it p =
      (if k = 0 then Some (False, it, p) else Some (True, set_type cJSON_Number (set_number n d it), advance k p))"
    using dk n by (simp add: parse_number_def cs_def [symmetric])
  show ?thesis
  proof (cases "k = 0")
    case True
    then show ?thesis using num by (simp del: ex_bool_eq) blast
  next
    case False
    then have last: "cs ! (k - 1) \<noteq> NUL" "k - 1 < length cs" using chars k number_char_not(1) by auto
    have pre: "cs = take (length cs) (drop (offset p) (content p))"
      using takeWhile_eq_take [of is_number_char "take 63 (drop (offset p) (content p))"]
      by (metis cs_def length_take min.absorb1 min.cobounded2 take_take length_takeWhile_le)
    then have "offset p + (k - 1) < length (content p) \<and> content p ! (offset p + (k - 1)) = cs ! (k - 1)"
      using last(2) assms
      by (metis length_drop length_take less_diff_conv min_less_iff_conj nth_drop nth_take wf_buf_def less_imp_le
          add.commute)
    then have "Suc (offset p + (k - 1)) < length (content p)" using wf_last [OF assms] last(1) by metis
    then have "wf_buf (advance k p)" using assms False by (auto simp: wf_buf_def)
    then show ?thesis using num False by (auto simp del: ex_bool_eq)
  qed
qed

declare ex_bool_eq [simp del]

text \<open>An item that does not own a text or children yet.\<close>

definition fresh :: "cJSON \<Rightarrow> bool" where
  "fresh it \<longleftrightarrow> child it = [] \<and> valuestring it = None \<and> \<not> is_ref it \<and> \<not> is_const it"

definition value_good :: "(bool \<times> cJSON \<times> parse_buffer \<times> mem) option \<Rightarrow> cJSON \<Rightarrow> parse_buffer \<Rightarrow> mem \<Rightarrow> bool" where
  "value_good r it p m \<longleftrightarrow>
     (\<exists>ok it' p' m'. r = Some (ok, it', p', m') \<and> content p' = content p \<and>
        (ok \<longrightarrow> wf_buf p' \<and> offset p < offset p') \<and> live m' - blocks it' = live m - blocks it)"

definition loop_good :: "(bool \<times> cJSON list \<times> parse_buffer \<times> mem) option \<Rightarrow> cJSON list \<Rightarrow> parse_buffer \<Rightarrow> mem \<Rightarrow> bool" where
  "loop_good r es p m \<longleftrightarrow>
     (\<exists>ok es' p' m'. r = Some (ok, es', p', m') \<and> content p' = content p \<and>
        (ok \<longrightarrow> wf_buf p' \<and> offset p < offset p') \<and> live m' - blocks_list es' = live m - blocks_list es)"

lemma value_goodI:
  assumes "r = Some (ok, it', p', m')" "content p' = content p" "ok \<Longrightarrow> wf_buf p' \<and> offset p < offset p'"
    "live m' - blocks it' = live m - blocks it"
  shows "value_good r it p m"
  using assms unfolding value_good_def by blast

lemma loop_goodI:
  assumes "r = Some (ok, es', p', m')" "content p' = content p" "ok \<Longrightarrow> wf_buf p' \<and> offset p < offset p'"
    "live m' - blocks_list es' = live m - blocks_list es"
  shows "loop_good r es p m"
  using assms unfolding loop_good_def by blast

lemma type_bits [simp]:
  "cJSON_NULL AND cJSON_IsReference = 0" "cJSON_False AND cJSON_IsReference = 0" "cJSON_True AND cJSON_IsReference = 0"
  "cJSON_Number AND cJSON_IsReference = 0" "cJSON_String AND cJSON_IsReference = 0"
  "cJSON_Array AND cJSON_IsReference = 0" "cJSON_Object AND cJSON_IsReference = 0" "cJSON_Raw AND cJSON_IsReference = 0"
  "cJSON_NULL AND cJSON_StringIsConst = 0" "cJSON_False AND cJSON_StringIsConst = 0" "cJSON_True AND cJSON_StringIsConst = 0"
  "cJSON_Number AND cJSON_StringIsConst = 0" "cJSON_String AND cJSON_StringIsConst = 0"
  "cJSON_Array AND cJSON_StringIsConst = 0" "cJSON_Object AND cJSON_StringIsConst = 0" "cJSON_Raw AND cJSON_StringIsConst = 0"
  by (simp_all add: cjson_type_defs)

lemma blocks_set_type:
  "fresh it \<Longrightarrow> t AND cJSON_IsReference = 0 \<Longrightarrow> t AND cJSON_StringIsConst = 0 \<Longrightarrow>
     blocks (set_child es (set_type t it)) = blocks it + blocks_list es"
  by (cases it) (auto simp: fresh_def)

lemma blocks_set_type':
  "fresh it \<Longrightarrow> t AND cJSON_IsReference = 0 \<Longrightarrow> t AND cJSON_StringIsConst = 0 \<Longrightarrow> blocks (set_type t it) = blocks it"
  by (cases it) (auto simp: fresh_def)

lemma blocks_set_number [simp]: "blocks (set_number n d it) = blocks it"
  by (cases it) auto

lemma fresh_set_number [simp]: "fresh (set_number n d it) = fresh it"
  by (cases it) (simp add: fresh_def)

lemma fresh_blank [simp]: "fresh blank" "blocks blank = 1"
  by (simp_all add: fresh_def blank_def)

lemma blocks_set_valuestring:
  "fresh it \<Longrightarrow> blocks (set_type cJSON_String (set_valuestring (Some s) it)) = blocks it + 1"
  by (cases it) (auto simp: fresh_def)

lemma bracket_char:
  assumes "wf_buf p" "looking_at p c" "c \<noteq> NUL"
  shows "wf_buf (p\<lparr>offset := offset p + 1, depth := d\<rparr>)"
  using wf_last [of p "offset p"] looking_at_wf [OF assms(1)] assms by (auto simp: wf_buf_def)

lemma parse_items_total:
  assumes "wf_buf p" "content p ! offset p \<noteq> NUL" "fresh it" "close \<noteq> NUL"
    and t: "t AND cJSON_IsReference = 0" "t AND cJSON_StringIsConst = 0"
    and loop: "\<And>q. content q = content p \<Longrightarrow> offset p \<le> offset q \<Longrightarrow> Suc (offset q) < length (content q) \<Longrightarrow>
      loop_good (loop q m) [] q m"
  shows "value_good (parse_items close t loop it p m) it p m"
proof -
  have wf: "Suc (offset p) < length (content p)"
    using wf_last [OF assms(1) _ assms(2)] assms(1) by (simp add: wf_buf_def)
  define p1 where "p1 = buffer_skip_whitespace (advance 1 p)"
  have p1: "wf_buf p1" "content p1 = content p" "offset p < offset p1"
    using skip_ws [of "advance 1 p"] assms(1) wf by (auto simp: p1_def wf_buf_def)
  have acc: "can_access_at_index p1 0" using p1(1) by (simp add: can_access_at_index_def wf_buf_def)
  have unf: "parse_items close t loop it p m =
      (if looking_at p1 close
       then Some (True, set_child [] (set_type t it), p1\<lparr>offset := offset p1 + 1, depth := depth p1 - 1\<rparr>, m)
       else do { (ok, es, p2, m2) \<leftarrow> loop (p1\<lparr>offset := offset p1 - 1\<rparr>) m;
                 if ok \<and> looking_at p2 close
                 then Some (True, set_child es (set_type t it), p2\<lparr>offset := offset p2 + 1, depth := depth p2 - 1\<rparr>, m2)
                 else Some (False, it, p2, delete_chain es m2) })"
    by (simp only: parse_items_def Let_def p1_def [symmetric] acc simp_thms if_False)
  show ?thesis
  proof (cases "looking_at p1 close")
    case True
    show ?thesis
      by (rule value_goodI [OF unf [unfolded if_P [OF True]]])
        (use p1 bracket_char [OF p1(1) True assms(4)] blocks_set_type [OF assms(3) t, of "[]"] in auto)
  next
    case no_end: False
    have "loop_good (loop (p1\<lparr>offset := offset p1 - 1\<rparr>) m) [] (p1\<lparr>offset := offset p1 - 1\<rparr>) m"
      by (rule loop) (use p1 in \<open>auto simp: wf_buf_def\<close>)
    then obtain ok es p2 m2 where l: "loop (p1\<lparr>offset := offset p1 - 1\<rparr>) m = Some (ok, es, p2, m2)"
      "content p2 = content p" "ok \<longrightarrow> wf_buf p2 \<and> offset p1 \<le> offset p2" "live m2 - blocks_list es = live m"
      using p1 unfolding loop_good_def by fastforce
    show ?thesis
    proof (cases "ok \<and> looking_at p2 close")
      case True
      then have "parse_items close t loop it p m =
          Some (True, set_child es (set_type t it), p2\<lparr>offset := offset p2 + 1, depth := depth p2 - 1\<rparr>, m2)"
        using unf no_end l(1) by simp
      then show ?thesis
        by (rule value_goodI)
          (use True l p1 bracket_char [of p2 close] assms(4) blocks_set_type [OF assms(3) t, of es] in auto)
    next
      case False
      then have "parse_items close t loop it p m = Some (False, it, p2, delete_chain es m2)"
        using unf no_end l(1) by auto
      then show ?thesis by (rule value_goodI) (use l in auto)
    qed
  qed
qed

lemma value_good_depth: "value_good r it (p\<lparr>depth := d\<rparr>) m = value_good r it p m"
  by (simp add: value_good_def)

lemma wf_buf_depth [simp]: "wf_buf (p\<lparr>depth := d\<rparr>) = wf_buf p"
  by (simp add: wf_buf_def)

lemma looking_at_depth [simp]: "looking_at (p\<lparr>depth := d\<rparr>) c = looking_at p c"
  by (simp add: looking_at_def can_access_at_index_def char_at_def)

lemma parse_array_total:
  assumes "wf_buf p" "fresh it"
    and loop: "\<And>q. content q = content p \<Longrightarrow> offset p \<le> offset q \<Longrightarrow> Suc (offset q) < length (content q) \<Longrightarrow>
      loop_good (loop q m) [] q m"
  shows "value_good (parse_array loop it p m) it p m"
proof (cases "CJSON_NESTING_LIMIT \<le> depth p \<or> content p ! offset p \<noteq> CHR ''[''")
  case True
  show ?thesis
    by (rule value_goodI [of _ False it "if CJSON_NESTING_LIMIT \<le> depth p then p else p\<lparr>depth := Suc (depth p)\<rparr>" m])
      (use True assms(1) in \<open>auto simp: parse_array_def Let_def\<close>)
next
  case False
  then have "parse_array loop it p m = parse_items (CHR '']'') cJSON_Array loop it (p\<lparr>depth := depth p + 1\<rparr>) m"
    using assms(1) by (simp add: parse_array_def Let_def)
  then show ?thesis
    using parse_items_total [of "p\<lparr>depth := depth p + 1\<rparr>" it "CHR '']''" cJSON_Array loop m] assms False
    by (simp add: value_good_depth)
qed

lemma parse_object_total:
  assumes "wf_buf p" "fresh it"
    and loop: "\<And>q. content q = content p \<Longrightarrow> offset p \<le> offset q \<Longrightarrow> Suc (offset q) < length (content q) \<Longrightarrow>
      loop_good (loop q m) [] q m"
  shows "value_good (parse_object loop it p m) it p m"
proof (cases "CJSON_NESTING_LIMIT \<le> depth p \<or> content p ! offset p \<noteq> CHR ''{''")
  case True
  show ?thesis
    by (rule value_goodI [of _ False it "if CJSON_NESTING_LIMIT \<le> depth p then p else p\<lparr>depth := Suc (depth p)\<rparr>" m])
      (use True assms(1) in \<open>auto simp: parse_object_def Let_def looking_at_wf\<close>)
next
  case False
  then have "parse_object loop it p m = parse_items (CHR ''}'') cJSON_Object loop it (p\<lparr>depth := depth p + 1\<rparr>) m"
    using assms(1) by (simp add: parse_object_def Let_def looking_at_wf)
  then show ?thesis
    using parse_items_total [of "p\<lparr>depth := depth p + 1\<rparr>" it "CHR ''}''" cJSON_Object loop m] assms False
    by (simp add: value_good_depth)
qed

lemma literal_wf:
  assumes "wf_buf p" "literal_at p w" "is_cstr w" "w \<noteq> []"
  shows "wf_buf (advance (length w) p)"
proof -
  define k where "k = length w - 1"
  have k: "length w = Suc k" using assms(4) by (cases w) (simp_all add: k_def)
  have fit: "offset p + length w \<le> length (content p)" and w: "take (length w) (drop (offset p) (content p)) = w"
    using assms(2) by (simp_all add: literal_at_def can_read_def)
  have "content p ! (offset p + k) = w ! k"
    using fit w k by (metis add_leD1 lessI nth_drop nth_take)
  moreover have "w ! k \<noteq> NUL" using assms(3) k by (metis is_cstr_def lessI nth_mem)
  ultimately show ?thesis using wf_last [OF assms(1), of "offset p + k"] fit k assms(1) by (auto simp: wf_buf_def)
qed

lemma value_literal:
  assumes "wf_buf p" "literal_at p w" "is_cstr w" "w \<noteq> []" "fresh it" "fresh it0" "blocks it0 = blocks it"
    and "t AND cJSON_IsReference = 0" "t AND cJSON_StringIsConst = 0"
  shows "value_good (Some (True, set_type t it0, advance (length w) p, m)) it p m"
  by (rule value_goodI [OF refl]) (use assms literal_wf [OF assms(1-4)] blocks_set_type' [of it0 t] in auto)

lemma parse_string_good:
  assumes "wf_buf p" "fresh it"
  shows "value_good (parse_string it p m) it p m"
proof -
  obtain ok it' p' m' where r: "parse_string it p m = Some (ok, it', p', m')" "content p' = content p"
    "ok \<longrightarrow> wf_buf p' \<and> offset p < offset p' \<and> live m' = live m + 1 \<and>
        (\<exists>s. is_cstr s \<and> it' = set_type cJSON_String (set_valuestring (Some s) it))"
    "\<not> ok \<longrightarrow> it' = it \<and> live m' = live m"
    using parse_string_total [OF assms(1), of it m] by blast
  show ?thesis
    by (rule value_goodI [OF r(1,2)]) (use r(3,4) blocks_set_valuestring [OF assms(2)] in \<open>cases ok; auto\<close>)+
qed

lemma parse_number_good:
  assumes "wf_buf p" "fresh it"
  shows "value_good (do { (ok, it', p') \<leftarrow> parse_number it p; Some (ok, it', p', m) }) it p m"
proof -
  obtain ok it' p' where r: "parse_number it p = Some (ok, it', p')" "content p' = content p"
     "ok \<longrightarrow> wf_buf p' \<and> offset p < offset p' \<and> (\<exists>n d. it' = set_type cJSON_Number (set_number n d it))"
     "\<not> ok \<longrightarrow> it' = it"
    using parse_number_total [OF assms(1), of it] by blast
  show ?thesis
    by (rule value_goodI [of _ ok it' p' m])
      (use r assms(2) blocks_set_type' [of "set_number _ _ it" cJSON_Number] in \<open>cases ok; auto\<close>)+
qed

abbreviation left :: "parse_buffer \<Rightarrow> nat" where
  "left p \<equiv> length (content p) - offset p"

lemma parse_total:
  "(\<forall>it p m. wf_buf p \<longrightarrow> fresh it \<longrightarrow> 2 * left p + 1 \<le> f \<longrightarrow> value_good (parse_value f it p m) it p m) \<and>
   (\<forall>es p m. wf_buf p \<longrightarrow> Suc (offset p) < length (content p) \<longrightarrow> 2 * left p \<le> f \<longrightarrow>
      loop_good (parse_elements f es p m) es p m \<and> loop_good (parse_members f es p m) es p m)"
proof (induction f)
  case 0
  then show ?case by (auto simp: wf_buf_def)
next
  case (Suc f)
  have value_IH: "value_good (parse_value f it p m) it p m" if "wf_buf p" "fresh it" "2 * left p + 1 \<le> f" for it p m
    using Suc.IH that by blast
  have loop_IH: "loop_good (parse_elements f es p m) es p m" "loop_good (parse_members f es p m) es p m"
    if "wf_buf p" "Suc (offset p) < length (content p)" "2 * left p \<le> f" for es p m
    using Suc.IH that by blast+
  show ?case
  proof (intro conjI allI impI)
    fix it p m
    assume p: "wf_buf p" and it: "fresh it" and fuel: "2 * left p + 1 \<le> Suc f"
    have elements: "loop_good (parse_elements f [] q m) [] q m" and members: "loop_good (parse_members f [] q m) [] q m"
      if "content q = content p" "offset p \<le> offset q" "Suc (offset q) < length (content q)" for q
      using that p fuel by (auto simp: wf_buf_def intro!: loop_IH)
    have null: "value_good (Some (True, set_type cJSON_NULL it, advance 4 p, m)) it p m" if "literal_at p ''null''"
      using value_literal [OF p that _ _ it it, of cJSON_NULL m] by (simp add: numeral_eq_Suc)
    have fls: "value_good (Some (True, set_type cJSON_False it, advance 5 p, m)) it p m" if "literal_at p ''false''"
      using value_literal [OF p that _ _ it it, of cJSON_False m] by (simp add: numeral_eq_Suc)
    have tru: "value_good (Some (True, set_type cJSON_True (set_number 1 (valuedouble it) it), advance 4 p, m)) it p m"
      if "literal_at p ''true''"
      using value_literal [OF p that _ _ it, of "set_number 1 (valuedouble it) it" cJSON_True m] it by (simp add: numeral_eq_Suc)
    have bad: "value_good (Some (False, it, p, m)) it p m" by (rule value_goodI [OF refl]) auto
    show "value_good (parse_value (Suc f) it p m) it p m"
      unfolding parse_value.simps(2)
      using null fls tru bad parse_string_good [OF p it, of m] parse_number_good [OF p it, of m]
        parse_array_total [OF p it, of "\<lambda>q n. parse_elements f [] q n" m, OF elements]
        parse_object_total [OF p it, of "\<lambda>q n. parse_members f [] q n" m, OF members]
      by presburger
  next
    fix es p m
    assume p: "wf_buf p" and room: "Suc (offset p) < length (content p)" and fuel: "2 * left p \<le> Suc f"
    note sk = skip_ws [of "advance 1 p"]
    define q where "q = buffer_skip_whitespace (advance 1 p)"
    have q: "wf_buf q" "content q = content p" "offset p < offset q" "2 * left q + 1 \<le> f"
      using sk p room fuel by (auto simp: q_def wf_buf_def)
    show "loop_good (parse_elements (Suc f) es p m) es p m"
    proof (cases rule: New_Item_cases [of m])
      case (1 m1)
      then show ?thesis by (intro loop_goodI [of _ False es p m1]) auto
    next
      case (2 m1)
      obtain ok it' p2 m2 where v: "parse_value f blank q m1 = Some (ok, it', p2, m2)" "content p2 = content p"
        "ok \<longrightarrow> wf_buf p2 \<and> offset q < offset p2" "live m2 - blocks it' = live m1 - 1"
        using value_IH [OF q(1) fresh_blank(1) q(4), of m1] q(2) unfolding value_good_def by auto
      define p3 where "p3 = buffer_skip_whitespace p2"
      have unf: "parse_elements (Suc f) es p m =
          (if \<not> ok then Some (False, es @ [it'], p2, m2)
           else if looking_at p3 (CHR '','') then parse_elements f (es @ [it']) p3 m2
           else Some (True, es @ [it'], p3, m2))"
        using 2(1) v(1) by (simp add: q_def p3_def Let_def)
      have bal: "live m2 - blocks_list (es @ [it']) = live m - blocks_list es" using v(4) 2(2) by simp
      show ?thesis
      proof (cases ok)
        case False
        then show ?thesis using unf v bal by (intro loop_goodI [of _ False "es @ [it']" p2 m2]) auto
      next
        case True
        then have p3: "wf_buf p3" "content p3 = content p" "offset p < offset p3"
          using skip_ws [of p2] v q(3) by (auto simp: p3_def wf_buf_def)
        show ?thesis
        proof (cases "looking_at p3 (CHR '','')")
          case comma: True
          then have "Suc (offset p3) < length (content p3)"
            using wf_last [OF p3(1), of "offset p3"] looking_at_wf [OF p3(1)] p3(1) by (simp add: wf_buf_def)
          moreover have "2 * left p3 \<le> f" using p3 q(2-4) fuel p by (auto simp: wf_buf_def)
          ultimately have "loop_good (parse_elements f (es @ [it']) p3 m2) (es @ [it']) p3 m2" using loop_IH(1) p3(1) by blast
          then show ?thesis using unf True comma bal p3(2,3) unfolding loop_good_def by fastforce
        next
          case False
          then show ?thesis using unf True p3 bal by (intro loop_goodI [of _ True "es @ [it']" p3 m2]) auto
        qed
      qed
    qed
    show "loop_good (parse_members (Suc f) es p m) es p m"
    proof (cases rule: New_Item_cases [of m])
      case (1 m1)
      then show ?thesis by (intro loop_goodI [of _ False es p m1]) auto
    next
      case new: (2 m1)
      obtain ok it1 p2 m2 where st: "parse_string blank q m1 = Some (ok, it1, p2, m2)" "content p2 = content p"
        "ok \<longrightarrow> wf_buf p2 \<and> offset q < offset p2 \<and> live m2 = live m1 + 1 \<and>
           (\<exists>s. is_cstr s \<and> it1 = set_type cJSON_String (set_valuestring (Some s) blank))"
        "\<not> ok \<longrightarrow> it1 = blank \<and> live m2 = live m1"
        using parse_string_total [OF q(1), of blank m1] unfolding q(2) by blast
      define p3 it2 where "p3 = buffer_skip_whitespace p2" and "it2 = set_valuestring None (set_jstring (valuestring it1) it1)"
      have unf: "parse_members (Suc f) es p m =
          (if \<not> ok then Some (False, es @ [it1], p2, m2)
           else if \<not> looking_at p3 (CHR '':'') then Some (False, es @ [it2], p3, m2)
           else do { (ok3, it3, p4, m3) \<leftarrow> parse_value f it2 (buffer_skip_whitespace (advance 1 p3)) m2;
                     if \<not> ok3 then Some (False, es @ [it3], p4, m3)
                     else (let p5 = buffer_skip_whitespace p4 in
                           if looking_at p5 (CHR '','') then parse_members f (es @ [it3]) p5 m3
                           else Some (True, es @ [it3], p5, m3)) })"
        using new(1) st(1) by (simp add: q_def p3_def it2_def Let_def)
      show ?thesis
      proof (cases ok)
        case False
        then show ?thesis using unf st new by (intro loop_goodI [of _ False "es @ [it1]" p2 m2]) auto
      next
        case True
        then have p3: "wf_buf p3" "content p3 = content p" "offset p < offset p3"
          using skip_ws [of p2] st q(3) by (auto simp: p3_def wf_buf_def)
        have it2: "fresh it2" "blocks it2 = 2" "live m2 = live m + 2"
          using st(3) True new(2) by (auto simp: it2_def fresh_def blank_def)
        show ?thesis
        proof (cases "looking_at p3 (CHR '':'')")
          case no_colon: False
          show ?thesis
            by (rule loop_goodI [of _ False "es @ [it2]" p3 m2]) (use unf True no_colon p3 it2 in auto)
        next
          case colon: True
          define q4 where "q4 = buffer_skip_whitespace (advance 1 p3)"
          have "Suc (offset p3) < length (content p3)"
            using colon wf_last [OF p3(1), of "offset p3"] looking_at_wf [OF p3(1)] p3(1) by (simp add: wf_buf_def)
          then have q4: "wf_buf q4" "content q4 = content p" "offset p3 < offset q4"
            using skip_ws [of "advance 1 p3"] p3 by (auto simp: q4_def wf_buf_def)
          moreover have "2 * left q4 + 1 \<le> f" using q4 p3 fuel p by (auto simp: wf_buf_def)
          ultimately obtain ok3 it3 p4 m3 where v: "parse_value f it2 q4 m2 = Some (ok3, it3, p4, m3)"
            "content p4 = content p" "ok3 \<longrightarrow> wf_buf p4 \<and> offset q4 < offset p4" "live m3 - blocks it3 = live m2 - 2"
            using value_IH [OF q4(1) it2(1), of m2] it2(2) unfolding value_good_def by auto
          define p5 where "p5 = buffer_skip_whitespace p4"
          have unf2: "parse_members (Suc f) es p m =
              (if \<not> ok3 then Some (False, es @ [it3], p4, m3)
               else if looking_at p5 (CHR '','') then parse_members f (es @ [it3]) p5 m3
               else Some (True, es @ [it3], p5, m3))"
            using unf True colon v(1) by (simp add: q4_def p5_def Let_def)
          have bal: "live m3 - blocks_list (es @ [it3]) = live m - blocks_list es" using v(4) it2(3) by simp
          show ?thesis
          proof (cases ok3)
            case False
            then show ?thesis using unf2 v bal by (intro loop_goodI [of _ False "es @ [it3]" p4 m3]) auto
          next
            case ok3: True
            then have p5: "wf_buf p5" "content p5 = content p" "offset p < offset p5"
              using skip_ws [of p4] v q4 p3 by (auto simp: p5_def wf_buf_def)
            show ?thesis
            proof (cases "looking_at p5 (CHR '','')")
              case comma: True
              then have "Suc (offset p5) < length (content p5)"
                using wf_last [OF p5(1), of "offset p5"] looking_at_wf [OF p5(1)] p5(1) by (simp add: wf_buf_def)
              moreover have "2 * left p5 \<le> f" using p5 fuel p by (auto simp: wf_buf_def)
              ultimately have "loop_good (parse_members f (es @ [it3]) p5 m3) (es @ [it3]) p5 m3"
                using loop_IH(2) p5(1) by blast
              then show ?thesis using unf2 ok3 comma bal p5(2,3) unfolding loop_good_def by fastforce
            next
              case False
              then show ?thesis using unf2 ok3 p5 bal by (intro loop_goodI [of _ True "es @ [it3]" p5 m3]) auto
            qed
          qed
        qed
      qed
    qed
  qed
qed

lemma parse_value_total:
  assumes "wf_buf p" "fresh it" "2 * left p + 1 \<le> f"
  shows "value_good (parse_value f it p m) it p m"
  using parse_total assms by blast

subsection \<open>Properties\<close>

lemma parse_safe_lemma:
  assumes "case json of None \<Rightarrow> True | Some s \<Rightarrow> is_cstr s"
  shows "\<exists>r e m'. cJSON_ParseWithOpts json nul m = Some (r, e, m') \<and>
           (\<forall>s. json = Some s \<longrightarrow> e \<le> length s) \<and> live (cJSON_Delete r m') = live m"
proof (cases json)
  case None
  then show ?thesis by (simp add: cJSON_ParseWithOpts_def cJSON_Delete_def)
next
  case (Some s)
  define p0 where "p0 = \<lparr>content = s @ [NUL], offset = 0, depth = 0\<rparr>"
  have p0: "\<exists>s. is_cstr s \<and> content p0 = s @ [NUL]" "offset p0 = 0" "content p0 = s @ [NUL]"
    using assms Some by (auto simp: p0_def)
  obtain p1 where p1: "skip_utf8_bom p0 = Some p1" "content p1 = content p0" "offset p1 < length (content p0)"
  proof -
    define p1 where "p1 = (if 3 < length s \<and> take 3 (content p0) = [CHR 0xEF, CHR 0xBB, CHR 0xBF] then advance 3 p0 else p0)"
    have "skip_utf8_bom p0 = Some p1" "content p1 = content p0" "offset p1 < length (content p0)"
      using p0 by (auto simp: skip_utf8_bom_def can_access_at_index_def p1_def)
    then show thesis by (rule that)
  qed
  define q where "q = buffer_skip_whitespace p1"
  have q: "wf_buf q" "content q = s @ [NUL]" using skip_ws [of p1] p0 p1 by (auto simp: q_def)
  show ?thesis
  proof (cases rule: New_Item_cases [of m])
    case (1 m1)
    then show ?thesis using Some p0 by (simp add: cJSON_ParseWithOpts_def cJSON_Delete_def)
  next
    case (2 m1)
    have "2 * left q + 1 \<le> parse_fuel (s @ [NUL])" using q by (simp add: parse_fuel_def)
    from parse_value_total [OF q(1) fresh_blank(1) this, of m1] obtain ok it' p2 m2 where
      v: "parse_value (parse_fuel (s @ [NUL])) blank q m1 = Some (ok, it', p2, m2)" "content p2 = s @ [NUL]"
        "ok \<longrightarrow> wf_buf p2" "live m2 - blocks it' = live m"
      using 2(2) q(2) unfolding value_good_def by auto
    define p3 where "p3 = (if nul then buffer_skip_whitespace p2 else p2)"
    have p3: "ok \<longrightarrow> wf_buf p3 \<and> content p3 = s @ [NUL]"
      using skip_ws [of p2] v(2,3) by (auto simp: p3_def wf_buf_def)
    have unf: "cJSON_ParseWithOpts json nul m =
        (let err = (\<lambda>p. if offset p < length (content p) then offset p else length (content p) - 1) in
         if \<not> ok then Some (None, err p2, cJSON_Delete (Some it') m2)
         else if nul \<and> \<not> looking_at p3 NUL then Some (None, err p3, cJSON_Delete (Some it') m2)
         else Some (Some it', offset p3, m2))"
      using Some 2(1) p1(1) v(1)
      by (simp add: cJSON_ParseWithOpts_def p0_def [symmetric] q_def p3_def Let_def)
    show ?thesis
      using unf v(2,4) p3 Some by (auto simp: Let_def cJSON_Delete_def wf_buf_def split: if_splits)
  qed
qed

text \<open>C1: the parser is memory safe and terminates: on every C string and whatever allocations fail, it
  returns (it never leaves the text or a block it allocated), the end or error position it reports
  lies in the text, and what it allocated is exactly what deleting the returned item gives back; a
  parse that fails leaks nothing.\<close>

theorem parse_safe:
  assumes "case json of None \<Rightarrow> True | Some s \<Rightarrow> is_cstr s"
  shows "\<exists>r e m'. cJSON_ParseWithOpts json nul m = Some (r, e, m') \<and>
           (\<forall>s. json = Some s \<longrightarrow> e \<le> length s) \<and> live (cJSON_Delete r m') = live m"
  by (rule parse_safe_lemma [OF assms])

text \<open>C23: reading a string literal never writes outside its block, of \<open>allocation_length + 1\<close> bytes: not
  even when the two passes over the text disagree about where its escapes are.\<close>

theorem string_literal_in_block:
  assumes "scan_quote cs = Some (n, skipped)"
  shows "\<exists>done out ip'. unescape (n + 1 - skipped + 1) n cs [] ip = Some (done, out, ip') \<and>
           length out < n + 1 - skipped + 1"
proof -
  from scan_quote_Some [OF assms]
  have n: "n < length cs" "cs ! n = CHR 0x22" "skipped = escapes False (take n cs)" "\<not> in_escape False (take n cs)"
    by auto
  have "skipped \<le> n" using n(1,3) escapes_le [of False "take n cs"] by simp
  then have "length [] + (n - escapes False (take n cs)) < n + 1 - skipped + 1" using n(3) by simp
  from unescape_fits [OF n(1,2,4) this] show ?thesis by blast
qed

text \<open>A Unicode escape whose digits are not hexadecimal is not an error: it is read as the character
  NUL, which ends the string that the users of the item see.\<close>

theorem bad_hex_accepted:
  assumes "content p = [CHR 0x22, CHR 0x5C, CHR ''u'', a, b, c, d, CHR 0x22] @ rest" "offset p = 0"
    and "hex_val a = None" "\<forall>x\<in>{a, b, c, d}. x \<noteq> CHR 0x22 \<and> x \<noteq> CHR 0x5C" "reliable m"
  shows "\<exists>m'. parse_string it p m =
     Some (True, set_type cJSON_String (set_valuestring (Some []) it), p\<lparr>offset := 8\<rparr>, m')"
proof -
  obtain m1 where m1: "malloc m = (True, m1)" using assms(5) reliable_malloc [of m] by (metis prod.collapse)
  have at: "char_at p = Some (CHR 0x22)" using assms(1,2) by (simp add: char_at_def rd_Some)
  have cs: "drop (offset p + 1) (content p) = [CHR 0x5C, CHR ''u'', a, b, c, d, CHR 0x22] @ rest"
    using assms(1,2) by simp
  have sq: "scan_quote ([CHR 0x5C, CHR ''u'', a, b, c, d, CHR 0x22] @ rest) = Some (6, 1)"
    using assms(4) by simp
  have u16: "utf16_literal_to_utf8 [CHR 0x5C, CHR ''u'', a, b, c, d] = Some (6, [NUL])"
    using assms(3) by (simp add: utf16_literal_to_utf8_def parse_hex4_def numeral_eq_Suc utf8_encode_def char_of_def)
  have se: "simple_escape (CHR ''u'') = None" by (simp add: simple_escape_def)
  have un: "unescape 7 6 ([CHR 0x5C, CHR ''u'', a, b, c, d, CHR 0x22] @ rest) [] 1 = Some (True, [NUL], 7)"
    using u16 se by (subst unescape.simps) (simp add: unescape.simps [of _ 0])
  show ?thesis
    using at cs sq un m1 assms(2) by (simp add: parse_string_def c_str_def)
qed

lemma parse_value_bracket:
  assumes "wf_buf p" "content p ! offset p = CHR ''[''"
  shows "parse_value (Suc f) it p m = parse_array (\<lambda>q n. parse_elements f [] q n) it p m"
proof -
  have hd: "take (Suc j) (drop (offset p) (content p)) = CHR ''['' # take j (drop (Suc (offset p)) (content p))" for j
    using assms by (simp add: wf_buf_def Cons_nth_drop_Suc [symmetric])
  have "\<not> literal_at p ''null''" "\<not> literal_at p ''false''" "\<not> literal_at p ''true''"
    by (auto simp: literal_at_def hd)
  then show ?thesis using assms looking_at_wf [OF assms(1)] by (simp add: is_digit_def)
qed

lemma skip_ws_bracket:
  assumes "offset p < length (content p)" "content p ! offset p = CHR ''[''"
  shows "buffer_skip_whitespace p = p"
proof -
  have "drop (offset p) (content p) = CHR ''['' # drop (Suc (offset p)) (content p)"
    using assms by (metis Cons_nth_drop_Suc)
  then show ?thesis using assms(1) by (simp add: buffer_skip_whitespace_def)
qed

lemma too_deep:
  assumes "wf_buf p" "\<forall>i\<le>k. content p ! (offset p + i) = CHR ''[''" "offset p + k < length (content p)"
    and "CJSON_NESTING_LIMIT \<le> depth p + k" "parse_value f it p m = Some (ok, it', p', m')"
  shows "\<not> ok"
  using assms
proof (induction k arbitrary: p f it m it' p' m' ok)
  case 0
  then obtain f' where f: "f = Suc f'" by (cases f) auto
  show ?case using 0 parse_value_bracket [of p f' it m] f by (auto simp: parse_array_def)
next
  case (Suc k)
  then obtain f' where f: "f = Suc f'" by (cases f) auto
  have first: "content p ! offset p = CHR ''[''" using Suc.prems(2) by (metis add_0_right zero_le)
  define p0 where "p0 = p\<lparr>depth := depth p + 1\<rparr>"
  define p1 where "p1 = advance 1 p0"
  have p0: "wf_buf p0" using Suc.prems(1) by (simp add: p0_def)
  have second: "content p ! (offset p + 1) = CHR ''[''" using Suc.prems(2) by (metis le_add1 plus_1_eq_Suc)
  have p1: "buffer_skip_whitespace p1 = p1" "wf_buf p1" "\<not> looking_at p1 (CHR '']'')" "can_access_at_index p1 0"
    using Suc.prems(1,3) second skip_ws_bracket [of p1]
    by (auto simp: p1_def p0_def wf_buf_def looking_at_def char_at_def rd_Some can_access_at_index_def)
  have stepback: "advance 1 (p1\<lparr>offset := offset p1 - 1\<rparr>) = p1" by (simp add: p1_def)
  have run: "parse_value f it p m =
      (if CJSON_NESTING_LIMIT \<le> depth p then Some (False, it, p, m)
       else do { (ok, es, p2, m2) \<leftarrow> parse_elements f' [] (p1\<lparr>offset := offset p1 - 1\<rparr>) m;
                 if ok \<and> looking_at p2 (CHR '']'')
                 then Some (True, set_child es (set_type cJSON_Array it),
                            p2\<lparr>offset := offset p2 + 1, depth := depth p2 - 1\<rparr>, m2)
                 else Some (False, it, p2, delete_chain es m2) })"
  proof -
    have items: "parse_items (CHR '']'') cJSON_Array loop it p0 m =
      do { (ok, es, p2, m2) \<leftarrow> loop (p1\<lparr>offset := offset p1 - 1\<rparr>) m;
           if ok \<and> looking_at p2 (CHR '']'')
           then Some (True, set_child es (set_type cJSON_Array it),
                      p2\<lparr>offset := offset p2 + 1, depth := depth p2 - 1\<rparr>, m2)
           else Some (False, it, p2, delete_chain es m2) }" for loop
      by (simp only: parse_items_def Let_def p1_def [symmetric] p1(1) p1(3,4) if_False simp_thms)
    have "content p0 ! offset p0 = CHR ''[''" using first by (simp add: p0_def)
    then show ?thesis
      unfolding f parse_value_bracket [OF Suc.prems(1) first] parse_array_def p0_def [symmetric] Let_def
        char_at_Some [OF p0] items by simp
  qed
  have elements: "\<not> ok2" if el: "parse_elements f' [] (p1\<lparr>offset := offset p1 - 1\<rparr>) m = Some (ok2, es, p2, m2)" for ok2 es p2 m2
  proof -
    from el obtain g where g: "f' = Suc g" by (cases f') auto
    show ?thesis
    proof (cases rule: New_Item_cases [of m])
      case (1 m1)
      then show ?thesis using el g by simp
    next
      case (2 m1)
      have "\<not> okv" if "parse_value g blank p1 m1 = Some (okv, itv, pv, mv)" for okv itv pv mv
      proof (rule Suc.IH [OF p1(2) _ _ _ that])
        have "content p ! (offset p + Suc i) = CHR ''[''" if "i \<le> k" for i
          using Suc.prems(2) that by (metis Suc_le_mono)
        then show "\<forall>i\<le>k. content p1 ! (offset p1 + i) = CHR ''[''" by (simp add: p1_def p0_def)
        show "offset p1 + k < length (content p1)" using Suc.prems(3) by (simp add: p1_def p0_def)
        show "CJSON_NESTING_LIMIT \<le> depth p1 + k" using Suc.prems(4) by (simp add: p1_def p0_def)
      qed
      then show ?thesis using el g 2(1) unfolding g parse_elements.simps stepback p1(1)
        by (auto split: bind_splits if_splits)
    qed
  qed
  show ?case
    using Suc.prems(5) elements unfolding run by (auto split: if_splits bind_splits)
qed

text \<open>A text that opens with more than 1000 brackets is rejected, so the recursion of the parser is
  bounded whatever the input; nothing is leaked.\<close>

theorem nesting_is_bounded:
  assumes "is_cstr s" "CJSON_NESTING_LIMIT < k"
  shows "\<exists>e m'. cJSON_ParseWithOpts (Some (replicate k (CHR ''['') @ s)) nul m = Some (None, e, m') \<and> live m' = live m"
proof -
  define tx where "tx = replicate k (CHR ''['') @ s"
  have cstr: "is_cstr tx" using assms(1) by (simp add: tx_def is_cstr_def)
  obtain r e m' where r: "cJSON_ParseWithOpts (Some tx) nul m = Some (r, e, m')" "live (cJSON_Delete r m') = live m"
    using parse_safe_lemma [of "Some tx" nul m] cstr by auto
  have "r = None"
  proof (cases rule: New_Item_cases [of m])
    case (1 m1)
    then show ?thesis using r by (simp add: cJSON_ParseWithOpts_def Let_def)
  next
    case (2 m1)
    define p0 where "p0 = \<lparr>content = tx @ [NUL], offset = 0, depth = 0\<rparr>"
    have br: "content p0 ! i = CHR ''[''" if "i < k" for i using that by (simp add: p0_def tx_def nth_append)
    have pos: "0 < k" using assms(2) by simp
    then have "take 3 (content p0) \<noteq> [CHR 0xEF, CHR 0xBB, CHR 0xBF]" by (cases k) (simp_all add: p0_def tx_def)
    then have bom: "skip_utf8_bom p0 = Some p0" by (simp add: skip_utf8_bom_def p0_def)
    have ws: "buffer_skip_whitespace p0 = p0" using br [OF pos] by (intro skip_ws_bracket) (simp_all add: p0_def)
    have wf: "wf_buf p0" using cstr by (simp add: wf_buf_def p0_def)
    have "\<not> ok" if "parse_value (parse_fuel (tx @ [NUL])) blank p0 m1 = Some (ok, it', p2, m2)" for ok it' p2 m2
      by (rule too_deep [OF wf _ _ _ that, of "k - 1"])
        (use br assms(2) pos in \<open>auto simp: p0_def tx_def CJSON_NESTING_LIMIT_def\<close>)
    then show ?thesis
      using r(1) 2(1) bom ws
      by (auto simp: cJSON_ParseWithOpts_def p0_def [symmetric] Let_def split: bind_splits if_splits)
  qed
  then show ?thesis using r by (simp add: tx_def cJSON_Delete_def)
qed

subsection \<open>Witnesses\<close>

theorem parse_safe_witness:
  "\<exists>r e m'. cJSON_ParseWithOpts (Some ''[1, 2'') True always = Some (r, e, m') \<and>
     (\<forall>s. Some ''[1, 2'' = Some s \<longrightarrow> e \<le> length s) \<and> live (cJSON_Delete r m') = live always"
  by (rule parse_safe) simp

theorem string_literal_in_block_witness:
  "\<exists>done out ip'. unescape (7 + 1 - 2 + 1) 7 (jtext ''$u000$$`'') [] 1 = Some (done, out, ip') \<and>
     length out < 7 + 1 - 2 + 1"
  by (rule string_literal_in_block) code_simp

theorem bad_hex_accepted_witness:
  "\<exists>m'. parse_string blank \<lparr>content = jtext ''`$uZZZZ`'' @ [NUL], offset = 0, depth = 0\<rparr> always =
     Some (True, set_type cJSON_String (set_valuestring (Some []) blank),
           \<lparr>content = jtext ''`$uZZZZ`'' @ [NUL], offset = 8, depth = 0\<rparr>, m')"
proof -
  have "hex_val (CHR ''Z'') = None" by code_simp
  then show ?thesis
    using bad_hex_accepted [of "\<lparr>content = jtext ''`$uZZZZ`'' @ [NUL], offset = 0, depth = 0\<rparr>"
        "CHR ''Z''" "CHR ''Z''" "CHR ''Z''" "CHR ''Z''" "[NUL]" always blank]
    by (simp add: jtext_def)
qed

theorem nesting_is_bounded_witness:
  "\<exists>e m'. cJSON_ParseWithOpts (Some (replicate 1001 (CHR ''['') @ '']'')) False always = Some (None, e, m') \<and>
     live m' = live always"
  by (rule nesting_is_bounded) (simp_all add: CJSON_NESTING_LIMIT_def)

end
