(* ===== verification/CJSON_Print.thy ===== *)
theory CJSON_Print
  imports CJSON_Parse
begin

text \<open>
  The JSON printer of \<open>cJSON.c\<close>, from \<open>ensure\<close> to \<open>cJSON_PrintPreallocated\<close>. The output block is
  a list of bytes, \<open>None\<close> for a byte that was never written; every write is bounds-checked, and
  \<open>strlen\<close> on bytes that were never written is undefined. \<open>render\<close> says what text an item stands
  for, and \<open>print_refines\<close> that the printer with its growing buffer produces it.
\<close>

subsection \<open>The print buffer\<close>

record printbuffer =
  out_buffer :: "char option list option"
  out_length :: nat
  out_offset :: nat
  out_depth :: nat
  noalloc :: bool
  out_format :: bool
  has_realloc :: bool

abbreviation int_max :: nat where
  "int_max \<equiv> 2147483647"

definition ensure :: "printbuffer \<Rightarrow> nat \<Rightarrow> mem \<Rightarrow> (bool \<times> printbuffer \<times> mem) option" where
  \<comment> \<open>result: whether a pointer (to \<open>out_offset\<close>) was returned\<close>
  "ensure p needed m =
     (case out_buffer p of
        None \<Rightarrow> Some (False, p, m)
      | Some b \<Rightarrow>
          if 0 < out_length p \<and> out_length p \<le> out_offset p then Some (False, p, m)
          else if int_max < needed then Some (False, p, m)
          else
            (let need = needed + (out_offset p + 1) in
             if need \<le> out_length p then Some (True, p, m)
             else if noalloc p then Some (False, p, m)
             else if int_max div 2 < need \<and> int_max < need then Some (False, p, m)
             else
               (let newsize = (if int_max div 2 < need then int_max else need * 2);
                    failed = p\<lparr>out_buffer := None, out_length := 0\<rparr> in
                if has_realloc p then
                  (let (ok, m1) = c_realloc m in
                   if \<not> ok then Some (False, failed, c_free 1 m1)
                   else Some (True, p\<lparr>out_buffer := Some (take newsize b @ replicate (newsize - length b) None),
                                      out_length := newsize\<rparr>, m1))
                else
                  (let (ok, m1) = malloc m in
                   if \<not> ok then Some (False, failed, c_free 1 m1)
                   else if length b < out_offset p + 1 then None
                   else Some (True, p\<lparr>out_buffer := Some (take (out_offset p + 1) b @ replicate (newsize - (out_offset p + 1)) None),
                                      out_length := newsize\<rparr>, c_free 1 m1)))))"

text \<open>Writing bytes at a distance from the current offset.\<close>

definition put_at :: "nat \<Rightarrow> string \<Rightarrow> printbuffer \<Rightarrow> printbuffer option" where
  "put_at i cs p =
     do { b \<leftarrow> out_buffer p;
          b' \<leftarrow> blit (out_offset p + i) (map Some cs) b;
          Some (p\<lparr>out_buffer := Some b'\<rparr>) }"

abbreviation out_advance :: "nat \<Rightarrow> printbuffer \<Rightarrow> printbuffer" where
  "out_advance n p \<equiv> p\<lparr>out_offset := out_offset p + n\<rparr>"

fun strlen_at :: "char option list \<Rightarrow> nat option" where
  "strlen_at [] = None"
| "strlen_at (None # bs) = None"
| "strlen_at (Some c # bs) = (if c = NUL then Some 0 else map_option Suc (strlen_at bs))"

definition update_offset :: "printbuffer \<Rightarrow> printbuffer option" where
  "update_offset p =
     (case out_buffer p of
        None \<Rightarrow> Some p
      | Some b \<Rightarrow> do { n \<leftarrow> strlen_at (drop (out_offset p) b); Some (out_advance n p) })"

text \<open>The common sequence: ask for room, and write when there is.\<close>

definition emit :: "nat \<Rightarrow> string \<Rightarrow> nat \<Rightarrow> printbuffer \<Rightarrow> mem \<Rightarrow> (bool \<times> printbuffer \<times> mem) option" where
  \<comment> \<open>\<open>adv\<close>: how far the offset is advanced afterwards\<close>
  "emit needed cs adv p m =
     do { (ok, p1, m1) \<leftarrow> ensure p needed m;
          if \<not> ok then Some (False, p1, m1)
          else do { p2 \<leftarrow> put_at 0 cs p1; Some (True, out_advance adv p2, m1) } }"

subsection \<open>Numbers and strings\<close>

text \<open>The digits of a number: 15 of them when they are read back as the same number, else 17.\<close>

definition number_text :: "double \<Rightarrow> string" where
  "number_text d =
     (case d of
        Fin s r \<Rightarrow>
          (let t = print_g 15 d; (test, k) = strtod t in
           if k = 0 \<or> \<not> d_eq test d then print_g 17 d else t)
      | _ \<Rightarrow> ''null'')"

definition print_number :: "cJSON \<Rightarrow> printbuffer \<Rightarrow> mem \<Rightarrow> (bool \<times> printbuffer \<times> mem) option" where
  "print_number it p m =
     (let t = number_text (valuedouble it) in
      if 26 < length t + 1 then None
      else emit (length t + 1) (t @ [NUL]) (length t) p m)"

definition hex_digit :: "nat \<Rightarrow> char" where
  "hex_digit n = ''0123456789abcdef'' ! n"

text \<open>What \<open>print_string_ptr\<close> counts for a character, and what it writes.\<close>

definition escape_count :: "char \<Rightarrow> nat" where
  "escape_count c =
     (if c \<in> {CHR 0x22, CHR 0x5C, CHR 0x08, CHR 0x0C, CHR 0x0A, CHR 0x0D, CHR 0x09} then 1
      else if (of_char c :: nat) < 32 then 5 else 0)"

definition escape_char :: "char \<Rightarrow> string" where
  "escape_char c =
     (if 31 < (of_char c :: nat) \<and> c \<noteq> CHR 0x22 \<and> c \<noteq> CHR 0x5C then [c]
      else CHR 0x5C #
        (if c = CHR 0x5C then [CHR 0x5C] else if c = CHR 0x22 then [CHR 0x22]
         else if c = CHR 0x08 then ''b'' else if c = CHR 0x0C then ''f''
         else if c = CHR 0x0A then ''n'' else if c = CHR 0x0D then ''r'' else if c = CHR 0x09 then ''t''
         else ''u00'' @ [hex_digit (of_char c div 16), hex_digit (of_char c mod 16)]))"

definition print_string_ptr :: "string option \<Rightarrow> printbuffer \<Rightarrow> mem \<Rightarrow> (bool \<times> printbuffer \<times> mem) option" where
  "print_string_ptr input p m =
     (case input of
        None \<Rightarrow> emit 3 [CHR 0x22, CHR 0x22, NUL] 0 p m
      | Some s \<Rightarrow>
          (let escape_characters = sum_list (map escape_count s);
               output_length = length s + escape_characters in
           do { (ok, p1, m1) \<leftarrow> ensure p (output_length + 3) m;
                if \<not> ok then Some (False, p1, m1)
                else if escape_characters = 0
                then do { p2 \<leftarrow> put_at 0 (CHR 0x22 # s @ [CHR 0x22, NUL]) p1; Some (True, p2, m1) }
                else do { p2 \<leftarrow> put_at 0 (CHR 0x22 # concat (map escape_char s)) p1;
                          p3 \<leftarrow> put_at (output_length + 1) [CHR 0x22, NUL] p2;
                          Some (True, p3, m1) } }))"

definition print_string :: "cJSON \<Rightarrow> printbuffer \<Rightarrow> mem \<Rightarrow> (bool \<times> printbuffer \<times> mem) option" where
  "print_string it = print_string_ptr (valuestring it)"

subsection \<open>Values\<close>

definition tabs :: "nat \<Rightarrow> string" where
  "tabs n = replicate n (CHR 0x09)"

definition print_open :: "string \<Rightarrow> nat \<Rightarrow> printbuffer \<Rightarrow> mem \<Rightarrow> (bool \<times> printbuffer \<times> mem) option" where
  \<comment> \<open>the opening bracket; no NUL is written behind it\<close>
  "print_open cs needed p m =
     do { (ok, p1, m1) \<leftarrow> emit needed cs (length cs) p m;
          Some (ok, if ok then p1\<lparr>out_depth := out_depth p1 + 1\<rparr> else p1, m1) }"

definition print_close :: "string \<Rightarrow> nat \<Rightarrow> printbuffer \<Rightarrow> mem \<Rightarrow> (bool \<times> printbuffer \<times> mem) option" where
  "print_close cs needed p m =
     do { (ok, p1, m1) \<leftarrow> emit needed (cs @ [NUL]) 0 p m;
          Some (ok, if ok then p1\<lparr>out_depth := out_depth p1 - 1\<rparr> else p1, m1) }"

text \<open>\<open>then_do\<close>: the next step of a function that returns false as soon as one of its steps fails.\<close>

definition then_do ::
    "(bool \<times> printbuffer \<times> mem) option \<Rightarrow> (printbuffer \<Rightarrow> mem \<Rightarrow> (bool \<times> printbuffer \<times> mem) option) \<Rightarrow>
     (bool \<times> printbuffer \<times> mem) option" where
  "then_do r k = do { (ok, p, m) \<leftarrow> r; if ok then k p m else Some (False, p, m) }"

lemma then_do_cong [fundef_cong]:
  "r = r' \<Longrightarrow> (\<And>p m. r' = Some (True, p, m) \<Longrightarrow> k p m = k' p m) \<Longrightarrow> then_do r k = then_do r' k'"
  by (auto simp: then_do_def split: bind_splits)

definition update :: "printbuffer \<Rightarrow> mem \<Rightarrow> (bool \<times> printbuffer \<times> mem) option" where
  "update p m = do { p' \<leftarrow> update_offset p; Some (True, p', m) }"

fun print_value :: "cJSON \<Rightarrow> printbuffer \<Rightarrow> mem \<Rightarrow> (bool \<times> printbuffer \<times> mem) option"
  and print_elements :: "cJSON list \<Rightarrow> printbuffer \<Rightarrow> mem \<Rightarrow> (bool \<times> printbuffer \<times> mem) option"
  and print_members :: "cJSON list \<Rightarrow> printbuffer \<Rightarrow> mem \<Rightarrow> (bool \<times> printbuffer \<times> mem) option" where
  "print_value (Item t vs vi vd k ch) p m =
     (if t AND 255 = cJSON_NULL then emit 5 (''null'' @ [NUL]) 0 p m
      else if t AND 255 = cJSON_False then emit 6 (''false'' @ [NUL]) 0 p m
      else if t AND 255 = cJSON_True then emit 5 (''true'' @ [NUL]) 0 p m
      else if t AND 255 = cJSON_Number then print_number (Item t vs vi vd k ch) p m
      else if t AND 255 = cJSON_Raw then
        (case vs of None \<Rightarrow> Some (False, p, m) | Some s \<Rightarrow> emit (length s + 1) (s @ [NUL]) 0 p m)
      else if t AND 255 = cJSON_String then print_string (Item t vs vi vd k ch) p m
      else if t AND 255 = cJSON_Array then
        then_do (print_open ''['' 1 p m) (\<lambda>p m.
        then_do (print_elements ch p m) (\<lambda>p m.
        print_close '']'' 2 p m))
      else if t AND 255 = cJSON_Object then
        then_do (if out_format p then print_open (CHR ''{'' # [CHR 0x0A]) 3 p m else print_open ''{'' 2 p m) (\<lambda>p m.
        then_do (print_members ch p m) (\<lambda>p m.
        if out_format p then print_close (tabs (out_depth p - 1) @ ''}'') (out_depth p + 1) p m
        else print_close ''}'' 2 p m))
      else Some (False, p, m))"
| "print_elements [] p m = Some (True, p, m)"
| "print_elements (e # es) p m =
     then_do (print_value e p m) (\<lambda>p m.
     then_do (update p m) (\<lambda>p m.
     then_do (if es = [] then Some (True, p, m)
              else if out_format p then emit 3 ('', '' @ [NUL]) 2 p m else emit 2 ('','' @ [NUL]) 1 p m) (\<lambda>p m.
     print_elements es p m)))"
| "print_members [] p m = Some (True, p, m)"
| "print_members (e # es) p m =
     then_do (if out_format p then emit (out_depth p) (tabs (out_depth p)) (out_depth p) p m else Some (True, p, m)) (\<lambda>p m.
     then_do (print_string_ptr (jstring e) p m) (\<lambda>p m.
     then_do (update p m) (\<lambda>p m.
     then_do (if out_format p then emit 2 (CHR '':'' # [CHR 0x09]) 2 p m else emit 1 '':'' 1 p m) (\<lambda>p m.
     then_do (print_value e p m) (\<lambda>p m.
     then_do (update p m) (\<lambda>p m.
     (let tail = (if es = [] then [] else '','') @ (if out_format p then [CHR 0x0A] else []) in
      then_do (emit (length tail + 1) (tail @ [NUL]) (length tail) p m) (\<lambda>p m.
      print_members es p m))))))))"

text \<open>The C string a block holds.\<close>

definition text_of :: "char option list \<Rightarrow> string option" where
  "text_of b = do { n \<leftarrow> strlen_at b; Some (map the (take n b)) }"

definition print_json :: "bool \<Rightarrow> cJSON option \<Rightarrow> bool \<Rightarrow> mem \<Rightarrow> (string option \<times> mem) option" where
  \<comment> \<open>\<open>print\<close>; the first argument tells whether the hooks have \<open>realloc\<close>\<close>
  "print_json re it fmt m =
     (let (ok, m1) = malloc m in
      if \<not> ok then Some (None, m1)
      else
        (let p0 = \<lparr>out_buffer = Some (replicate 256 None), out_length = 256, out_offset = 0, out_depth = 0,
                   noalloc = False, out_format = fmt, has_realloc = re\<rparr> in
         do { (ok2, p1, m2) \<leftarrow> (case it of None \<Rightarrow> Some (False, p0, m1) | Some i \<Rightarrow> print_value i p0 m1);
              if \<not> ok2 then Some (None, if out_buffer p1 = None then m2 else c_free 1 m2)
              else
                do { p2 \<leftarrow> update_offset p1;
                     b \<leftarrow> out_buffer p2;
                     (if re then
                        (let (ok3, m3) = c_realloc m2 in
                         if \<not> ok3 then Some (None, c_free 1 m3)
                         else do { s \<leftarrow> text_of (take (out_offset p2 + 1) b); Some (Some s, m3) })
                      else
                        (let (ok3, m3) = malloc m2 in
                         if \<not> ok3 then Some (None, c_free 1 m3)
                         else
                           (let c = take (min (out_length p2) (out_offset p2 + 1)) b;
                                printed = (c @ replicate (out_offset p2 + 1 - length c) None)[out_offset p2 := Some NUL] in
                            do { s \<leftarrow> text_of printed; Some (Some s, c_free 1 m3) }))) } }))"

definition cJSON_Print :: "cJSON option \<Rightarrow> mem \<Rightarrow> (string option \<times> mem) option" where
  "cJSON_Print it = print_json True it True"

definition cJSON_PrintUnformatted :: "cJSON option \<Rightarrow> mem \<Rightarrow> (string option \<times> mem) option" where
  "cJSON_PrintUnformatted it = print_json True it False"

definition cJSON_PrintBuffered :: "bool \<Rightarrow> cJSON option \<Rightarrow> int \<Rightarrow> bool \<Rightarrow> mem \<Rightarrow> (string option \<times> mem) option" where
  "cJSON_PrintBuffered re it prebuffer fmt m =
     (if prebuffer < 0 then Some (None, m)
      else
        (let (ok, m1) = malloc m in
         if \<not> ok then Some (None, m1)
         else
           (let p0 = \<lparr>out_buffer = Some (replicate (nat prebuffer) None), out_length = nat prebuffer, out_offset = 0,
                      out_depth = 0, noalloc = False, out_format = fmt, has_realloc = re\<rparr> in
            do { (ok2, p1, m2) \<leftarrow> (case it of None \<Rightarrow> Some (False, p0, m1) | Some i \<Rightarrow> print_value i p0 m1);
                 if \<not> ok2 then Some (None, if out_buffer p1 = None then m2 else c_free 1 m2)
                 else do { b \<leftarrow> out_buffer p1; s \<leftarrow> text_of b; Some (Some s, m2) } })))"

definition cJSON_PrintPreallocated ::
    "cJSON option \<Rightarrow> char option list option \<Rightarrow> int \<Rightarrow> bool \<Rightarrow> mem \<Rightarrow> (bool \<times> char option list option \<times> mem) option" where
  \<comment> \<open>\<open>buf\<close>: the caller's block; result: success, the block\<close>
  "cJSON_PrintPreallocated it buf len fmt m =
     (case buf of
        None \<Rightarrow> Some (False, None, m)
      | Some b \<Rightarrow>
          if len < 0 then Some (False, buf, m)
          else
            (let p0 = \<lparr>out_buffer = Some b, out_length = nat len, out_offset = 0, out_depth = 0,
                       noalloc = True, out_format = fmt, has_realloc = True\<rparr> in
             do { (ok, p1, m1) \<leftarrow> (case it of None \<Rightarrow> Some (False, p0, m) | Some i \<Rightarrow> print_value i p0 m);
                  Some (ok, out_buffer p1, m1) }))"

subsection \<open>The text of an item\<close>

definition quoted :: "string option \<Rightarrow> string" where
  "quoted s = CHR 0x22 # (case s of None \<Rightarrow> [] | Some cs \<Rightarrow> concat (map escape_char cs)) @ [CHR 0x22]"

fun render :: "bool \<Rightarrow> nat \<Rightarrow> cJSON \<Rightarrow> string option"
  and render_elements :: "bool \<Rightarrow> nat \<Rightarrow> cJSON list \<Rightarrow> string option"
  and render_members :: "bool \<Rightarrow> nat \<Rightarrow> cJSON list \<Rightarrow> string option" where
  "render fmt d (Item t vs vi vd k ch) =
     (if t AND 255 = cJSON_NULL then Some ''null''
      else if t AND 255 = cJSON_False then Some ''false''
      else if t AND 255 = cJSON_True then Some ''true''
      else if t AND 255 = cJSON_Number then Some (number_text vd)
      else if t AND 255 = cJSON_Raw then vs
      else if t AND 255 = cJSON_String then Some (quoted vs)
      else if t AND 255 = cJSON_Array then
        do { s \<leftarrow> render_elements fmt (d + 1) ch; Some (''['' @ s @ '']'') }
      else if t AND 255 = cJSON_Object then
        do { s \<leftarrow> render_members fmt (d + 1) ch;
             Some (''{'' @ (if fmt then [CHR 0x0A] else []) @ s @ (if fmt then tabs d else []) @ ''}'') }
      else None)"
| "render_elements fmt d [] = Some []"
| "render_elements fmt d (e # es) =
     do { s \<leftarrow> render fmt d e; r \<leftarrow> render_elements fmt d es;
          Some (s @ (if es = [] then [] else if fmt then '', '' else '','') @ r) }"
| "render_members fmt d [] = Some []"
| "render_members fmt d (e # es) =
     do { s \<leftarrow> render fmt d e; r \<leftarrow> render_members fmt d es;
          Some ((if fmt then tabs d else []) @ quoted (jstring e) @ '':'' @ (if fmt then [CHR 0x09] else []) @ s
                @ (if es = [] then [] else '','') @ (if fmt then [CHR 0x0A] else []) @ r) }"

subsection \<open>What the steps of the printer keep\<close>

text \<open>
  \<open>wrote p bs\<close>: the bytes in front of the offset are \<open>bs\<close>. \<open>shows p bs\<close>: the block holds the C
  string \<open>bs\<close>, and the offset is inside it.
\<close>

definition wrote :: "printbuffer \<Rightarrow> string \<Rightarrow> bool" where
  "wrote p bs \<longleftrightarrow>
     (\<exists>b. out_buffer p = Some b \<and> length b = out_length p \<and> out_offset p = length bs \<and>
        take (length bs) b = map Some bs \<and> length bs \<le> length b \<and>
        (length bs < length b \<or> out_length p = 0 \<and> (has_realloc p \<or> noalloc p)))"

definition shows_text :: "printbuffer \<Rightarrow> string \<Rightarrow> bool" where
  "shows_text p bs \<longleftrightarrow>
     (\<exists>b. out_buffer p = Some b \<and> length b = out_length p \<and> out_offset p \<le> length bs \<and> length bs < length b \<and>
        take (length bs + 1) b = map Some (bs @ [NUL]) \<and> is_cstr (drop (out_offset p) bs))"

definition owned :: "printbuffer \<Rightarrow> int" where
  "owned p = (if out_buffer p = None then 0 else 1)"

definition keeps :: "printbuffer \<Rightarrow> mem \<Rightarrow> printbuffer \<Rightarrow> mem \<Rightarrow> bool" where
  "keeps p m p' m' \<longleftrightarrow> noalloc p' = noalloc p \<and> out_format p' = out_format p \<and> has_realloc p' = has_realloc p \<and>
     live m' - owned p' = live m - owned p \<and> reliable m' = reliable m \<and> (out_length p \<le> int_max \<longrightarrow> out_length p' \<le> int_max) \<and>
     (noalloc p \<longrightarrow> out_length p' = out_length p \<and> m' = m \<and>
        map_option length (out_buffer p') = map_option length (out_buffer p))"

text \<open>The outcome of a step: it is defined, it succeeds when \<open>E\<close> holds, and then \<open>Q\<close> does.\<close>

definition outcome ::
    "(bool \<times> printbuffer \<times> mem) option \<Rightarrow> printbuffer \<Rightarrow> mem \<Rightarrow> bool \<Rightarrow> (printbuffer \<Rightarrow> bool) \<Rightarrow> bool" where
  "outcome r p m E Q \<longleftrightarrow>
     (\<exists>ok p' m'. r = Some (ok, p', m') \<and> keeps p m p' m' \<and> (ok \<longrightarrow> Q p') \<and> (E \<longrightarrow> ok))"

definition room :: "printbuffer \<Rightarrow> mem \<Rightarrow> nat \<Rightarrow> bool" where
  "room p m n \<longleftrightarrow> n \<le> int_max \<and> (if noalloc p then n \<le> out_length p else reliable m)"

lemma keeps_refl [simp]: "keeps p m p m"
  by (simp add: keeps_def)

lemma keeps_trans: "keeps p m p1 m1 \<Longrightarrow> keeps p1 m1 p2 m2 \<Longrightarrow> keeps p m p2 m2"
  by (simp add: keeps_def)

lemma room_keeps: "keeps p m p' m' \<Longrightarrow> room p' m' n = room p m n"
  by (simp add: keeps_def room_def)

lemma outcomeI:
  assumes "r = Some (ok, p', m')" "keeps p m p' m'" "ok \<Longrightarrow> Q p'" "E \<Longrightarrow> ok"
  shows "outcome r p m E Q"
  using assms unfolding outcome_def by blast

lemma outcome_weaken:
  assumes "outcome r p m E Q" "E' \<Longrightarrow> E" "\<And>p'. Q p' \<Longrightarrow> R p'"
  shows "outcome r p m E' R"
  using assms unfolding outcome_def by blast

lemma outcome_then:
  assumes "outcome r p m E Q" "\<And>p' m'. keeps p m p' m' \<Longrightarrow> Q p' \<Longrightarrow> outcome (k p' m') p' m' E R"
  shows "outcome (then_do r k) p m E R"
proof -
  obtain ok p1 m1 where r: "r = Some (ok, p1, m1)" "keeps p m p1 m1" "ok \<longrightarrow> Q p1" "E \<longrightarrow> ok"
    using assms(1) unfolding outcome_def by blast
  show ?thesis
  proof (cases ok)
    case True
    then obtain ok2 p2 m2 where "k p1 m1 = Some (ok2, p2, m2)" "keeps p1 m1 p2 m2" "ok2 \<longrightarrow> R p2" "E \<longrightarrow> ok2"
      using assms(2) [of p1 m1] r unfolding outcome_def by blast
    then show ?thesis
      by (intro outcomeI [of _ ok2 p2 m2]) (use r True keeps_trans in \<open>auto simp: then_do_def\<close>)
  next
    case False
    then show ?thesis by (intro outcomeI [of _ False p1 m1]) (use r in \<open>auto simp: then_do_def\<close>)
  qed
qed

lemma ensure_outcome:
  assumes "wrote p bs"
  shows "outcome (ensure p needed m) p m (room p m (length bs + needed + 1))
     (\<lambda>p'. wrote p' bs \<and> length bs + needed < out_length p' \<and> out_depth p' = out_depth p)"
proof -
  obtain b where b: "out_buffer p = Some b" "length b = out_length p" "out_offset p = length bs"
    "take (length bs) b = map Some bs" "length bs \<le> length b"
    "length bs < length b \<or> out_length p = 0 \<and> (has_realloc p \<or> noalloc p)"
    using assms unfolding wrote_def by blast
  define need where "need = needed + (length bs + 1)"
  define newsize where "newsize = (if int_max div 2 < need then int_max else need * 2)"
  define failed where "failed = p\<lparr>out_buffer := None, out_length := 0\<rparr>"
  have unf: "ensure p needed m =
     (if int_max < needed then Some (False, p, m)
      else if need \<le> out_length p then Some (True, p, m)
      else if noalloc p then Some (False, p, m)
      else if int_max div 2 < need \<and> int_max < need then Some (False, p, m)
      else if has_realloc p then
             (let (ok, m1) = c_realloc m in
              if \<not> ok then Some (False, failed, c_free 1 m1)
              else Some (True, p\<lparr>out_buffer := Some (take newsize b @ replicate (newsize - length b) None),
                                 out_length := newsize\<rparr>, m1))
      else (let (ok, m1) = malloc m in
            if \<not> ok then Some (False, failed, c_free 1 m1)
            else if length b < out_offset p + 1 then None
            else Some (True, p\<lparr>out_buffer := Some (take (out_offset p + 1) b @ replicate (newsize - (out_offset p + 1)) None),
                               out_length := newsize\<rparr>, c_free 1 m1)))"
  proof -
    have c1: "(0 < out_length p \<and> out_length p \<le> length bs) = False" using b by auto
    show ?thesis
      by (simp only: ensure_def b(1) option.case c1 if_False Let_def b(3) need_def newsize_def failed_def)
  qed
  have wrote_new: "wrote (p\<lparr>out_buffer := Some c, out_length := newsize\<rparr>) bs \<and> length bs + needed < newsize"
    if "take (length bs) c = map Some bs" "length c = newsize" "\<not> (int_max div 2 < need \<and> int_max < need)" for c
  proof -
    have "need \<le> newsize" using that(3) by (auto simp: newsize_def need_def)
    then show ?thesis using b that(1,2) by (auto simp: wrote_def need_def)
  qed
  have small: "\<not> int_max < needed \<and> \<not> int_max < need \<and> (if noalloc p then need \<le> out_length p else reliable m)"
    if "room p m (length bs + needed + 1)"
    using that by (auto simp: room_def need_def)
  consider (same) "int_max < needed" | (fits) "\<not> int_max < needed" "need \<le> out_length p"
    | (no) "\<not> int_max < needed" "\<not> need \<le> out_length p" "noalloc p \<or> (int_max div 2 < need \<and> int_max < need)"
    | (grow) "\<not> int_max < needed" "\<not> need \<le> out_length p" "\<not> noalloc p" "\<not> (int_max div 2 < need \<and> int_max < need)"
    by blast
  then show ?thesis
  proof cases
    case same
    then show ?thesis using small by (intro outcomeI [of _ False p m]) (auto simp: unf)
  next
    case fits
    then show ?thesis using assms by (intro outcomeI [of _ True p m]) (auto simp: unf need_def)
  next
    case no
    then show ?thesis using small by (intro outcomeI [of _ False p m]) (auto simp: unf)
  next
    case grow
    then have nl: "need \<le> newsize" by (auto simp: newsize_def need_def)
    have nm: "newsize \<le> int_max" by (simp add: newsize_def)
    have bnew: "length b \<le> newsize" using grow(2) nl b(2) by simp
    show ?thesis
    proof (cases "has_realloc p")
      case True
      show ?thesis
      proof (cases rule: realloc_cases [of m])
        case (1 m1)
        define c where "c = take newsize b @ replicate (newsize - length b) None"
        have "take (length bs) c = map Some bs" "length c = newsize"
          using b(4,5) bnew nl by (auto simp: c_def need_def)
        note new = wrote_new [OF this grow(4)]
        show ?thesis
          by (rule outcomeI [of _ True "p\<lparr>out_buffer := Some c, out_length := newsize\<rparr>" m1])
            (use 1 grow True new b nm in \<open>auto simp: unf c_def keeps_def owned_def\<close>)
      next
        case (2 m1)
        then show ?thesis
          by (intro outcomeI [of _ False failed "c_free 1 m1"])
            (use grow True small b in \<open>auto simp: unf keeps_def owned_def failed_def\<close>)
      qed
    next
      case False
      then have len: "length bs < length b" using b(6) grow(3) by blast
      show ?thesis
      proof (cases rule: malloc_split [of m])
        case (1 m1)
        define c where "c = take (length bs + 1) b @ replicate (newsize - (length bs + 1)) None"
        have "take (length bs) c = map Some bs" "length c = newsize"
          using b(4) len bnew nl by (auto simp: c_def need_def min_def)
        note new = wrote_new [OF this grow(4)]
        show ?thesis
          by (rule outcomeI [of _ True "p\<lparr>out_buffer := Some c, out_length := newsize\<rparr>" "c_free 1 m1"])
            (use 1 grow False new b len nm in \<open>auto simp: unf c_def keeps_def owned_def\<close>)
      next
        case (2 m1)
        then show ?thesis
          by (intro outcomeI [of _ False failed "c_free 1 m1"])
            (use grow False small b in \<open>auto simp: unf keeps_def owned_def failed_def\<close>)
      qed
    qed
  qed
qed

text \<open>Writing at the offset of a buffer that has the room \<open>ensure\<close> made.\<close>

lemma put_at_0:
  assumes "wrote p bs" "length bs + length cs \<le> out_length p"
  shows "\<exists>b'. put_at 0 cs p = Some (p\<lparr>out_buffer := Some b'\<rparr>) \<and> length b' = out_length p \<and>
           take (length bs + length cs) b' = map Some (bs @ cs)"
proof -
  obtain b where b: "out_buffer p = Some b" "length b = out_length p" "out_offset p = length bs"
    "take (length bs) b = map Some bs" using assms(1) unfolding wrote_def by blast
  define b' where "b' = take (length bs) b @ map Some cs @ drop (length bs + length cs) b"
  have "put_at 0 cs p = Some (p\<lparr>out_buffer := Some b'\<rparr>)"
    using b assms(2) by (simp add: put_at_def blit_def b'_def)
  moreover have "length b' = out_length p" using b assms(2) by (simp add: b'_def)
  moreover have "take (length bs + length cs) b' = map Some (bs @ cs)" using b(4) b assms(2) by (simp add: b'_def)
  ultimately show ?thesis by blast
qed

lemma emit_outcome:
  assumes "wrote p bs" "length cs \<le> needed"
  shows "outcome (emit needed cs adv p m) p m (room p m (length bs + needed + 1))
     (\<lambda>p'. \<exists>b. out_buffer p' = Some b \<and> length b = out_length p' \<and> length bs + needed < out_length p' \<and>
        out_offset p' = length bs + adv \<and> take (length bs + length cs) b = map Some (bs @ cs) \<and> out_depth p' = out_depth p)"
proof -
  obtain ok p1 m1 where e: "ensure p needed m = Some (ok, p1, m1)" "keeps p m p1 m1"
    "ok \<longrightarrow> wrote p1 bs \<and> length bs + needed < out_length p1 \<and> out_depth p1 = out_depth p"
    "room p m (length bs + needed + 1) \<longrightarrow> ok"
    using ensure_outcome [OF assms(1), of needed m] unfolding outcome_def by blast
  show ?thesis
  proof (cases ok)
    case True
    then have "length bs + length cs \<le> out_length p1" using e(3) assms(2) by simp
    then obtain b' where w: "put_at 0 cs p1 = Some (p1\<lparr>out_buffer := Some b'\<rparr>)" "length b' = out_length p1"
      "take (length bs + length cs) b' = map Some (bs @ cs)"
      using put_at_0 [of p1 bs cs] True e(3) by blast
    have off: "out_offset p1 = length bs" "out_buffer p1 \<noteq> None" "map_option length (out_buffer p1) = Some (out_length p1)"
      using True e(3) by (auto simp: wrote_def)
    show ?thesis
      by (rule outcomeI [of _ True "out_advance adv (p1\<lparr>out_buffer := Some b'\<rparr>)" m1])
        (use True e w off in \<open>auto simp: emit_def keeps_def owned_def simp del: map_option_eq_Some\<close>)
  next
    case False
    then show ?thesis using e by (intro outcomeI [of _ False p1 m1]) (auto simp: emit_def)
  qed
qed

text \<open>Bytes without a NUL behind them, and a C string.\<close>

lemma emit_bytes:
  assumes "wrote p bs" "length cs \<le> needed"
  shows "outcome (emit needed cs (length cs) p m) p m (room p m (length bs + needed + 1))
     (\<lambda>p'. wrote p' (bs @ cs) \<and> out_depth p' = out_depth p)"
  by (rule outcome_weaken [OF emit_outcome [OF assms]]) (use assms(2) in \<open>auto simp: wrote_def\<close>)

lemma emit_text:
  assumes "wrote p bs" "length t < needed" "is_cstr t" "adv \<le> length t"
  shows "outcome (emit needed (t @ [NUL]) adv p m) p m (room p m (length bs + needed + 1))
     (\<lambda>p'. shows_text p' (bs @ t) \<and> out_offset p' = length bs + adv \<and> out_depth p' = out_depth p)"
proof -
  have le: "length (t @ [NUL]) \<le> needed" using assms(2) by simp
  show ?thesis
    by (rule outcome_weaken [OF emit_outcome [OF assms(1) le]])
      (use assms(2-4) in \<open>auto simp: shows_text_def\<close>)
qed

lemma shows_wrote: "shows_text p bs \<Longrightarrow> out_offset p = length bs \<Longrightarrow> wrote p bs"
  unfolding shows_text_def wrote_def by (auto dest: arg_cong [where f = "take (length bs)"])

lemma emit_string:
  assumes "wrote p bs" "is_cstr t"
  shows "outcome (emit (length t + 1) (t @ [NUL]) (length t) p m) p m (room p m (length bs + length t + 2))
     (\<lambda>p'. wrote p' (bs @ t) \<and> out_depth p' = out_depth p)"
proof -
  have l: "length t < length t + 1" by simp
  show ?thesis
  proof (rule outcome_weaken [OF emit_text [OF assms(1) l assms(2) order_refl]])
    fix p' assume "shows_text p' (bs @ t) \<and> out_offset p' = length bs + length t \<and> out_depth p' = out_depth p"
    then show "wrote p' (bs @ t) \<and> out_depth p' = out_depth p" using shows_wrote [of p' "bs @ t"] by simp
  qed (simp add: room_def)
qed

lemma strlen_at_map: "is_cstr t \<Longrightarrow> strlen_at (map Some t @ Some NUL # bs) = Some (length t)"
  by (induction t) auto

lemma update_shows:
  assumes "shows_text p bs"
  shows "update_offset p = Some (p\<lparr>out_offset := length bs\<rparr>)"
proof -
  obtain b where b: "out_buffer p = Some b" "out_offset p \<le> length bs" "length bs < length b"
    "take (length bs + 1) b = map Some (bs @ [NUL])" "is_cstr (drop (out_offset p) bs)"
    using assms unfolding shows_text_def by blast
  have "b = map Some (bs @ [NUL]) @ drop (length bs + 1) b"
    using b(4) append_take_drop_id [of "length bs + 1" b] by simp
  then have "drop (out_offset p) b = drop (out_offset p) (map Some (bs @ [NUL]) @ drop (length bs + 1) b)" by simp
  also have "\<dots> = map Some (drop (out_offset p) bs) @ Some NUL # drop (length bs + 1) b"
    using b(2) by (simp add: drop_map)
  finally show ?thesis
    using b(1,2) strlen_at_map [OF b(5), of "drop (length bs + 1) b"] by (simp add: update_offset_def)
qed

lemma update_outcome:
  assumes "shows_text p bs"
  shows "outcome (update p m) p m True
     (\<lambda>p'. wrote p' bs \<and> shows_text p' bs \<and> out_depth p' = out_depth p)"
proof -
  have "shows_text (p\<lparr>out_offset := length bs\<rparr>) bs"
    using assms by (auto simp: shows_text_def)
  then show ?thesis
    using shows_wrote [of "p\<lparr>out_offset := length bs\<rparr>" bs]
    by (intro outcomeI [of _ True "p\<lparr>out_offset := length bs\<rparr>" m])
      (auto simp: update_def update_shows [OF assms] keeps_def owned_def)
qed

subsection \<open>Strings\<close>

lemma escape_char_length: "length (escape_char c) = 1 + escape_count c"
  by (auto simp: escape_char_def escape_count_def)

lemma escape_total: "length (concat (map escape_char s)) = length s + sum_list (map escape_count s)"
  by (induction s) (auto simp: escape_char_length)

lemma escape_none: "sum_list (map escape_count s) = 0 \<Longrightarrow> concat (map escape_char s) = s"
proof (induction s)
  case (Cons c s)
  then have "escape_count c = 0" "concat (map escape_char s) = s" by simp_all
  moreover from this have "escape_char c = [c]"
    by (auto simp: escape_char_def escape_count_def split: if_splits)
  ultimately show ?case by simp
qed simp

lemma hex_digit_not_NUL: "n < 16 \<Longrightarrow> hex_digit n \<noteq> NUL"
proof -
  assume "n < 16"
  then have "n \<in> set [0..<16]" by simp
  then show ?thesis by (auto simp: hex_digit_def upt_rec)
qed

lemma is_cstr_escape: "is_cstr s \<Longrightarrow> is_cstr (concat (map escape_char s))"
proof (induction s)
  case (Cons c s)
  have "(of_char c :: nat) < 256" by simp
  then have "(of_char c :: nat) div 16 < 16" by (simp add: less_mult_imp_div_less)
  then have "is_cstr (escape_char c)" if "c \<noteq> NUL"
    using that by (auto simp: escape_char_def hex_digit_not_NUL)
  then show ?case using Cons by simp
qed simp

lemma is_cstr_quoted: "(case s of None \<Rightarrow> True | Some cs \<Rightarrow> is_cstr cs) \<Longrightarrow> is_cstr (quoted s)"
  by (auto simp: quoted_def is_cstr_escape split: option.splits)

lemma put_at_append:
  "put_at i (xs @ ys) p = do { p1 \<leftarrow> put_at i xs p; put_at (i + length xs) ys p1 }"
proof (cases "out_buffer p")
  case (Some b)
  define j where "j = out_offset p + i"
  have sh: "out_offset p + (i + n) = j + n" for n by (simp add: j_def)
  show ?thesis
  proof (cases "j + length xs + length ys \<le> length b")
    case True
    then show ?thesis using Some
      by (simp add: put_at_def blit_def sh [of 0, simplified] sh add_ac)
  next
    case False
    then show ?thesis using Some
      by (auto simp: put_at_def blit_def sh [of 0, simplified] sh add.assoc)
  qed
qed (simp add: put_at_def)

lemma print_string_ptr_emit:
  "print_string_ptr s p m = emit (length (quoted s) + 1) (quoted s @ [NUL]) 0 p m"
proof (cases s)
  case None
  then show ?thesis by (simp add: print_string_ptr_def quoted_def numeral_eq_Suc)
next
  case (Some cs)
  have len: "length (quoted s) + 1 = length cs + sum_list (map escape_count cs) + 3"
    using Some escape_total [of cs] by (simp add: quoted_def)
  have two: "do { p2 \<leftarrow> put_at 0 (CHR 0x22 # concat (map escape_char cs)) p1;
                  p3 \<leftarrow> put_at (length cs + sum_list (map escape_count cs) + 1) [CHR 0x22, NUL] p2; Some (True, p3, m1) }
      = do { p2 \<leftarrow> put_at 0 (quoted s @ [NUL]) p1; Some (True, p2, m1) }" for p1 and m1 :: mem
    using put_at_append [of 0 "CHR 0x22 # concat (map escape_char cs)" "[CHR 0x22, NUL]" p1] Some escape_total [of cs]
    by (simp add: quoted_def)
  have one: "CHR 0x22 # cs @ [CHR 0x22, NUL] = quoted s @ [NUL]" if "sum_list (map escape_count cs) = 0"
    using Some escape_none [OF that] by (simp add: quoted_def)
  show ?thesis
    unfolding print_string_ptr_def Some option.case Let_def two [unfolded Some] emit_def len [unfolded Some]
  proof (cases "sum_list (map escape_count cs) = 0")
    case True
    show "do { (ok, p1, m1) \<leftarrow> ensure p (length cs + sum_list (map escape_count cs) + 3) m;
               if \<not> ok then Some (False, p1, m1)
               else if sum_list (map escape_count cs) = 0
               then do { p2 \<leftarrow> put_at 0 (CHR 0x22 # cs @ [CHR 0x22, NUL]) p1; Some (True, p2, m1) }
               else do { p2 \<leftarrow> put_at 0 (quoted (Some cs) @ [NUL]) p1; Some (True, p2, m1) } }
       = do { (ok, p1, m1) \<leftarrow> ensure p (length cs + sum_list (map escape_count cs) + 3) m;
              if \<not> ok then Some (False, p1, m1)
              else do { p2 \<leftarrow> put_at 0 (quoted (Some cs) @ [NUL]) p1; Some (True, out_advance 0 p2, m1) } }"
      unfolding one [OF True] Some by (intro Option.bind_cong refl) (auto split: prod.splits)
  next
    case False
    then show "do { (ok, p1, m1) \<leftarrow> ensure p (length cs + sum_list (map escape_count cs) + 3) m;
               if \<not> ok then Some (False, p1, m1)
               else if sum_list (map escape_count cs) = 0
               then do { p2 \<leftarrow> put_at 0 (CHR 0x22 # cs @ [CHR 0x22, NUL]) p1; Some (True, p2, m1) }
               else do { p2 \<leftarrow> put_at 0 (quoted (Some cs) @ [NUL]) p1; Some (True, p2, m1) } }
       = do { (ok, p1, m1) \<leftarrow> ensure p (length cs + sum_list (map escape_count cs) + 3) m;
              if \<not> ok then Some (False, p1, m1)
              else do { p2 \<leftarrow> put_at 0 (quoted (Some cs) @ [NUL]) p1; Some (True, out_advance 0 p2, m1) } }"
      by (intro Option.bind_cong refl) (auto split: prod.splits)
  qed
qed

subsection \<open>The printer produces the text\<close>

text \<open>The strings of an item are C strings, and the text of every number fits \<open>number_buffer\<close>.\<close>

definition cstr_opt :: "string option \<Rightarrow> bool" where
  "cstr_opt s \<longleftrightarrow> (case s of None \<Rightarrow> True | Some cs \<Rightarrow> is_cstr cs)"

definition fits_number :: "double \<Rightarrow> bool" where
  "fits_number d \<longleftrightarrow> length (number_text d) < 26 \<and> is_cstr (number_text d)"

fun printable :: "cJSON \<Rightarrow> bool" where
  "printable (Item t vs vi vd k ch) \<longleftrightarrow>
     cstr_opt vs \<and> cstr_opt k \<and> (t AND 255 = cJSON_Number \<longrightarrow> fits_number vd) \<and> list_all printable ch"

lemma room_le: "room p m n \<Longrightarrow> n' \<le> n \<Longrightarrow> room p m n'"
  by (auto simp: room_def split: if_splits)

lemma printable_jstring: "printable e \<Longrightarrow> cstr_opt (jstring e)"
  by (cases e) simp

text \<open>
  \<open>writes k fmt d t\<close>: at depth \<open>d\<close>, the step \<open>k\<close> appends the text \<open>t\<close>, or fails; it does not fail when
  the allocator is reliable and the text is short enough. Such steps compose.
\<close>

definition writes :: "(printbuffer \<Rightarrow> mem \<Rightarrow> (bool \<times> printbuffer \<times> mem) option) \<Rightarrow> bool \<Rightarrow> nat \<Rightarrow> string option \<Rightarrow> bool" where
  "writes k fmt d t \<longleftrightarrow>
     (\<forall>p m bs. wrote p bs \<and> out_format p = fmt \<and> out_depth p = d \<longrightarrow>
        outcome (k p m) p m (\<exists>s. t = Some s \<and> room p m (length bs + length s + 2))
          (\<lambda>p'. \<exists>s. t = Some s \<and> wrote p' (bs @ s) \<and> out_depth p' = d))"

lemma then_do_assoc: "then_do (then_do r k) l = then_do r (\<lambda>p m. then_do (k p m) l)"
  by (cases r) (auto simp: then_do_def)

lemma writes_skip [intro]: "writes (\<lambda>p m. Some (True, p, m)) fmt d (Some [])"
  unfolding writes_def
proof (intro allI impI)
  fix p and bs :: string and m :: mem assume "wrote p bs \<and> out_format p = fmt \<and> out_depth p = d"
  then show "outcome (Some (True, p, m)) p m (\<exists>s. Some [] = Some s \<and> room p m (length bs + length s + 2))
       (\<lambda>p'. \<exists>s. Some [] = Some s \<and> wrote p' (bs @ s) \<and> out_depth p' = d)"
    by (intro outcomeI [of _ True p m]) auto
qed

lemma writes_then:
  assumes "writes k fmt d t" "writes l fmt d u"
  shows "writes (\<lambda>p m. then_do (k p m) l) fmt d (do { s \<leftarrow> t; r \<leftarrow> u; Some (s @ r) })"
  unfolding writes_def
proof (intro allI impI)
  fix p and bs :: string and m :: mem
  let ?w = "do { s \<leftarrow> t; r \<leftarrow> u; Some (s @ r) }"
  let ?E = "\<exists>s. ?w = Some s \<and> room p m (length bs + length s + 2)"
  assume p: "wrote p bs \<and> out_format p = fmt \<and> out_depth p = d"
  have k: "outcome (k p m) p m ?E (\<lambda>p'. \<exists>s. t = Some s \<and> wrote p' (bs @ s) \<and> out_depth p' = d)"
    by (rule outcome_weaken [OF assms(1) [unfolded writes_def, rule_format, OF p]])
      (auto split: bind_splits elim: room_le)
  show "outcome (then_do (k p m) l) p m ?E (\<lambda>p'. \<exists>s. ?w = Some s \<and> wrote p' (bs @ s) \<and> out_depth p' = d)"
  proof (rule outcome_then [OF k])
    fix p1 m1 assume k1: "keeps p m p1 m1" and "\<exists>s. t = Some s \<and> wrote p1 (bs @ s) \<and> out_depth p1 = d"
    then obtain s where s: "t = Some s" "wrote p1 (bs @ s)" "out_depth p1 = d" by blast
    then have p1: "wrote p1 (bs @ s) \<and> out_format p1 = fmt \<and> out_depth p1 = d" using p k1 by (simp add: keeps_def)
    show "outcome (l p1 m1) p1 m1 ?E (\<lambda>p'. \<exists>s. ?w = Some s \<and> wrote p' (bs @ s) \<and> out_depth p' = d)"
      by (rule outcome_weaken [OF assms(2) [unfolded writes_def, rule_format, OF p1]])
        (use s(1) in \<open>auto split: bind_splits elim: room_le simp: room_keeps [OF k1]\<close>)
  qed
qed

lemma writes_bytes:
  assumes "length cs \<le> needed" "needed \<le> length cs + 1"
  shows "writes (emit needed cs (length cs)) fmt d (Some cs)"
  unfolding writes_def
proof (intro allI impI)
  fix p and bs :: string and m :: mem assume p: "wrote p bs \<and> out_format p = fmt \<and> out_depth p = d"
  show "outcome (emit needed cs (length cs) p m) p m (\<exists>s. Some cs = Some s \<and> room p m (length bs + length s + 2))
       (\<lambda>p'. \<exists>s. Some cs = Some s \<and> wrote p' (bs @ s) \<and> out_depth p' = d)"
    by (rule outcome_weaken [OF emit_bytes [OF conjunct1 [OF p] assms(1), of m]]) (use assms(2) p in \<open>auto elim: room_le\<close>)
qed

lemma writes_text:
  assumes "is_cstr t"
  shows "writes (emit (length t + 1) (t @ [NUL]) (length t)) fmt d (Some t)"
  unfolding writes_def
proof (intro allI impI)
  fix p and bs :: string and m :: mem assume p: "wrote p bs \<and> out_format p = fmt \<and> out_depth p = d"
  show "outcome (emit (length t + 1) (t @ [NUL]) (length t) p m) p m (\<exists>s. Some t = Some s \<and> room p m (length bs + length s + 2))
       (\<lambda>p'. \<exists>s. Some t = Some s \<and> wrote p' (bs @ s) \<and> out_depth p' = d)"
    by (rule outcome_weaken [OF emit_string [OF conjunct1 [OF p] assms, of m]]) (use p in \<open>auto elim: room_le\<close>)
qed

text \<open>A C string that is printed without moving the offset, which \<open>update_offset\<close> then moves.\<close>

definition leaves :: "(printbuffer \<Rightarrow> mem \<Rightarrow> (bool \<times> printbuffer \<times> mem) option) \<Rightarrow> bool \<Rightarrow> nat \<Rightarrow> string option \<Rightarrow> bool" where
  "leaves k fmt d t \<longleftrightarrow>
     (\<forall>p m bs. wrote p bs \<and> out_format p = fmt \<and> out_depth p = d \<longrightarrow>
        outcome (k p m) p m (\<exists>s. t = Some s \<and> room p m (length bs + length s + 2))
          (\<lambda>p'. \<exists>s. t = Some s \<and> shows_text p' (bs @ s) \<and> out_depth p' = d))"

lemma leaves_update:
  assumes "leaves k fmt d t"
  shows "writes (\<lambda>p m. then_do (k p m) update) fmt d t"
  unfolding writes_def
proof (intro allI impI)
  fix p and bs :: string and m :: mem
  let ?E = "\<exists>s. t = Some s \<and> room p m (length bs + length s + 2)"
  assume p: "wrote p bs \<and> out_format p = fmt \<and> out_depth p = d"
  show "outcome (then_do (k p m) update) p m ?E (\<lambda>p'. \<exists>s. t = Some s \<and> wrote p' (bs @ s) \<and> out_depth p' = d)"
  proof (rule outcome_then [OF assms [unfolded leaves_def, rule_format, OF p]])
    fix p1 m1 assume "\<exists>s. t = Some s \<and> shows_text p1 (bs @ s) \<and> out_depth p1 = d"
    then obtain s where s: "t = Some s" "shows_text p1 (bs @ s)" "out_depth p1 = d" by blast
    show "outcome (update p1 m1) p1 m1 ?E (\<lambda>p'. \<exists>s. t = Some s \<and> wrote p' (bs @ s) \<and> out_depth p' = d)"
      by (rule outcome_weaken [OF update_outcome [OF s(2)]]) (use s in auto)
  qed
qed

lemma leaves_then:
  assumes "writes k fmt d t" "leaves l fmt d u"
  shows "leaves (\<lambda>p m. then_do (k p m) l) fmt d (do { s \<leftarrow> t; r \<leftarrow> u; Some (s @ r) })"
  unfolding leaves_def
proof (intro allI impI)
  fix p and bs :: string and m :: mem
  let ?w = "do { s \<leftarrow> t; r \<leftarrow> u; Some (s @ r) }"
  let ?E = "\<exists>s. ?w = Some s \<and> room p m (length bs + length s + 2)"
  assume p: "wrote p bs \<and> out_format p = fmt \<and> out_depth p = d"
  have k: "outcome (k p m) p m ?E (\<lambda>p'. \<exists>s. t = Some s \<and> wrote p' (bs @ s) \<and> out_depth p' = d)"
    by (rule outcome_weaken [OF assms(1) [unfolded writes_def, rule_format, OF p]])
      (auto split: bind_splits elim: room_le)
  show "outcome (then_do (k p m) l) p m ?E (\<lambda>p'. \<exists>s. ?w = Some s \<and> shows_text p' (bs @ s) \<and> out_depth p' = d)"
  proof (rule outcome_then [OF k])
    fix p1 m1 assume k1: "keeps p m p1 m1" and "\<exists>s. t = Some s \<and> wrote p1 (bs @ s) \<and> out_depth p1 = d"
    then obtain s where s: "t = Some s" "wrote p1 (bs @ s)" "out_depth p1 = d" by blast
    then have p1: "wrote p1 (bs @ s) \<and> out_format p1 = fmt \<and> out_depth p1 = d" using p k1 by (simp add: keeps_def)
    show "outcome (l p1 m1) p1 m1 ?E (\<lambda>p'. \<exists>s. ?w = Some s \<and> shows_text p' (bs @ s) \<and> out_depth p' = d)"
      by (rule outcome_weaken [OF assms(2) [unfolded leaves_def, rule_format, OF p1]])
        (use s(1) in \<open>auto split: bind_splits elim: room_le simp: room_keeps [OF k1]\<close>)
  qed
qed

lemma leaves_emit:
  assumes "is_cstr t" "length t < needed" "needed \<le> length t + 1" "adv \<le> length t"
  shows "leaves (emit needed (t @ [NUL]) adv) fmt d (Some t)"
  unfolding leaves_def
proof (intro allI impI)
  fix p and bs :: string and m :: mem assume p: "wrote p bs \<and> out_format p = fmt \<and> out_depth p = d"
  show "outcome (emit needed (t @ [NUL]) adv p m) p m (\<exists>s. Some t = Some s \<and> room p m (length bs + length s + 2))
       (\<lambda>p'. \<exists>s. Some t = Some s \<and> shows_text p' (bs @ s) \<and> out_depth p' = d)"
    by (rule outcome_weaken [OF emit_text [OF conjunct1 [OF p] assms(2,1,4), of m]])
      (use assms(3) p in \<open>auto elim: room_le\<close>)
qed

text \<open>A step may branch on the format, which does not change.\<close>

lemma writes_cong:
  "writes k fmt d t \<Longrightarrow> (\<And>p m. out_format p = fmt \<Longrightarrow> out_depth p = d \<Longrightarrow> l p m = k p m) \<Longrightarrow> writes l fmt d t"
  by (simp add: writes_def)

lemma leaves_cong:
  "leaves k fmt d t \<Longrightarrow> (\<And>p m. out_format p = fmt \<Longrightarrow> out_depth p = d \<Longrightarrow> l p m = k p m) \<Longrightarrow> leaves l fmt d t"
  by (simp add: leaves_def)

lemma outcome_map:
  assumes "outcome r p m E Q" "\<And>p'. Q p' \<Longrightarrow> R (p'\<lparr>out_depth := f (out_depth p')\<rparr>)"
  shows "outcome (do { (ok, p1, m1) \<leftarrow> r; Some (ok, if ok then p1\<lparr>out_depth := f (out_depth p1)\<rparr> else p1, m1) }) p m E R"
proof -
  obtain ok p1 m1 where r: "r = Some (ok, p1, m1)" "keeps p m p1 m1" "ok \<longrightarrow> Q p1" "E \<longrightarrow> ok"
    using assms(1) unfolding outcome_def by blast
  show ?thesis
    by (rule outcomeI [of _ ok "if ok then p1\<lparr>out_depth := f (out_depth p1)\<rparr> else p1" m1])
      (use r assms(2) in \<open>auto simp: keeps_def owned_def\<close>)
qed

lemma enclose:
  assumes body: "writes body fmt (d + 1) t"
    and lens: "length cs \<le> n" "n \<le> length cs + 1" "length ce < n'" "n' \<le> length ce + 1" "is_cstr ce"
    and close: "\<And>p m. out_format p = fmt \<Longrightarrow> out_depth p = d + 1 \<Longrightarrow> close p m = print_close ce n' p m"
  shows "leaves (\<lambda>p m. then_do (print_open cs n p m) (\<lambda>p m. then_do (body p m) close)) fmt d
           (do { s \<leftarrow> t; Some (cs @ s @ ce) })"
  unfolding leaves_def
proof (intro allI impI)
  fix p and bs :: string and m :: mem
  let ?w = "do { s \<leftarrow> t; Some (cs @ s @ ce) }"
  let ?E = "\<exists>s. ?w = Some s \<and> room p m (length bs + length s + 2)"
  assume p: "wrote p bs \<and> out_format p = fmt \<and> out_depth p = d"
  have "outcome (emit n cs (length cs) p m) p m ?E (\<lambda>p'. wrote p' (bs @ cs) \<and> out_depth p' = d)"
    by (rule outcome_weaken [OF emit_bytes [OF conjunct1 [OF p] lens(1), of m]])
      (use lens(2) p in \<open>auto split: bind_splits elim: room_le\<close>)
  then have o: "outcome (print_open cs n p m) p m ?E (\<lambda>p'. wrote p' (bs @ cs) \<and> out_depth p' = d + 1)"
    unfolding print_open_def by (rule outcome_map) (auto simp: wrote_def)
  show "outcome (then_do (print_open cs n p m) (\<lambda>p m. then_do (body p m) close)) p m ?E
      (\<lambda>p'. \<exists>s. ?w = Some s \<and> shows_text p' (bs @ s) \<and> out_depth p' = d)"
  proof (rule outcome_then [OF o])
    fix p1 m1 assume k1: "keeps p m p1 m1" and w1: "wrote p1 (bs @ cs) \<and> out_depth p1 = d + 1"
    then have p1: "wrote p1 (bs @ cs) \<and> out_format p1 = fmt \<and> out_depth p1 = d + 1" using p by (simp add: keeps_def)
    have b: "outcome (body p1 m1) p1 m1 ?E (\<lambda>p'. \<exists>s. t = Some s \<and> wrote p' ((bs @ cs) @ s) \<and> out_depth p' = d + 1)"
      by (rule outcome_weaken [OF body [unfolded writes_def, rule_format, OF p1]])
        (auto split: bind_splits elim: room_le simp: room_keeps [OF k1])
    show "outcome (then_do (body p1 m1) close) p1 m1 ?E
      (\<lambda>p'. \<exists>s. ?w = Some s \<and> shows_text p' (bs @ s) \<and> out_depth p' = d)"
    proof (rule outcome_then [OF b])
      fix p2 m2 assume k2: "keeps p1 m1 p2 m2"
        and "\<exists>s. t = Some s \<and> wrote p2 ((bs @ cs) @ s) \<and> out_depth p2 = d + 1"
      then obtain s where s: "t = Some s" "wrote p2 (bs @ cs @ s)" "out_depth p2 = d + 1" by auto
      have k: "keeps p m p2 m2" using keeps_trans [OF k1 k2] .
      have c: "close p2 m2 = print_close ce n' p2 m2" using close p k s(3) by (simp add: keeps_def)
      have "outcome (emit n' (ce @ [NUL]) 0 p2 m2) p2 m2 ?E
          (\<lambda>p'. shows_text p' (bs @ cs @ s @ ce) \<and> out_depth p' = d + 1)"
        by (rule outcome_weaken [OF emit_text [OF s(2) lens(3,5) le0, of m2]])
          (use lens(4) s in \<open>auto elim: room_le simp: room_keeps [OF k]\<close>)
      then show "outcome (close p2 m2) p2 m2 ?E (\<lambda>p'. \<exists>s. ?w = Some s \<and> shows_text p' (bs @ s) \<and> out_depth p' = d)"
        unfolding print_close_def c by (rule outcome_map) (use s(1) in \<open>auto simp: shows_text_def\<close>)
    qed
  qed
qed

lemma writes_elements:
  assumes "\<forall>e\<in>set es. \<forall>d. leaves (print_value e) fmt d (render fmt d e)"
  shows "writes (print_elements es) fmt d (render_elements fmt d es)"
  using assms
proof (induction es)
  case Nil
  show ?case using writes_skip [of fmt d] by (simp add: print_elements.simps [abs_def])
next
  case (Cons e es)
  define sep where "sep = (if es = [] then [] else if fmt then '', '' else '','')"
  have "writes (\<lambda>p m. then_do (print_value e p m) update) fmt d (render fmt d e)"
    using Cons.prems by (intro leaves_update) simp
  moreover have "writes (\<lambda>p m. if es = [] then Some (True, p, m)
              else if out_format p then emit 3 ('', '' @ [NUL]) 2 p m else emit 2 ('','' @ [NUL]) 1 p m) fmt d (Some sep)"
  proof (cases "es = []")
    case True
    then show ?thesis using writes_skip [of fmt d] by (simp add: sep_def)
  next
    case False
    have "is_cstr sep" by (simp add: sep_def)
    then show ?thesis
      by (rule writes_cong [OF writes_text]) (use False in \<open>simp add: sep_def numeral_eq_Suc\<close>)
  qed
  moreover have "writes (print_elements es) fmt d (render_elements fmt d es)" using Cons by simp
  ultimately have "writes (\<lambda>p m. then_do (then_do (print_value e p m) update) (\<lambda>p m. then_do (if es = [] then Some (True, p, m)
              else if out_format p then emit 3 ('', '' @ [NUL]) 2 p m else emit 2 ('','' @ [NUL]) 1 p m) (print_elements es)))
        fmt d (do { s \<leftarrow> render fmt d e; r \<leftarrow> do { s \<leftarrow> Some sep; r \<leftarrow> render_elements fmt d es; Some (s @ r) }; Some (s @ r) })"
    by (intro writes_then)
  then show ?case by (simp add: then_do_assoc sep_def [symmetric] print_elements.simps(2) [abs_def])
qed

lemma writes_as:
  "writes k fmt d t \<Longrightarrow> t = u \<Longrightarrow> (\<And>p m. l p m = k p m) \<Longrightarrow> writes l fmt d u"
  by (simp add: writes_def)

lemma writes_members:
  assumes "\<forall>e\<in>set es. cstr_opt (jstring e) \<and> (\<forall>d. leaves (print_value e) fmt d (render fmt d e))"
  shows "writes (print_members es) fmt d (render_members fmt d es)"
  using assms
proof (induction es)
  case Nil
  show ?case using writes_skip [of fmt d] by (simp add: print_members.simps [abs_def])
next
  case (Cons e es)
  define colon tail pad where "colon = '':'' @ (if fmt then [CHR 0x09] else [])"
    and "tail = (if es = [] then [] else '','') @ (if fmt then [CHR 0x0A] else [])"
    and "pad = (if fmt then tabs d else [])"
  have A: "writes (\<lambda>p m. if out_format p then emit (out_depth p) (tabs (out_depth p)) (out_depth p) p m
      else Some (True, p, m)) fmt d (Some pad)"
  proof (cases fmt)
    case True
    show ?thesis by (rule writes_cong [OF writes_bytes [of _ "d"]]) (use True in \<open>auto simp: pad_def tabs_def\<close>)
  next
    case False
    show ?thesis unfolding pad_def if_not_P [OF False] by (rule writes_cong [OF writes_skip]) (use False in simp)
  qed
  have ql: "length (quoted (jstring e)) < length (quoted (jstring e)) + 1" by simp
  have "is_cstr (quoted (jstring e))" using Cons.prems by (intro is_cstr_quoted) (auto simp: cstr_opt_def)
  then have "leaves (\<lambda>p m. print_string_ptr (jstring e) p m) fmt d (Some (quoted (jstring e)))"
    unfolding print_string_ptr_emit by (intro leaves_emit) simp_all
  note B = leaves_update [OF this]
  have C: "writes (\<lambda>p m. if out_format p then emit 2 (CHR '':'' # [CHR 0x09]) 2 p m else emit 1 '':'' 1 p m) fmt d (Some colon)"
    by (rule writes_cong [OF writes_bytes [of _ "length colon"]]) (auto simp: colon_def numeral_eq_Suc)
  have D: "writes (\<lambda>p m. then_do (print_value e p m) update) fmt d (render fmt d e)"
    using Cons.prems by (intro leaves_update) simp
  have T: "writes (\<lambda>p m. let tail = (if es = [] then [] else '','') @ (if out_format p then [CHR 0x0A] else []) in
      emit (length tail + 1) (tail @ [NUL]) (length tail) p m) fmt d (Some tail)"
    by (rule writes_cong [OF writes_text]) (auto simp: tail_def)
  have R: "writes (print_members es) fmt d (render_members fmt d es)" using Cons by simp
  note all = writes_then [OF A writes_then [OF B writes_then [OF C writes_then [OF D writes_then [OF T R]]]]]
  show ?case
    by (rule writes_as [OF all [unfolded then_do_assoc]])
      (auto simp: colon_def tail_def pad_def Let_def then_do_def intro!: arg_cong2 [where f = Option.bind] split: Option.bind_split)
qed

lemma leaves_as:
  "leaves k fmt d t \<Longrightarrow> t = u \<Longrightarrow> (\<And>p m. out_format p = fmt \<Longrightarrow> l p m = k p m) \<Longrightarrow> leaves l fmt d u"
  by (simp add: leaves_def)

lemma leaves_if:
  "(c \<Longrightarrow> leaves k fmt d t) \<Longrightarrow> (\<not> c \<Longrightarrow> leaves l fmt d u) \<Longrightarrow>
     leaves (\<lambda>p m. if c then k p m else l p m) fmt d (if c then t else u)"
  by simp

lemma is_cstr_tabs [simp]: "is_cstr (tabs d)"
  unfolding tabs_def by (induction d) simp_all

lemma length_tabs: "length (tabs d) = d"
  by (simp add: tabs_def)

lemma leaves_fail: "leaves (\<lambda>p m. Some (False, p, m)) fmt d None"
  unfolding leaves_def outcome_def by auto

lemma leaves_number:
  assumes "fits_number vd"
  shows "leaves (\<lambda>p m. print_number (Item t vs vi vd k ch) p m) fmt d (Some (number_text vd))"
proof -
  have "leaves (\<lambda>p m. emit (length (number_text vd) + 1) (number_text vd @ [NUL]) (length (number_text vd)) p m) fmt d
      (Some (number_text vd))"
    using assms unfolding fits_number_def by (intro leaves_emit) simp_all
  then show ?thesis by (rule leaves_cong) (use assms in \<open>simp add: print_number_def fits_number_def Let_def\<close>)
qed

lemma leaves_string:
  assumes "cstr_opt vs"
  shows "leaves (\<lambda>p m. print_string_ptr vs p m) fmt d (Some (quoted vs))"
  unfolding print_string_ptr_emit
  by (rule leaves_emit) (use assms in \<open>simp_all add: is_cstr_quoted cstr_opt_def\<close>)

lemma leaves_array:
  assumes "\<forall>e\<in>set ch. \<forall>d. leaves (print_value e) fmt d (render fmt d e)"
  shows "leaves (\<lambda>p m. then_do (print_open ''['' 1 p m) (\<lambda>p m. then_do (print_elements ch p m) (\<lambda>p m. print_close '']'' 2 p m)))
     fmt d (do { s \<leftarrow> render_elements fmt (d + 1) ch; Some (''['' @ s @ '']'') })"
  by (rule enclose [OF writes_elements [OF assms]]) auto

lemma leaves_object:
  assumes "\<forall>e\<in>set ch. cstr_opt (jstring e) \<and> (\<forall>d. leaves (print_value e) fmt d (render fmt d e))"
  shows "leaves (\<lambda>p m.
        then_do (if out_format p then print_open (CHR ''{'' # [CHR 0x0A]) 3 p m else print_open ''{'' 2 p m) (\<lambda>p m.
        then_do (print_members ch p m) (\<lambda>p m.
        if out_format p then print_close (tabs (out_depth p - 1) @ ''}'') (out_depth p + 1) p m
        else print_close ''}'' 2 p m))) fmt d
     (do { s \<leftarrow> render_members fmt (d + 1) ch;
             Some (''{'' @ (if fmt then [CHR 0x0A] else []) @ s @ (if fmt then tabs d else []) @ ''}'') })"
proof (cases fmt)
  case True
  have "leaves (\<lambda>p m. then_do (print_open (CHR ''{'' # [CHR 0x0A]) 3 p m) (\<lambda>p m. then_do (print_members ch p m) (\<lambda>p m.
        if out_format p then print_close (tabs (out_depth p - 1) @ ''}'') (out_depth p + 1) p m
        else print_close ''}'' 2 p m))) fmt d
     (do { s \<leftarrow> render_members fmt (d + 1) ch; Some ((CHR ''{'' # [CHR 0x0A]) @ s @ (tabs d @ ''}'')) })"
    by (rule enclose [OF writes_members [OF assms]]) (use True in \<open>auto simp: length_tabs\<close>)
  then show ?thesis by (rule leaves_as) (simp_all add: True)
next
  case False
  have "leaves (\<lambda>p m. then_do (print_open ''{'' 2 p m) (\<lambda>p m. then_do (print_members ch p m) (\<lambda>p m.
        if out_format p then print_close (tabs (out_depth p - 1) @ ''}'') (out_depth p + 1) p m
        else print_close ''}'' 2 p m))) fmt d
     (do { s \<leftarrow> render_members fmt (d + 1) ch; Some (''{'' @ s @ ''}'') })"
    by (rule enclose [OF writes_members [OF assms]]) (use False in auto)
  then show ?thesis by (rule leaves_as) (simp_all add: False)
qed

lemma leaves_value: "printable it \<Longrightarrow> leaves (print_value it) fmt d (render fmt d it)"
proof (induction it arbitrary: d)
  case (Item t vs vi vd k ch)
  have ch: "\<forall>e\<in>set ch. cstr_opt (jstring e) \<and> (\<forall>d. leaves (print_value e) fmt d (render fmt d e))"
    using Item by (auto simp: list_all_iff printable_jstring)
  have vs: "cstr_opt vs" and num: "t AND 255 = cJSON_Number \<Longrightarrow> fits_number vd" using Item.prems by simp_all
  have ch': "\<forall>e\<in>set ch. \<forall>d. leaves (print_value e) fmt d (render fmt d e)" using ch by blast
  note lit = leaves_emit [where adv = 0]
  have raw: "leaves (\<lambda>p m. case vs of None \<Rightarrow> Some (False, p, m) | Some s \<Rightarrow> emit (length s + 1) (s @ [NUL]) 0 p m) fmt d vs"
    using vs leaves_fail by (cases vs) (auto simp: cstr_opt_def intro!: lit)
  have lits: "leaves (\<lambda>p m. emit 5 (''null'' @ [NUL]) 0 p m) fmt d (Some ''null'')"
    "leaves (\<lambda>p m. emit 6 (''false'' @ [NUL]) 0 p m) fmt d (Some ''false'')"
    "leaves (\<lambda>p m. emit 5 (''true'' @ [NUL]) 0 p m) fmt d (Some ''true'')"
    by (rule lit; simp)+
  show ?case
    unfolding render.simps
    unfolding print_value.simps [abs_def]
    by (intro leaves_if lits leaves_number [OF num] raw leaves_array [OF ch'] leaves_object [OF ch] leaves_fail)
      (simp_all add: print_string_def leaves_string [OF vs])
qed

subsection \<open>The text is a C string\<close>

lemma render_cstr_all:
  "printable it \<Longrightarrow> render fmt d it = Some s \<Longrightarrow> is_cstr s"
  "list_all printable es \<Longrightarrow> render_elements fmt d es = Some s \<Longrightarrow> is_cstr s"
  "list_all printable es \<Longrightarrow> render_members fmt d es = Some s \<Longrightarrow> is_cstr s"
proof (induction fmt d it and fmt d es and fmt d es arbitrary: s and s and s
    rule: render_render_elements_render_members.induct)
  case (1 fmt d t vs vi vd k ch)
  have ch: "list_all printable ch" "cstr_opt vs" using 1(3) by simp_all
  show ?case
  proof (cases "t AND 255 = cJSON_Array \<or> t AND 255 = cJSON_Object")
    case False
    then show ?thesis using 1(3,4)
      by (auto simp: fits_number_def cstr_opt_def intro: is_cstr_quoted split: if_splits)
  next
    case True
    then consider (arr) r where "t AND 255 = cJSON_Array" "render_elements fmt (d + 1) ch = Some r" "s = ''['' @ r @ '']''"
      | (obj) r where "t AND 255 = cJSON_Object" "render_members fmt (d + 1) ch = Some r"
        "s = ''{'' @ (if fmt then [CHR 0x0A] else []) @ r @ (if fmt then tabs d else []) @ ''}''"
      using 1(4) by (auto simp: cjson_type_defs split: bind_splits)
    then show ?thesis
    proof cases
      case arr
      then have "is_cstr r" using 1(1) [OF _ _ _ _ _ _ _ ch(1)] by (simp add: cjson_type_defs)
      then show ?thesis using arr by simp
    next
      case obj
      then have "is_cstr r" using 1(2) [OF _ _ _ _ _ _ _ _ ch(1)] by (simp add: cjson_type_defs)
      then show ?thesis using obj by simp
    qed
  qed
next
  case (3 fmt d e es)
  then show ?case by (auto split: bind_splits)
next
  case (5 fmt d e es)
  then have "is_cstr (quoted (jstring e))"
    using printable_jstring [of e] by (intro is_cstr_quoted) (simp add: cstr_opt_def)
  then show ?case using 5 by (auto split: bind_splits)
qed auto

lemmas render_cstr = render_cstr_all(1)

subsection \<open>The whole printer\<close>

lemma value_runs:
  assumes "printable it" "wrote p []" "out_depth p = 0"
  shows "\<exists>ok p' m'. print_value it p m = Some (ok, p', m') \<and> keeps p m p' m' \<and>
     (ok \<longrightarrow> (\<exists>t. render (out_format p) 0 it = Some t \<and> shows_text p' t \<and> out_depth p' = 0)) \<and>
     ((\<exists>t. render (out_format p) 0 it = Some t \<and> room p m (length t + 2)) \<longrightarrow> ok)"
proof -
  have "wrote p [] \<and> out_format p = out_format p \<and> out_depth p = 0" using assms by simp
  from leaves_value [OF assms(1), of "out_format p" 0, unfolded leaves_def, rule_format, OF this, of m]
  show ?thesis by (simp add: outcome_def)
qed

lemma text_of_shows:
  assumes "shows_text p t" "is_cstr t" "out_buffer p = Some b"
  shows "text_of b = Some t"
proof -
  have "take (length t + 1) b = map Some (t @ [NUL])" using assms by (auto simp: shows_text_def)
  then have b: "b = map Some t @ Some NUL # drop (length t + 1) b"
    using append_take_drop_id [of "length t + 1" b] by simp
  have "strlen_at b = Some (length t)" by (subst b) (rule strlen_at_map [OF assms(2)])
  moreover have "map the (take (length t) b) = t" by (subst b) (simp add: comp_def)
  ultimately show ?thesis by (simp add: text_of_def)
qed

lemma wrote_fresh:
  "0 < n \<or> re \<Longrightarrow>
   wrote \<lparr>out_buffer = Some (replicate n None), out_length = n, out_offset = 0, out_depth = 0,
          noalloc = False, out_format = fmt, has_realloc = re\<rparr> []"
  by (auto simp: wrote_def)

text \<open>The last step of \<open>print\<close>: the block is cut to its length.\<close>

lemma shows_cut:
  assumes "shows_text p t" "is_cstr t" "out_buffer p = Some b"
  shows "text_of (take (length t + 1) b) = Some t"
    "text_of ((take (min (out_length p) (length t + 1)) b
        @ replicate (length t + 1 - length (take (min (out_length p) (length t + 1)) b)) None)[length t := Some NUL]) = Some t"
proof -
  have t: "take (length t + 1) b = map Some (t @ [NUL])" and l: "length t < length b" "length b = out_length p"
    using assms by (auto simp: shows_text_def)
  have x: "text_of (map Some t @ [Some NUL]) = Some t"
    using strlen_at_map [OF assms(2), of "[]"] by (simp add: text_of_def comp_def)
  show "text_of (take (length t + 1) b) = Some t" unfolding t using x by simp
  have m: "min (out_length p) (length t + 1) = length t + 1" using l by simp
  have "(take (length t + 1) b @ replicate (length t + 1 - length (take (length t + 1) b)) None)[length t := Some NUL]
      = map Some t @ [Some NUL]" unfolding t by (simp add: list_update_append)
  then show "text_of ((take (min (out_length p) (length t + 1)) b
        @ replicate (length t + 1 - length (take (min (out_length p) (length t + 1)) b)) None)[length t := Some NUL]) = Some t"
    unfolding m using x by simp
qed

lemma print_json_bounded:
  assumes "printable it"
  shows "\<exists>r m'. print_json re (Some it) fmt m = Some (r, m') \<and>
     live m' = live m + (case r of None \<Rightarrow> 0 | Some _ \<Rightarrow> 1) \<and> reliable m' = reliable m \<and>
     (\<forall>t. r = Some t \<longrightarrow> render fmt 0 it = Some t \<and> length t < int_max) \<and>
     (\<forall>t. reliable m \<and> render fmt 0 it = Some t \<and> length t + 2 \<le> int_max \<longrightarrow> r = Some t)"
proof (cases rule: malloc_split [of m])
  case (2 m1)
  then show ?thesis by (auto simp: print_json_def)
next
  case (1 m1)
  define p0 where "p0 = \<lparr>out_buffer = Some (replicate 256 None), out_length = 256, out_offset = 0, out_depth = 0,
                   noalloc = False, out_format = fmt, has_realloc = re\<rparr>"
  have w: "wrote p0 []" "out_depth p0 = 0" "out_format p0 = fmt" "\<not> noalloc p0" "owned p0 = 1"
    unfolding p0_def using wrote_fresh [of 256] by (simp_all add: owned_def)
  obtain ok p1 m2 where v: "print_value it p0 m1 = Some (ok, p1, m2)" "keeps p0 m1 p1 m2"
    "ok \<longrightarrow> (\<exists>t. render fmt 0 it = Some t \<and> shows_text p1 t \<and> out_depth p1 = 0)"
    "(\<exists>t. render fmt 0 it = Some t \<and> room p0 m1 (length t + 2)) \<longrightarrow> ok"
    using value_runs [OF assms w(1,2), of m1] w(3) by auto
  have live2: "live m2 - owned p1 = live m" "reliable m2 = reliable m"
    using v(2) 1 w(5) by (simp_all add: keeps_def)
  show ?thesis
  proof (cases ok)
    case False
    then have "\<not> (reliable m \<and> render fmt 0 it = Some t \<and> length t + 2 \<le> int_max)" for t
      using v(4) 1 w(4) by (auto simp: room_def)
    then show ?thesis using 1 v(1) False live2
      by (auto simp: print_json_def p0_def [symmetric] owned_def)
  next
    case True
    then obtain t where t: "render fmt 0 it = Some t" "shows_text p1 t" using v(3) by blast
    then obtain b where b: "out_buffer p1 = Some b" unfolding shows_text_def by blast
    have ct: "is_cstr t" using render_cstr [OF assms t(1)] .
    note cut = shows_cut [OF t(2) ct b]
    have run: "print_json re (Some it) fmt m =
       (if re then (let (ok3, m3) = c_realloc m2 in
                    if \<not> ok3 then Some (None, c_free 1 m3) else Some (Some t, m3))
        else (let (ok3, m3) = malloc m2 in
              if \<not> ok3 then Some (None, c_free 1 m3) else Some (Some t, c_free 1 m3)))"
      using 1 v(1) True cut
      by (simp add: print_json_def p0_def [symmetric] update_shows [OF t(2)] b Let_def split: prod.split)
    have l2: "live m2 = live m + 1" using live2 b by (simp add: owned_def)
    have "out_length p1 \<le> int_max" using v(2) by (simp add: keeps_def p0_def)
    then have short: "length t < int_max" using t(2) by (auto simp: shows_text_def)
    show ?thesis
    proof (cases re)
      case True
      then show ?thesis unfolding run using live2(2) l2 t(1) short by (cases rule: realloc_cases [of m2]) auto
    next
      case False
      then show ?thesis unfolding run using live2(2) l2 t(1) short by (cases rule: malloc_split [of m2]) auto
    qed
  qed
qed

lemma print_json_outcome:
  assumes "printable it"
  shows "\<exists>r m'. print_json re (Some it) fmt m = Some (r, m') \<and>
     live m' = live m + (case r of None \<Rightarrow> 0 | Some _ \<Rightarrow> 1) \<and> reliable m' = reliable m \<and>
     (\<forall>t. r = Some t \<longrightarrow> render fmt 0 it = Some t) \<and>
     (\<forall>t. reliable m \<and> render fmt 0 it = Some t \<and> length t + 2 \<le> int_max \<longrightarrow> r = Some t)"
proof -
  have weaker: "(\<forall>t. r = Some t \<longrightarrow> P t \<and> Q t) \<Longrightarrow> \<forall>t. r = Some t \<longrightarrow> P t" for r :: "string option" and P Q by blast
  from print_json_bounded [OF assms, of re fmt m]
  show ?thesis by (elim exE conjE, intro exI conjI) (erule weaker | assumption)+
qed

lemma print_preallocated_outcome:
  assumes "printable it" "int (length b) = len" "len \<le> int int_max"
  shows "\<exists>ok b'. cJSON_PrintPreallocated (Some it) (Some b) len fmt m = Some (ok, Some b', m) \<and> length b' = length b \<and>
     (ok \<longrightarrow> (\<exists>t. render fmt 0 it = Some t \<and> text_of b' = Some t)) \<and>
     (\<forall>t. render fmt 0 it = Some t \<and> length t + 2 \<le> length b \<longrightarrow> ok)"
proof -
  define p0 where "p0 = \<lparr>out_buffer = Some b, out_length = nat len, out_offset = 0, out_depth = 0,
                       noalloc = True, out_format = fmt, has_realloc = True\<rparr>"
  have w: "wrote p0 []" "out_depth p0 = 0" "out_format p0 = fmt" "noalloc p0" "out_length p0 = length b" "out_buffer p0 = Some b"
    using assms(2) unfolding p0_def by (auto simp: wrote_def)
  obtain ok p1 m1 where v: "print_value it p0 m = Some (ok, p1, m1)" "keeps p0 m p1 m1"
    "ok \<longrightarrow> (\<exists>t. render fmt 0 it = Some t \<and> shows_text p1 t \<and> out_depth p1 = 0)"
    "(\<exists>t. render fmt 0 it = Some t \<and> room p0 m (length t + 2)) \<longrightarrow> ok"
    using value_runs [OF assms(1) w(1,2), of m] w(3) by auto
  obtain b' where b': "out_buffer p1 = Some b'" "length b' = length b" and m1: "m1 = m"
    using v(2) w(4,6) by (auto simp: keeps_def)
  have run: "cJSON_PrintPreallocated (Some it) (Some b) len fmt m = Some (ok, Some b', m)"
    using assms(2) v(1) b'(1) m1 by (simp add: cJSON_PrintPreallocated_def p0_def [symmetric])
  moreover have "\<exists>t. render fmt 0 it = Some t \<and> text_of b' = Some t" if ok
    using v(3) that text_of_shows [OF _ render_cstr [OF assms(1)] b'(1)] by blast
  moreover have ok if "render fmt 0 it = Some t" "length t + 2 \<le> length b" for t
  proof -
    have "length t + 2 \<le> int_max" using that(2) assms(2,3) by linarith
    then show ok using v(4) that w(4,5) by (auto simp: room_def)
  qed
  ultimately show ?thesis using b'(2) by blast
qed

lemma print_buffered_outcome:
  assumes "printable it" "0 < prebuffer \<or> re \<and> prebuffer = 0"
  shows "\<exists>r m'. cJSON_PrintBuffered re (Some it) prebuffer fmt m = Some (r, m') \<and>
     live m' = live m + (case r of None \<Rightarrow> 0 | Some _ \<Rightarrow> 1) \<and>
     (\<forall>t. r = Some t \<longrightarrow> render fmt 0 it = Some t) \<and>
     (\<forall>t. reliable m \<and> render fmt 0 it = Some t \<and> length t + 2 \<le> int_max \<longrightarrow> r = Some t)"
proof (cases rule: malloc_split [of m])
  case (2 m1)
  then show ?thesis using assms by (auto simp: cJSON_PrintBuffered_def)
next
  case (1 m1)
  define p0 where "p0 = \<lparr>out_buffer = Some (replicate (nat prebuffer) None), out_length = nat prebuffer, out_offset = 0,
                      out_depth = 0, noalloc = False, out_format = fmt, has_realloc = re\<rparr>"
  have pre: "0 < nat prebuffer \<or> re" "\<not> prebuffer < 0" using assms(2) by auto
  have w: "wrote p0 []" "out_depth p0 = 0" "out_format p0 = fmt" "\<not> noalloc p0" "owned p0 = 1"
    unfolding p0_def using wrote_fresh [OF pre(1)] by (simp_all add: owned_def)
  obtain ok p1 m2 where v: "print_value it p0 m1 = Some (ok, p1, m2)" "keeps p0 m1 p1 m2"
    "ok \<longrightarrow> (\<exists>t. render fmt 0 it = Some t \<and> shows_text p1 t \<and> out_depth p1 = 0)"
    "(\<exists>t. render fmt 0 it = Some t \<and> room p0 m1 (length t + 2)) \<longrightarrow> ok"
    using value_runs [OF assms(1) w(1,2), of m1] w(3) by auto
  have live2: "live m2 - owned p1 = live m" using v(2) 1 w(5) by (simp add: keeps_def)
  show ?thesis
  proof (cases ok)
    case False
    then have "\<not> (reliable m \<and> render fmt 0 it = Some t \<and> length t + 2 \<le> int_max)" for t
      using v(4) 1 w(4) by (auto simp: room_def)
    then show ?thesis using 1 v(1) False live2 pre(2)
      by (auto simp: cJSON_PrintBuffered_def p0_def [symmetric] owned_def)
  next
    case True
    then obtain t where t: "render fmt 0 it = Some t" "shows_text p1 t" using v(3) by blast
    then obtain b where b: "out_buffer p1 = Some b" unfolding shows_text_def by blast
    have "text_of b = Some t" using text_of_shows [OF t(2) render_cstr [OF assms(1) t(1)] b] .
    then have "cJSON_PrintBuffered re (Some it) prebuffer fmt m = Some (Some t, m2)"
      using 1 v(1) True b pre(2) by (simp add: cJSON_PrintBuffered_def p0_def [symmetric])
    then show ?thesis using t(1) live2 b by (auto simp: owned_def)
  qed
qed

text \<open>An integer of at most 15 digits is printed as its decimal digits.\<close>

lemma number_text_int:
  assumes "\<bar>n\<bar> < 10 ^ 15"
  shows "number_text (double_of_int n) = print_int n"
proof -
  have "(10 :: int) ^ 15 \<le> 2 ^ 53" by simp
  then have b: "\<bar>n\<bar> < 2 ^ 53" using assms by linarith
  have "print_int n \<noteq> []" by (simp add: print_int_def)
  define d where "d = double_of_int n"
  have d: "d = Fin (n < 0) (of_int \<bar>n\<bar>)" using double_of_int_exact [OF b] by (simp add: d_def)
  have "number_text d = (let t = print_g 15 d; (test, k) = strtod t in if k = 0 \<or> \<not> d_eq test d then print_g 17 d else t)"
    unfolding number_text_def by (simp only: d double.case)
  then show ?thesis
    using d_eq_refl_int [OF b] \<open>print_int n \<noteq> []\<close> by (simp add: d_def print_g_int [OF assms] strtod_print_int Let_def)
qed

lemma dec_no_NUL: "0 \<le> n \<Longrightarrow> NUL \<notin> set (dec n)"
  using dec_digits [of n NUL] by (auto simp: is_digit_def)

lemma fits_number_int: "\<bar>n\<bar> < 10 ^ 15 \<Longrightarrow> fits_number (double_of_int n)"
  using print_int_length [of n] dec_no_NUL [of n] dec_no_NUL [of "- n"]
  by (auto simp: fits_number_def number_text_int print_int_def is_cstr_def split: if_splits)

subsection \<open>Properties\<close>

text \<open>An object with a nested array, a string that has to be escaped and a negative number.\<close>

definition sample :: cJSON where
  "sample =
     Item cJSON_Object None 0 (Fin False 0) None
       [Item cJSON_Array None 0 (Fin False 0) (Some ''list'')
          [Item cJSON_Number None (- 42) (double_of_int (- 42)) None [], Item cJSON_True None 1 (Fin False 0) None []],
        Item cJSON_String (Some (jtext ''a`b'' @ [CHR 0x01])) 0 (Fin False 0) (Some ''s'') []]"

definition sample_text :: string where
  "sample_text = jtext ''{`list`:[-42,true],`s`:`a$`b$u0001`}''"

lemma sample_printable: "printable sample"
  using fits_number_int [of "- 42"] by (simp add: sample_def cjson_type_defs cstr_opt_def jtext_def)

lemma sample_rendered:
  "render False 0 sample = Some sample_text"
  using number_text_int [of "- 42"]
  by (simp add: sample_def sample_text_def cjson_type_defs jtext_def quoted_def escape_char_def hex_digit_def print_int_def dec.simps digit_def)

lemma sample_text_length: "length sample_text = 36"
  by code_simp

text \<open>C19: The printer implements its specification: for every item whose strings are C strings and whose
  numbers fit \<open>number_buffer\<close>, with either kind of hooks, formatted or not, and whatever the allocator
  does, \<open>print\<close> never accesses a byte outside its blocks or one it has not written, returns the text
  \<open>render\<close> defines or NULL, leaves no block behind but the one it returns, and returns the text whenever
  the allocator works and the text has at most \<open>INT_MAX - 2\<close> bytes.\<close>

theorem print_refines:
  assumes "printable it"
  shows "\<exists>r m'. print_json re (Some it) fmt m = Some (r, m') \<and>
     live m' = live m + (case r of None \<Rightarrow> 0 | Some _ \<Rightarrow> 1) \<and>
     (\<forall>t. r = Some t \<longrightarrow> render fmt 0 it = Some t) \<and>
     (\<forall>t. reliable m \<and> render fmt 0 it = Some t \<and> length t + 2 \<le> int_max \<longrightarrow> r = Some t)"
  using print_json_outcome [OF assms, of re fmt m] by blast

lemma print_refines_witness:
  "\<exists>m'. print_json True (Some sample) False always = Some (Some sample_text, m') \<and> live m' = 1"
proof -
  obtain r m' where r: "print_json True (Some sample) False always = Some (r, m')"
    "live m' = live always + (case r of None \<Rightarrow> 0 | Some _ \<Rightarrow> 1)"
    "\<forall>t. reliable always \<and> render False 0 sample = Some t \<and> length t + 2 \<le> int_max \<longrightarrow> r = Some t"
    using print_refines [OF sample_printable] by blast
  then have "r = Some sample_text" using sample_rendered sample_text_length by simp
  then show ?thesis using r(1,2) by (simp add: always_def)
qed

text \<open>\<open>cJSON_PrintPreallocated\<close> stays inside the caller's block: it allocates nothing, the block keeps
  its length, on success it holds the text of the item as a C string, and a block of two bytes more than
  the text always suffices, whether the text is formatted or not.\<close>

theorem print_preallocated_in_block:
  assumes "printable it" "int (length b) = len" "len \<le> int int_max"
  shows "\<exists>ok b'. cJSON_PrintPreallocated (Some it) (Some b) len fmt m = Some (ok, Some b', m) \<and> length b' = length b \<and>
     (ok \<longrightarrow> (\<exists>t. render fmt 0 it = Some t \<and> text_of b' = Some t)) \<and>
     (\<forall>t. render fmt 0 it = Some t \<and> length t + 2 \<le> length b \<longrightarrow> ok)"
  using print_preallocated_outcome [OF assms] .

lemma print_preallocated_in_block_witness:
  "\<exists>b'. cJSON_PrintPreallocated (Some sample) (Some (replicate 38 None)) 38 False always = Some (True, Some b', always) \<and>
     text_of b' = Some sample_text"
proof -
  define blk :: "char option list" where "blk = replicate 38 None"
  have len: "int (length blk) = 38" and max: "38 \<le> int int_max" by (simp_all add: blk_def)
  from print_preallocated_in_block [OF sample_printable len max, of False always] obtain ok b'
    where r: "cJSON_PrintPreallocated (Some sample) (Some blk) 38 False always = Some (ok, Some b', always)"
    "ok \<longrightarrow> (\<exists>t. render False 0 sample = Some t \<and> text_of b' = Some t)"
    "\<forall>t. render False 0 sample = Some t \<and> length t + 2 \<le> length blk \<longrightarrow> ok" by blast
  then have ok using sample_rendered sample_text_length len by simp
  then show ?thesis using r(1,2) sample_rendered by (simp add: blk_def)
qed

text \<open>With hooks that have no \<open>realloc\<close> and an initial block of no bytes, growing the buffer copies one
  byte from the empty block.\<close>

lemma print_buffered_empty_block:
  "orc m (calls m) \<Longrightarrow> orc m (Suc (calls m)) \<Longrightarrow>
     cJSON_PrintBuffered False (Some (Item cJSON_NULL vs vi vd k ch)) 0 fmt m = None"
  by (simp add: cJSON_PrintBuffered_def malloc_def cjson_type_defs emit_def ensure_def)

end
