(* ===== verification/CDouble_Digits.thy ===== *)
theory CDouble_Digits
  imports CDouble
begin

text \<open>
  What the decimal digits of a double keep of it: the bounds on the digits \<open>printf\<close> writes with \<open>%1.15g\<close>
  and \<open>%1.17g\<close>, and that \<open>strtod\<close> reads 17 digits back as the double they were printed from.
\<close>

subsection \<open>Leading digits\<close>

lemma pow10_add: "pow10 (a + b) = pow10 a * pow10 b"
  by (simp add: pow10_def power_int_add)

lemma pow10_nat: "pow10 (int n) = 10 ^ n"
  by (simp add: pow10_def)

lemma pow10_pos [simp]: "0 < pow10 n"
  by (simp add: pow10_def)

lemma pow10_inverse [simp]: "pow10 n * pow10 (- n) = 1" "pow10 0 = 1"
  by (simp_all add: pow10_def power_int_minus)

lemma pow2_add: "pow2 (a + b) = pow2 a * pow2 b"
  by (simp add: pow2_def power_int_add)

lemma pow2_pos [simp]: "0 < pow2 n"
  by (simp add: pow2_def)

lemma pow10_mono: "a \<le> b \<Longrightarrow> pow10 a \<le> pow10 b"
  by (simp add: pow10_def power_int_increasing)

lemma pow2_mono: "a \<le> b \<Longrightarrow> pow2 a \<le> pow2 b"
  by (simp add: pow2_def power_int_increasing)

lemma pow10_less_cancel: "pow10 a < pow10 b \<Longrightarrow> a < b"
  by (meson pow10_mono not_le)

lemma pow2_less_cancel: "pow2 a < pow2 b \<Longrightarrow> a < b"
  by (meson pow2_mono not_le)

text \<open>
  A quotient of numbers between powers of a base lies between two powers whose exponents differ by two.
\<close>

lemma quotient_between:
  fixes b :: rat
  assumes "1 < b" "0 < p" "0 < q"
    and "b powi (i - 1) \<le> of_int p" "of_int p < b powi i" "b powi (j - 1) \<le> of_int q" "of_int q < b powi j"
  shows "b powi (i - j - 1) < of_int p / of_int q" "of_int p / of_int q < b powi (i - j + 1)"
proof -
  have b: "0 < b" using assms(1) by simp
  have "b powi (i - j - 1) = b powi (i - 1) / b powi j" using b by (simp add: power_int_diff [symmetric] algebra_simps)
  also have "\<dots> < of_int p / of_int q" using assms b by (intro frac_less2) auto
  finally show "b powi (i - j - 1) < of_int p / of_int q" .
  have "of_int p / of_int q < b powi i / b powi (j - 1)" using assms b by (intro frac_less) auto
  also have "\<dots> = b powi (i - j + 1)" using b by (simp add: power_int_diff [symmetric] algebra_simps)
  finally show "of_int p / of_int q < b powi (i - j + 1)" .
qed

lemma flog2_bounds:
  assumes "0 < r"
  shows "pow2 (flog2 r) \<le> r \<and> r < pow2 (flog2 r + 1)"
proof -
  obtain p q where pq: "quotient_of r = (p, q)" by (cases "quotient_of r")
  then have r: "r = of_int p / of_int q" "0 < q" using quotient_of_div quotient_of_denom_pos by blast+
  then have p: "0 < p" using assms by (simp add: zero_less_divide_iff)
  have bounds: "(2 :: rat) powi (blen n - 1) \<le> of_int n \<and> of_int n < (2 :: rat) powi blen n" if "0 < n" for n
  proof -
    have "of_int (2 ^ nat (blen n - 1)) \<le> (of_int n :: rat)" "(of_int n :: rat) < of_int (2 ^ nat (blen n))"
      using blen_bounds [OF that] of_int_le_iff of_int_less_iff by blast+
    then show ?thesis using blen_bounds [OF that] by (simp add: power_int_def)
  qed
  from quotient_between [of 2 p q "blen p" "blen q"] bounds [OF p] bounds [OF r(2)] p r
  have "pow2 (blen p - blen q - 1) < r" "r < pow2 (blen p - blen q + 1)" by (simp_all add: pow2_def)
  then show ?thesis using pq by (auto simp: flog2_def Let_def)
qed

lemma flog10_bounds:
  assumes "0 < r"
  shows "pow10 (flog10 r) \<le> r \<and> r < pow10 (flog10 r + 1)"
proof -
  obtain p q where pq: "quotient_of r = (p, q)" by (cases "quotient_of r")
  then have r: "r = of_int p / of_int q" "0 < q" using quotient_of_div quotient_of_denom_pos by blast+
  then have p: "0 < p" using assms by (simp add: zero_less_divide_iff)
  have bounds: "(10 :: rat) powi (int (length (dec n)) - 1) \<le> of_int n \<and> of_int n < (10 :: rat) powi int (length (dec n))"
    if "0 < n" for n
  proof -
    have "of_int (10 ^ (length (dec n) - 1)) \<le> (of_int n :: rat)" "(of_int n :: rat) < of_int (10 ^ length (dec n))"
      using dec_bounds [OF that] of_int_le_iff of_int_less_iff by blast+
    moreover have "nat (int (length (dec n)) - 1) = length (dec n) - 1" "0 < length (dec n)" by simp_all
    ultimately show ?thesis by (simp add: power_int_def)
  qed
  from quotient_between [of 10 p q "int (length (dec p))" "int (length (dec q))"] bounds [OF p] bounds [OF r(2)] p r
  have "pow10 (int (length (dec p)) - int (length (dec q)) - 1) < r"
    "r < pow10 (int (length (dec p)) - int (length (dec q)) + 1)" by (simp_all add: pow10_def)
  then show ?thesis using pq by (auto simp: flog10_def Let_def)
qed

text \<open>Rounding to an integer moves a number by at most a half, and not across an integer.\<close>

lemma round_even_close: "\<bar>r - of_int (round_even r)\<bar> \<le> 1 / 2"
  using floor_correct [of r] by (auto simp: round_even_def Let_def abs_le_iff)

lemma round_even_ge: "of_int k \<le> r \<Longrightarrow> k \<le> round_even r"
  using floor_mono [of "of_int k" r] by (auto simp: round_even_def Let_def)

lemma round_even_le:
  assumes "r \<le> of_int k"
  shows "round_even r \<le> k"
proof (cases "r = of_int k")
  case True
  then show ?thesis by (simp add: round_even_def Let_def)
next
  case False
  then have "\<lfloor>r\<rfloor> < k" using assms by (simp add: floor_less_iff)
  then show ?thesis by (auto simp: round_even_def Let_def)
qed

lemma round_even_near:
  assumes "\<bar>r - of_int k\<bar> < 1 / 2"
  shows "round_even r = k"
proof -
  have "\<bar>of_int (round_even r - k)\<bar> < (1 :: rat)" using assms round_even_close [of r] unfolding of_int_diff by linarith
  then show ?thesis by (simp add: of_int_abs [symmetric] del: of_int_abs of_int_diff)
qed

subsection \<open>The doubles\<close>

text \<open>A double is one that rounding leaves as it is.\<close>

fun binary64 :: "double \<Rightarrow> bool" where
  "binary64 (Fin s r) \<longleftrightarrow> 0 \<le> r \<and> r < pow2 1024 \<and> rnd r = r"
| "binary64 _ \<longleftrightarrow> True"

definition finite_double :: "double \<Rightarrow> bool" where
  "finite_double d \<longleftrightarrow> (case d of Fin _ _ \<Rightarrow> True | _ \<Rightarrow> False)"

text \<open>The mantissa and the exponent of a finite double.\<close>

definition mantissa_form :: "rat \<Rightarrow> int \<Rightarrow> int \<Rightarrow> bool" where
  "mantissa_form r m e \<longleftrightarrow> r = of_int m * pow2 e \<and> 0 < m \<and> m < 2 ^ 53 \<and> - 1074 \<le> e \<and> (e = - 1074 \<or> 2 ^ 52 \<le> m)"

lemma rnd_form:
  assumes "0 < r"
  shows "rnd r = 0 \<or> (\<exists>m e. mantissa_form (rnd r) m e)"
proof -
  define e where "e = max (flog2 r - 52) (- 1074)"
  define k where "k = round_even (r / pow2 e)"
  have rnd: "rnd r = of_int k * pow2 e" using assms by (simp add: rnd_def e_def k_def Let_def)
  have "r < pow2 (flog2 r + 1)" using flog2_bounds [OF assms] by simp
  also have "\<dots> \<le> pow2 (53 + e)" by (rule pow2_mono) (simp add: e_def)
  also have "\<dots> = 2 ^ 53 * pow2 e" unfolding pow2_add by (simp add: pow2_def)
  finally have "r / pow2 e \<le> of_int (2 ^ 53)" by (simp add: divide_simps)
  then have k1: "k \<le> 2 ^ 53" unfolding k_def by (rule round_even_le)
  have k0: "0 \<le> k" unfolding k_def by (rule round_even_ge) (use assms in \<open>simp add: less_imp_le\<close>)
  have k2: "2 ^ 52 \<le> k" if "e \<noteq> - 1074"
  proof -
    have "2 ^ 52 * pow2 e = pow2 (52 + e)" unfolding pow2_add by (simp add: pow2_def)
    also have "\<dots> = pow2 (flog2 r)" using that by (simp add: e_def)
    also have "\<dots> \<le> r" using flog2_bounds [OF assms] by simp
    finally have "of_int (2 ^ 52) \<le> r / pow2 e" by (simp add: divide_simps)
    then show ?thesis unfolding k_def by (rule round_even_ge)
  qed
  have e: "- 1074 \<le> e" by (simp add: e_def)
  consider "k = 0" | "k = 2 ^ 53" | "0 < k" "k < 2 ^ 53" using k0 k1 by linarith
  then show ?thesis
  proof cases
    case 1
    then show ?thesis using rnd by simp
  next
    case 2
    have "pow2 (1 + e) = 2 * pow2 e" unfolding pow2_add by (simp add: pow2_def)
    then have "mantissa_form (rnd r) (2 ^ 52) (1 + e)" using 2 rnd e by (simp add: mantissa_form_def)
    then show ?thesis by blast
  next
    case 3
    then have "mantissa_form (rnd r) k e" using rnd k2 e by (auto simp: mantissa_form_def)
    then show ?thesis by blast
  qed
qed

text \<open>What is as close to a double as 17 decimal digits are is rounded to it.\<close>

lemma rnd_near:
  assumes d: "mantissa_form d m e" and near: "\<bar>v - d\<bar> \<le> d / (2 * 10 ^ 16)"
  shows "rnd v = d"
proof -
  have m: "d = of_int m * pow2 e" "0 < m" "m < 2 ^ 53" "- 1074 \<le> e" "e = - 1074 \<or> 2 ^ 52 \<le> m"
    using d by (simp_all add: mantissa_form_def)
  define w where "w = v / pow2 e"
  have v: "v = w * pow2 e" by (simp add: w_def pow2_def)
  have mr: "(0 :: rat) < of_int m" "(of_int m :: rat) \<le> of_int (2 ^ 53 - 1)"
    using m(2,3) of_int_le_iff [of m "2 ^ 53 - 1"] by simp_all
  have "\<bar>w - of_int m\<bar> * pow2 e = \<bar>v - d\<bar>" by (simp add: v m(1) left_diff_distrib [symmetric] abs_mult abs_of_pos)
  also have "\<dots> \<le> of_int m / (2 * 10 ^ 16) * pow2 e" using near m(1) by simp
  finally have w: "\<bar>w - of_int m\<bar> \<le> of_int m / (2 * 10 ^ 16)" by simp
  moreover have "of_int m / (2 * 10 ^ 16) < (1 / 2 :: rat)" using mr by simp
  ultimately have half: "\<bar>w - of_int m\<bar> < 1 / 2" by linarith
  have "of_int m / (2 * 10 ^ 16) < (of_int m :: rat)" using mr(1) by simp
  then have "0 < w" using w by linarith
  then have pos: "0 < v" by (simp add: v)
  have fl: "pow2 (flog2 v) \<le> v" "v < pow2 (flog2 v + 1)" using flog2_bounds [OF pos] by simp_all
  have "w < of_int m + 1 / 2" using half by linarith
  then have "w < 2 ^ 53" using mr(2) by simp
  then have "v < 2 ^ 53 * pow2 e" by (simp add: v)
  also have "\<dots> = pow2 (53 + e)" unfolding pow2_add by (simp add: pow2_def)
  finally have up: "flog2 v < 53 + e" using fl(1) pow2_less_cancel le_less_trans by blast
  show ?thesis
  proof (cases "e = - 1074 \<or> 2 ^ 52 \<le> w")
    case True
    have "max (flog2 v - 52) (- 1074) = e"
    proof (cases "e = - 1074")
      case False
      then have "2 ^ 52 \<le> w" using True by simp
      then have "2 ^ 52 * pow2 e \<le> v" by (simp add: v)
      then have "pow2 (52 + e) \<le> v" unfolding pow2_add by (simp add: pow2_def)
      then have "52 + e < flog2 v + 1" using fl(2) pow2_less_cancel le_less_trans by blast
      then show ?thesis using up m(4) by simp
    qed (use up in simp)
    then show ?thesis using round_even_near [OF half] pos by (simp add: rnd_def w_def [symmetric] m(1))
  next
    case False
    then have e: "- 1074 < e" "2 ^ 52 \<le> m" and w52: "w < 2 ^ 52" using m(4,5) by auto
    have "m < 2 ^ 52 + 1"
    proof (rule ccontr)
      assume "\<not> m < 2 ^ 52 + 1"
      then have "of_int (2 ^ 52 + 1) \<le> (of_int m :: rat)" using of_int_le_iff by (metis not_less)
      then show False using half w52 by simp
    qed
    then have m52: "m = 2 ^ 52" using e(2) by simp
    have w': "\<bar>w - 2 ^ 52\<bar> \<le> 2 ^ 52 / (2 * 10 ^ 16)" using w m52 by simp
    have p: "pow2 e = 2 * pow2 (e - 1)" using pow2_add [of 1 "e - 1"] by (simp add: pow2_def)
    have "2 ^ 52 - w \<le> 2 ^ 52 / (2 * 10 ^ 16)" using w' unfolding abs_le_iff by simp
    then have "2 ^ 51 \<le> w" by simp
    then have "2 ^ 51 * pow2 e \<le> v" by (simp add: v)
    then have "pow2 (51 + e) \<le> v" unfolding pow2_add by (simp add: pow2_def)
    then have low: "51 + e < flog2 v + 1" using fl(2) pow2_less_cancel le_less_trans by blast
    have "v < 2 ^ 52 * pow2 e" using w52 by (simp add: v)
    then have "v < pow2 (52 + e)" unfolding pow2_add by (simp add: pow2_def)
    then have "flog2 v < 52 + e" using fl(1) pow2_less_cancel le_less_trans by blast
    then have max: "max (flog2 v - 52) (- 1074) = e - 1" using low e(1) by simp
    have "\<bar>w - 2 ^ 52\<bar> < 1 / 4" by (rule le_less_trans [OF w']) simp
    then have "w - 2 ^ 52 < 1 / 4" "2 ^ 52 - w < 1 / 4" unfolding abs_less_iff by simp_all
    then have near2: "\<bar>2 * w - of_int (2 ^ 53)\<bar> < 1 / 2" unfolding abs_less_iff by simp
    have "v / pow2 (e - 1) = 2 * w" using less_imp_neq [OF pow2_pos, of "e - 1"] by (simp add: v p del: pow2_pos)
    then have "round_even (v / pow2 (e - 1)) = 2 ^ 53" using round_even_near [OF near2] by simp
    then show ?thesis using pos max by (simp add: rnd_def m(1) m52 p)
  qed
qed

lemma mantissa_form_exact: "mantissa_form d m e \<Longrightarrow> rnd d = d"
  by (rule rnd_near) (assumption, simp add: mantissa_form_def less_imp_le)

lemma binary64_form:
  assumes "binary64 (Fin s r)" "r \<noteq> 0"
  shows "\<exists>m e. mantissa_form r m e"
  using assms rnd_form [of r] by simp

lemma binary64_mk_double:
  assumes "0 \<le> r"
  shows "binary64 (mk_double s r)"
proof (cases "rnd r = 0")
  case True
  then show ?thesis by (simp add: mk_double_def rnd_def)
next
  case False
  then have "0 < r" using assms by (cases "r = 0") (simp_all add: rnd_def)
  then obtain m e where me: "mantissa_form (rnd r) m e" using rnd_form False by blast
  then have "0 \<le> rnd r" by (simp add: mantissa_form_def less_imp_le)
  then show ?thesis using mantissa_form_exact [OF me] by (simp add: mk_double_def)
qed

text \<open>The smallest and the largest power of ten of a finite double.\<close>

lemma binary64_exponent:
  assumes "binary64 (Fin s r)" "r \<noteq> 0"
  shows "- 324 \<le> flog10 r \<and> flog10 r \<le> 308"
proof -
  obtain m e where me: "mantissa_form r m e" using binary64_form [OF assms] by blast
  have r: "0 < r" "r < pow2 1024" using assms by simp_all
  have fl: "pow10 (flog10 r) \<le> r" "r < pow10 (flog10 r + 1)" using flog10_bounds [OF r(1)] by simp_all
  have "pow10 (- 324) \<le> pow2 (- 1074)" by (simp add: pow10_def pow2_def)
  also have "\<dots> \<le> pow2 e" using me by (intro pow2_mono) (simp add: mantissa_form_def)
  also have "\<dots> \<le> r" using me by (simp add: mantissa_form_def)
  finally have "- 324 < flog10 r + 1" using fl(2) pow10_less_cancel le_less_trans by blast
  moreover have "pow2 1024 \<le> pow10 309" by (simp add: pow10_def pow2_def)
  then have "flog10 r < 309" using r(2) fl(1) pow10_less_cancel by (meson le_less_trans less_le_trans)
  ultimately show ?thesis by simp
qed

subsection \<open>The digits and their layout\<close>

text \<open>How \<open>%g\<close> lays out \<open>P\<close> significant digits with the decimal exponent \<open>x\<close>.\<close>

definition g_text :: "nat \<Rightarrow> string \<Rightarrow> int \<Rightarrow> string" where
  "g_text P ds x =
     (if x < - 4 \<or> int P \<le> x then
        with_point (take 1 ds) (strip0 (drop 1 ds)) @ CHR ''e'' # (if x < 0 then CHR ''-'' else CHR ''+'') #
          (if \<bar>x\<bar> < 10 then CHR ''0'' # dec \<bar>x\<bar> else dec \<bar>x\<bar>)
      else if 0 \<le> x then with_point (take (nat x + 1) ds) (strip0 (drop (nat x + 1) ds))
      else with_point ''0'' (strip0 (replicate (nat (- x) - 1) (CHR ''0'') @ ds)))"

lemma dec_length_exact:
  assumes "10 ^ (P - 1) \<le> n" "n < 10 ^ P" "0 < P"
  shows "length (dec n) = P"
proof -
  have n: "0 < n" using assms(1) by (meson less_le_trans zero_less_numeral zero_less_power)
  have "(10 :: int) ^ (P - 1) < 10 ^ length (dec n)" using assms(1) dec_bounds [OF n] by linarith
  then have "P - 1 < length (dec n)" by (simp add: power_strict_increasing_iff)
  then show ?thesis using dec_length_le [OF n assms(2)] assms(3) by simp
qed

lemma print_g_digits:
  assumes "0 < r" "0 < P"
  obtains d x where "print_g_pos P r = g_text P (dec d) x" "0 < d" "length (dec d) = P"
    "\<bar>of_int d * pow10 (x - (int P - 1)) - r\<bar> \<le> pow10 (flog10 r - (int P - 1)) / 2"
    "flog10 r \<le> x" "x \<le> flog10 r + 1"
proof -
  define x0 where "x0 = flog10 r"
  define s where "s = r * pow10 (int P - 1 - x0)"
  define d0 where "d0 = round_even s"
  have fl: "pow10 x0 \<le> r" "r < pow10 (x0 + 1)" using flog10_bounds [OF assms(1)] by (simp_all add: x0_def)
  have undo: "t * pow10 (int P - 1 - x0) * pow10 (x0 - (int P - 1)) = t" for t
    using pow10_inverse(1) [of "int P - 1 - x0"] by (simp add: mult.assoc)
  have "of_int (10 ^ (P - 1)) = pow10 x0 * pow10 (int P - 1 - x0)"
    using assms(2) unfolding pow10_add [symmetric] by (simp add: pow10_def power_int_def nat_diff_distrib)
  also have "\<dots> \<le> s" using fl(1) by (simp add: s_def)
  finally have lo: "10 ^ (P - 1) \<le> d0" unfolding d0_def by (rule round_even_ge)
  have "s \<le> pow10 (x0 + 1) * pow10 (int P - 1 - x0)" using fl(2) by (simp add: s_def)
  also have "\<dots> = of_int (10 ^ P)" unfolding pow10_add [symmetric] by (simp add: pow10_def)
  finally have hi: "d0 \<le> 10 ^ P" unfolding d0_def by (rule round_even_le)
  have "of_int d0 * pow10 (x0 - (int P - 1)) - r = (of_int d0 - s) * pow10 (x0 - (int P - 1))"
    using undo [of r] unfolding left_diff_distrib s_def by simp
  then have "\<bar>of_int d0 * pow10 (x0 - (int P - 1)) - r\<bar> = \<bar>of_int d0 - s\<bar> * pow10 (x0 - (int P - 1))"
    using pow10_pos [of "x0 - (int P - 1)"] by (simp only: abs_mult abs_of_pos)
  also have "\<dots> \<le> 1 / 2 * pow10 (x0 - (int P - 1))"
    using round_even_close [of s] by (intro mult_right_mono) (simp_all add: d0_def abs_minus_commute less_imp_le)
  finally have close: "\<bar>of_int d0 * pow10 (x0 - (int P - 1)) - r\<bar> \<le> pow10 (x0 - (int P - 1)) / 2" by simp
  have unf: "print_g_pos P r = (let (d, x) = (if d0 = 10 ^ P then (10 ^ (P - 1), x0 + 1) else (d0, x0)) in g_text P (dec d) x)"
    by (simp only: print_g_pos_def g_text_def x0_def d0_def s_def Let_def)
  show thesis
  proof (cases "d0 = 10 ^ P")
    case True
    have "(of_int (10 ^ P) :: rat) * pow10 (x0 - (int P - 1)) = of_int (10 ^ (P - 1)) * pow10 (x0 + 1 - (int P - 1))"
      using assms(2) by (cases P) (simp_all add: pow10_def power_int_add power_int_diff)
    then have "\<bar>of_int (10 ^ (P - 1)) * pow10 (x0 + 1 - (int P - 1)) - r\<bar> \<le> pow10 (x0 - (int P - 1)) / 2"
      using close True by metis
    moreover have "length (dec (10 ^ (P - 1))) = P" using assms(2) by (intro dec_length_exact) (auto intro: power_strict_increasing)
    ultimately show thesis using that [of "10 ^ (P - 1)" "x0 + 1"] unf True by (simp add: x0_def)
  next
    case False
    then have "length (dec d0) = P" using lo hi assms(2) by (intro dec_length_exact) auto
    moreover have "0 < d0" using lo by (meson less_le_trans zero_less_numeral zero_less_power)
    ultimately show thesis using that [of d0 x0] unf False close by (simp add: x0_def)
  qed
qed

subsection \<open>Reading the text back\<close>

lemma strip0_split: "\<exists>k. ds = strip0 ds @ replicate k (CHR ''0'')"
proof -
  have "rev ds = takeWhile (\<lambda>c. c = CHR ''0'') (rev ds) @ dropWhile (\<lambda>c. c = CHR ''0'') (rev ds)" by simp
  then have "ds = strip0 ds @ rev (takeWhile (\<lambda>c. c = CHR ''0'') (rev ds))"
    unfolding strip0_def by (metis rev_append rev_rev_ident)
  moreover have "rev (takeWhile (\<lambda>c. c = CHR ''0'') (rev ds)) = replicate k (CHR ''0'')"
    if "k = length (takeWhile (\<lambda>c. c = CHR ''0'') (rev ds))" for k
    using that by (intro replicate_eqI) (auto dest: set_takeWhileD)
  ultimately show ?thesis by metis
qed

lemma strip0_length: "length (strip0 ds) \<le> length ds"
  using strip0_split [of ds] by (metis length_append le_add1)

lemma strip0_set: "c \<in> set (strip0 ds) \<Longrightarrow> c \<in> set ds"
  using strip0_split [of ds] by (metis Un_iff set_append)

lemma dec_val_zeros: "dec_val (ds @ replicate k (CHR ''0'')) = dec_val ds * 10 ^ k"
proof (induction k)
  case (Suc k)
  have "dec_val (ds @ replicate (Suc k) (CHR ''0'')) = 10 * dec_val (ds @ replicate k (CHR ''0''))"
    by (simp only: replicate_Suc replicate_append_same [symmetric] append_assoc [symmetric] dec_val_snoc)
      (simp add: digit_val_def)
  then show ?case using Suc by simp
qed simp

lemma dec_val_lead: "dec_val (replicate k (CHR ''0'') @ ds) = dec_val ds"
  by (induction k) (simp_all add: dec_val_def digit_val_def)

text \<open>Dropping zeros behind the point changes the digits and the scale, not the number.\<close>

lemma strip0_scale:
  "of_int (dec_val (ip @ strip0 fp)) * pow10 (ex - int (length (strip0 fp))) =
   of_int (dec_val (ip @ fp)) * pow10 (ex - int (length fp))"
proof -
  obtain k where k: "fp = strip0 fp @ replicate k (CHR ''0'')" using strip0_split by blast
  then have v: "dec_val (ip @ fp) = dec_val (ip @ strip0 fp) * 10 ^ k" by (metis append_assoc dec_val_zeros)
  have l: "length fp = length (strip0 fp) + k" using arg_cong [OF k, of length] by simp
  have "ex - int (length (strip0 fp)) = int k + (ex - int (length fp))" using l by simp
  then have "pow10 (ex - int (length (strip0 fp))) = 10 ^ k * pow10 (ex - int (length fp))"
    by (metis pow10_add pow10_nat)
  then show ?thesis unfolding v by simp
qed

lemma decimal_text:
  assumes "list_all is_digit ip" "list_all is_digit fp" "ip \<noteq> []" "exp_part ex = (E, length ex)"
    and "ex = [] \<or> hd ex = CHR ''e''"
  shows "decimal (with_point ip fp @ ex) =
           Some (of_int (dec_val (ip @ fp)) * pow10 (E - int (length fp)), length (with_point ip fp @ ex))"
proof -
  have e: "\<not> is_digit (CHR ''e'')" "\<not> is_digit (CHR ''.'')" by (simp_all add: is_digit_def)
  have stop: "takeWhile is_digit (ds @ ex) = ds" "takeWhile is_digit (ds @ CHR ''.'' # u) = ds" if "list_all is_digit ds" for ds u
    using that assms(5) e by (cases ex; auto simp: takeWhile_append2 list_all_iff)+
  show ?thesis
  proof (cases "fp = []")
    case True
    have tw: "takeWhile is_digit (ip @ ex) = ip" by (rule stop(1) [OF assms(1)])
    have "(case ex of [] \<Rightarrow> ([], 0) | c # t \<Rightarrow>
        if c = CHR ''.'' then (takeWhile is_digit t, 1 + length (takeWhile is_digit t)) else ([], 0)) = ([], 0)"
      using assms(5) by (cases ex) auto
    then show ?thesis using True assms(3,4) by (simp add: decimal_def with_point_def Let_def tw)
  next
    case False
    have tw: "takeWhile is_digit (ip @ CHR ''.'' # fp @ ex) = ip" "takeWhile is_digit (fp @ ex) = fp"
      using stop(1) [OF assms(2)] stop(2) [OF assms(1)] by blast+
    show ?thesis using False assms(3,4) by (simp add: decimal_def with_point_def Let_def tw)
  qed
qed

lemma exp_part_dec:
  "exp_part (CHR ''e'' # (if x < 0 then CHR ''-'' else CHR ''+'') # (if \<bar>x\<bar> < 10 then CHR ''0'' # dec \<bar>x\<bar> else dec \<bar>x\<bar>)) =
     (x, 2 + length (if \<bar>x\<bar> < 10 then CHR ''0'' # dec \<bar>x\<bar> else dec \<bar>x\<bar>))"
proof -
  define ds where "ds = (if \<bar>x\<bar> < 10 then CHR ''0'' # dec \<bar>x\<bar> else dec \<bar>x\<bar>)"
  have d: "\<forall>c\<in>set ds. is_digit c" using dec_digits [of "\<bar>x\<bar>"] by (auto simp: ds_def is_digit_def)
  have "dec_val (CHR ''0'' # dec \<bar>x\<bar>) = \<bar>x\<bar>" using dec_val_lead [of 1 "dec \<bar>x\<bar>"] dec_val_dec [of "\<bar>x\<bar>"] by simp
  then have v: "dec_val ds = \<bar>x\<bar>" "ds \<noteq> []" using dec_val_dec [of "\<bar>x\<bar>"] by (simp_all add: ds_def)
  have tw: "takeWhile is_digit ds = ds" using d by (simp add: takeWhile_eq_all_conv)
  show ?thesis using v unfolding ds_def [symmetric] by (simp add: exp_part_def sign_of_def Let_def tw)
qed

definition number_shape :: "string \<Rightarrow> bool" where
  "number_shape t \<longleftrightarrow> (\<exists>c s. t = c # s \<and> is_digit c) \<and>
     (\<forall>c\<in>set t. is_digit c \<or> c = CHR ''.'' \<or> c = CHR ''e'' \<or> c = CHR ''+'' \<or> c = CHR ''-'')"

lemma with_point_shape:
  assumes "list_all is_digit ip" "list_all is_digit fp" "ip \<noteq> []"
    "\<forall>c\<in>set ex. is_digit c \<or> c = CHR ''e'' \<or> c = CHR ''+'' \<or> c = CHR ''-''"
  shows "number_shape (with_point ip fp @ ex)"
  using assms by (cases ip) (auto simp: number_shape_def with_point_def list_all_iff)

lemma with_point_length: "length (with_point ip fp) \<le> length ip + length fp + 1"
  by (simp add: with_point_def)

lemma strip0_digits: "list_all is_digit ds \<Longrightarrow> list_all is_digit (strip0 ds)"
  using strip0_set by (auto simp: list_all_iff)

lemma zero_digits [simp]: "list_all is_digit (replicate k (CHR ''0''))" "is_digit (CHR ''0'')"
  by (simp_all add: list_all_iff is_digit_def)

lemma dec_list_digits [simp]: "0 \<le> n \<Longrightarrow> list_all is_digit (dec n)"
  using dec_digits by (simp add: list_all_iff)

text \<open>The text is a number, its length is bounded, and its value is that of the digits.\<close>

lemma g_text_shape:
  assumes "list_all is_digit ds" "length ds = P" "0 < P"
  shows "number_shape (g_text P ds x)"
    and "decimal (g_text P ds x) = Some (of_int (dec_val ds) * pow10 (x - (int P - 1)), length (g_text P ds x))"
    and "\<bar>x\<bar> < 1000 \<Longrightarrow> length (g_text P ds x) \<le> P + 6"
proof -
  have sub: "list_all is_digit (take n ds)" "list_all is_digit (strip0 (drop n ds))" for n
    using assms(1) by (auto simp: list_all_iff dest: in_set_takeD in_set_dropD strip0_set)
  have ne: "take (Suc n) ds \<noteq> []" for n using assms(2,3) by auto
  let ?ex = "CHR ''e'' # (if x < 0 then CHR ''-'' else CHR ''+'') # (if \<bar>x\<bar> < 10 then CHR ''0'' # dec \<bar>x\<bar> else dec \<bar>x\<bar>)"
  have ex: "exp_part ?ex = (x, length ?ex)" unfolding exp_part_dec by simp
  have exc: "\<forall>c\<in>set ?ex. is_digit c \<or> c = CHR ''e'' \<or> c = CHR ''+'' \<or> c = CHR ''-''"
    using dec_digits [of "\<bar>x\<bar>"] by auto
  have e0: "exp_part [] = (0, 0)" by (simp add: exp_part_def)
  consider (sci) "x < - 4 \<or> int P \<le> x" | (fixed) "0 \<le> x" "x < int P" | (small) "- 4 \<le> x" "x < 0" by linarith
  then have "number_shape (g_text P ds x) \<and>
     decimal (g_text P ds x) = Some (of_int (dec_val ds) * pow10 (x - (int P - 1)), length (g_text P ds x)) \<and>
     (\<bar>x\<bar> < 1000 \<longrightarrow> length (g_text P ds x) \<le> P + 6)"
  proof cases
    case sci
    then have t: "g_text P ds x = with_point (take 1 ds) (strip0 (drop 1 ds)) @ ?ex" unfolding g_text_def by (rule if_P)
    have "int (length (drop 1 ds)) = int P - 1" using assms(2,3) by simp
    then have "decimal (g_text P ds x) = Some (of_int (dec_val ds) * pow10 (x - (int P - 1)), length (g_text P ds x))"
      unfolding t using decimal_text [of "take 1 ds" "strip0 (drop 1 ds)" ?ex x, OF sub _ ex] ne [of 0] strip0_scale [of "take 1 ds" "drop 1 ds" x] by simp
    moreover have "length (g_text P ds x) \<le> P + 6" if "\<bar>x\<bar> < 1000"
    proof -
      have "length (dec \<bar>x\<bar>) \<le> 3" using that dec_length_le [of "\<bar>x\<bar>" 3] by (cases "x = 0") (simp_all add: dec.simps)
      moreover have "length (dec \<bar>x\<bar>) \<le> 1" if "\<bar>x\<bar> < 10" using that by (simp add: dec.simps)
      moreover have "length (strip0 (drop 1 ds)) \<le> P - 1" using strip0_length [of "drop 1 ds"] assms(2) by simp
      moreover have "length (take 1 ds) = 1" using assms(2,3) by simp
      ultimately show ?thesis
        unfolding t using with_point_length [of "take 1 ds" "strip0 (drop 1 ds)"] assms(3) by auto
    qed
    moreover have "number_shape (g_text P ds x)"
      unfolding t by (rule with_point_shape [OF sub(1) sub(2) _ exc]) (use ne [of 0] in simp)
    ultimately show ?thesis by blast
  next
    case fixed
    then have t: "g_text P ds x = with_point (take (Suc (nat x)) ds) (strip0 (drop (Suc (nat x)) ds)) @ []"
      by (simp add: g_text_def)
    have "0 - int (length (drop (Suc (nat x)) ds)) = x - (int P - 1)" using fixed assms(2) by simp
    then have "decimal (g_text P ds x) = Some (of_int (dec_val ds) * pow10 (x - (int P - 1)), length (g_text P ds x))"
      unfolding t using decimal_text [of "take (Suc (nat x)) ds" "strip0 (drop (Suc (nat x)) ds)" "[]" 0, OF sub ne] e0
        strip0_scale [of "take (Suc (nat x)) ds" "drop (Suc (nat x)) ds" 0] by simp
    moreover have "length (g_text P ds x) \<le> P + 6"
      unfolding t using with_point_length [of "take (Suc (nat x)) ds" "strip0 (drop (Suc (nat x)) ds)"]
        strip0_length [of "drop (Suc (nat x)) ds"] assms(2) fixed by simp
    moreover have "number_shape (g_text P ds x)"
      unfolding t by (rule with_point_shape [OF sub(1) sub(2) ne]) simp
    ultimately show ?thesis by blast
  next
    case small
    define fp where "fp = replicate (nat (- x) - 1) (CHR ''0'') @ ds"
    have t: "g_text P ds x = with_point ''0'' (strip0 fp) @ []" using small by (simp add: g_text_def fp_def)
    have d: "list_all is_digit (strip0 fp)" using assms(1) by (intro strip0_digits) (simp add: fp_def)
    have l: "length fp = nat (- x) - 1 + P" using assms(2) by (simp add: fp_def)
    then have "0 - int (length fp) = x - (int P - 1)" using small by simp
    moreover have "dec_val (''0'' @ fp) = dec_val ds"
      using dec_val_lead [of "Suc (nat (- x) - 1)" ds] by (simp add: fp_def)
    ultimately have "decimal (g_text P ds x) = Some (of_int (dec_val ds) * pow10 (x - (int P - 1)), length (g_text P ds x))"
      unfolding t using decimal_text [of "''0''" "strip0 fp" "[]" 0] d e0 strip0_scale [of "''0''" fp 0] by simp
    moreover have "length (g_text P ds x) \<le> P + 6"
      unfolding t using with_point_length [of "''0''" "strip0 fp"] strip0_length [of fp] l small by simp
    moreover have "number_shape (g_text P ds x)"
      unfolding t by (rule with_point_shape [OF _ d]) (simp_all)
    ultimately show ?thesis by blast
  qed
  then show "number_shape (g_text P ds x)"
    and "decimal (g_text P ds x) = Some (of_int (dec_val ds) * pow10 (x - (int P - 1)), length (g_text P ds x))"
    and "\<bar>x\<bar> < 1000 \<Longrightarrow> length (g_text P ds x) \<le> P + 6" by blast+
qed

lemma strtod_shape:
  assumes "number_shape t" "decimal t = Some (r, length t)"
  shows "strtod ((if neg then [CHR ''-''] else []) @ t) = (mk_double neg r, length ((if neg then [CHR ''-''] else []) @ t))"
proof -
  obtain c u where t: "t = c # u" and c: "is_digit c" using assms(1) by (auto simp: number_shape_def)
  have no_x: "lower (hd u) \<noteq> CHR ''x''" if "u \<noteq> []"
  proof -
    have "hd u \<in> set t" using that t by simp
    then have "is_digit (hd u) \<or> hd u = CHR ''.'' \<or> hd u = CHR ''e'' \<or> hd u = CHR ''+'' \<or> hd u = CHR ''-''"
      using assms(1) by (auto simp: number_shape_def)
    then show ?thesis using is_digit_not(2,7) [of "hd u"] by (auto simp: lower_def)
  qed
  note d = is_digit_not [OF c]
  have ws: "takeWhile is_space ((if neg then [CHR ''-''] else []) @ t) = []" using d t by (auto simp: is_space_def)
  have sg: "sign_of ((if neg then [CHR ''-''] else []) @ t) = (neg, if neg then 1 else 0)" using d t by (auto simp: sign_of_def)
  have sp: "special neg t = None" using d t by (auto simp: special_def)
  have hx: "hexadecimal t = None" using no_x t by (cases u) (auto simp: hexadecimal_def)
  show ?thesis by (cases neg) (use ws sg sp hx assms(2) in \<open>simp_all add: strtod_def\<close>)
qed

text \<open>What \<open>printf\<close> writes for a finite double, whatever the precision.\<close>

lemma print_g_reads:
  assumes "binary64 (Fin s r)" "0 < P"
  obtains t v where "print_g P (Fin s r) = (if s then [CHR ''-''] else []) @ t" "number_shape t" "length t \<le> P + 6"
    "strtod (print_g P (Fin s r)) = (mk_double s v, length (print_g P (Fin s r)))" "0 \<le> v"
    "r = 0 \<Longrightarrow> v = 0" "r \<noteq> 0 \<Longrightarrow> \<bar>v - r\<bar> \<le> pow10 (flog10 r - (int P - 1)) / 2"
proof (cases "r = 0")
  case True
  have "number_shape ''0''" by (simp add: number_shape_def)
  moreover have "decimal ''0'' = Some (0, length ''0'')"
    by (simp add: decimal_def Let_def exp_part_def dec_val_def digit_val_def)
  ultimately show thesis using that [of "''0''" 0] strtod_shape [of "''0''" 0 s] True by simp
next
  case False
  then have r: "0 < r" using assms(1) by simp
  from print_g_digits [OF r assms(2)] obtain d x where dx: "print_g_pos P r = g_text P (dec d) x" "0 < d" "length (dec d) = P"
    "\<bar>of_int d * pow10 (x - (int P - 1)) - r\<bar> \<le> pow10 (flog10 r - (int P - 1)) / 2" "flog10 r \<le> x" "x \<le> flog10 r + 1"
    by blast
  have "- 324 \<le> flog10 r" "flog10 r \<le> 308" using binary64_exponent [OF assms(1) False] by blast+
  then have "\<bar>x\<bar> < 1000" using dx(5,6) by linarith
  then have g: "number_shape (g_text P (dec d) x)" "length (g_text P (dec d) x) \<le> P + 6"
    "decimal (g_text P (dec d) x) = Some (of_int d * pow10 (x - (int P - 1)), length (g_text P (dec d) x))"
    using g_text_shape [of "dec d" P x] dx(2,3) assms(2) dec_val_dec [of d] by simp_all
  show thesis
    by (rule that [of "g_text P (dec d) x" "of_int d * pow10 (x - (int P - 1))"])
      (use g dx(1,2,4) False strtod_shape [OF g(1,3), of s] in \<open>simp_all add: less_imp_le\<close>)
qed

text \<open>Seventeen digits determine the double.\<close>

lemma strtod_print_g_17:
  assumes "binary64 (Fin s r)"
  shows "strtod (print_g 17 (Fin s r)) = (Fin s r, length (print_g 17 (Fin s r)))"
proof -
  from print_g_reads [OF assms, of 17] obtain v where v:
    "strtod (print_g 17 (Fin s r)) = (mk_double s v, length (print_g 17 (Fin s r)))"
    "r = 0 \<Longrightarrow> v = 0" "r \<noteq> 0 \<Longrightarrow> \<bar>v - r\<bar> \<le> pow10 (flog10 r - 16) / 2" by auto
  have "mk_double s v = Fin s r"
  proof (cases "r = 0")
    case True
    then show ?thesis using v(2) by (simp add: mk_double_def rnd_def not_le)
  next
    case False
    then have r: "0 < r" using assms by simp
    obtain m e where me: "mantissa_form r m e" using binary64_form [OF assms False] by blast
    have "pow10 (flog10 r - 16) = pow10 (flog10 r) / 10 ^ 16" by (simp add: pow10_def power_int_diff)
    also have "\<dots> \<le> r / 10 ^ 16" using flog10_bounds [OF r] by (simp add: divide_right_mono)
    finally have "\<bar>v - r\<bar> \<le> r / (2 * 10 ^ 16)" using v(3) [OF False] by simp
    then have "rnd v = r" by (rule rnd_near [OF me])
    then show ?thesis using assms by (simp add: mk_double_def)
  qed
  then show ?thesis using v(1) by simp
qed

text \<open>A double with the value of a nonzero one is that one.\<close>

lemma mk_double_eq:
  assumes "d_eq (mk_double s v) (Fin s r)"
  shows "mk_double s v = Fin s r"
  using assms by (auto simp: mk_double_def split: if_splits)

text \<open>\<open>strtod\<close> returns doubles.\<close>

lemma dec_val_nonneg: "\<forall>c\<in>set ds. is_digit c \<Longrightarrow> 0 \<le> dec_val ds"
proof (induction ds rule: rev_induct)
  case (snoc c ds)
  have "(of_char c :: int) = int (of_char c)" by (rule of_nat_of_char [symmetric])
  then have "0 \<le> digit_val c" using snoc.prems unfolding digit_val_def is_digit_def by fastforce
  then show ?case using snoc by simp
qed (simp add: dec_val_def)

lemma decimal_nonneg:
  assumes "decimal s = Some (r, l)"
  shows "0 \<le> r"
proof -
  define r1 where "r1 = drop (length (takeWhile is_digit s)) s"
  obtain fp k where fk: "(case r1 of [] \<Rightarrow> ([], 0) | c # t \<Rightarrow>
       if c = CHR ''.'' then (takeWhile is_digit t, 1 + length (takeWhile is_digit t)) else ([], 0)) = (fp, k)"
    by (rule prod.exhaust)
  then have "\<forall>c\<in>set (takeWhile is_digit s @ fp). is_digit c"
    by (cases r1) (auto dest: set_takeWhileD split: if_splits)
  then have "0 \<le> dec_val (takeWhile is_digit s @ fp)" by (rule dec_val_nonneg)
  moreover obtain ex l' where ex: "exp_part (drop k r1) = (ex, l')" by (cases "exp_part (drop k r1)")
  have "r = of_int (dec_val (takeWhile is_digit s @ fp)) * pow10 (ex - int (length fp))"
    using assms unfolding decimal_def Let_def r1_def [symmetric] fk prod.case ex by (simp split: if_splits)
  ultimately show ?thesis by (simp add: less_imp_le)
qed

lemma hex_fold_nonneg: "\<forall>c\<in>set ds. is_hex c \<Longrightarrow> (0 :: int) \<le> foldl (\<lambda>a c. 16 * a + the (hex_val c)) 0 ds"
proof (induction ds rule: rev_induct)
  case (snoc c ds)
  then have "0 \<le> the (hex_val c)" by (auto simp: is_hex_def hex_val_def Let_def)
  then show ?case using snoc by simp
qed simp

lemma hexadecimal_nonneg:
  assumes "hexadecimal s = Some (r, l)"
  shows "0 \<le> r"
proof -
  let ?r0 = "drop 2 s"
  let ?ip = "takeWhile is_hex ?r0"
  let ?r1 = "drop (length ?ip) ?r0"
  let ?fp = "if take 1 ?r1 = ''.'' then takeWhile is_hex (drop 1 ?r1) else []"
  have "\<forall>c\<in>set (?ip @ ?fp). is_hex c" by (auto dest: set_takeWhileD)
  from hex_fold_nonneg [OF this] show ?thesis
    using assms by (auto simp: hexadecimal_def Let_def less_imp_le simp del: foldl_append split: if_splits prod.splits)
qed

lemma strtod_binary64: "binary64 (fst (strtod s))"
proof -
  have "binary64 (Fin False 0)" by (simp add: rnd_def)
  moreover have "binary64 d" if "special neg t = Some (d, l)" for neg t d l
    using that by (auto simp: special_def Let_def split: if_splits)
  ultimately show ?thesis
    using decimal_nonneg hexadecimal_nonneg
    by (auto simp: strtod_def Let_def intro!: binary64_mk_double split: option.splits prod.splits)
qed

lemma binary64_double_of_int: "binary64 (double_of_int n)"
  by (simp add: double_of_int_def binary64_mk_double)

subsection \<open>Six decimals\<close>

text \<open>What \<open>%lf\<close> writes for \<open>k\<close> millionths.\<close>

definition six_decimals :: "bool \<Rightarrow> int \<Rightarrow> string" where
  "six_decimals s k =
     (let fp = dec (k mod 1000000) in
      (if s then [CHR ''-''] else []) @ dec (k div 1000000) @ CHR ''.'' # replicate (6 - length fp) (CHR ''0'') @ fp)"

lemma print_f_Fin: "print_f (Fin s r) = six_decimals s (round_even (r * 1000000))"
  by (simp add: six_decimals_def Let_def)

lemma rnd_close:
  assumes "0 < r" "- 1022 \<le> flog2 r"
  shows "\<bar>rnd r - r\<bar> \<le> r / 2 ^ 53"
proof -
  define e where "e = flog2 r - 52"
  have e: "max (flog2 r - 52) (- 1074) = e" using assms(2) by (simp add: e_def)
  have rnd: "rnd r = of_int (round_even (r / pow2 e)) * pow2 e" using assms(1) e by (simp add: rnd_def)
  have r: "r = r / pow2 e * pow2 e" by (simp add: pow2_def)
  have "rnd r - r = (of_int (round_even (r / pow2 e)) - r / pow2 e) * pow2 e"
    unfolding rnd left_diff_distrib using r by simp
  then have "\<bar>rnd r - r\<bar> = \<bar>r / pow2 e - of_int (round_even (r / pow2 e))\<bar> * pow2 e"
    using pow2_pos [of e] by (simp only: abs_mult abs_of_pos abs_minus_commute)
  also have "\<dots> \<le> 1 / 2 * pow2 e" using round_even_close by (intro mult_right_mono) (simp_all add: less_imp_le)
  also have "\<dots> = pow2 (flog2 r) / 2 ^ 53" unfolding e_def by (simp add: pow2_def power_int_diff)
  also have "\<dots> \<le> r / 2 ^ 53" using flog2_bounds [OF assms(1)] by (intro divide_right_mono) simp_all
  finally show ?thesis .
qed

lemma round_six:
  assumes "0 \<le> k" "k < 10 ^ 15"
  shows "round_even (rnd (of_int k / 1000000) * 1000000) = k"
proof (cases "k = 0")
  case True
  then show ?thesis by (simp add: rnd_def round_even_def)
next
  case False
  define r :: rat where "r = of_int k / 1000000"
  have kr: "1 \<le> (of_int k :: rat)" "(of_int k :: rat) < of_int (10 ^ 15)"
    using assms False of_int_less_iff [of k "10 ^ 15"] by simp_all
  then have r: "0 < r" by (simp add: r_def)
  have "pow2 (- 20) \<le> r" using kr(1) by (simp add: r_def pow2_def)
  then have "- 20 < flog2 r + 1" using flog2_bounds [OF r] pow2_less_cancel le_less_trans by blast
  then have "\<bar>rnd r - r\<bar> \<le> r / 2 ^ 53" using rnd_close [OF r] by simp
  then have "\<bar>rnd r - r\<bar> * 1000000 \<le> of_int k / 2 ^ 53" by (simp add: r_def)
  moreover have "\<bar>rnd r * 1000000 - of_int k\<bar> = \<bar>rnd r - r\<bar> * 1000000"
  proof -
    have "rnd r * 1000000 - of_int k = (rnd r - r) * 1000000" by (simp add: r_def left_diff_distrib)
    then show ?thesis by (simp only: abs_mult abs_numeral)
  qed
  moreover have "of_int k / 2 ^ 53 < (1 / 2 :: rat)" using kr(2) by simp
  ultimately show ?thesis unfolding r_def [symmetric] by (intro round_even_near) simp
qed

lemma dec_six: "length (dec (k mod 1000000)) \<le> 6"
proof (cases "k mod 1000000 = 0")
  case True
  then show ?thesis by (simp add: dec.simps [of 0])
next
  case False
  moreover have "0 \<le> k mod 1000000" "k mod 1000000 < 10 ^ 6" by simp_all
  ultimately show ?thesis by (intro dec_length_le) linarith+
qed

lemma atof_six_decimals:
  assumes "0 \<le> k"
  shows "atof (six_decimals s k) = mk_double s (of_int k / 1000000)"
proof -
  define fp where "fp = replicate (6 - length (dec (k mod 1000000))) (CHR ''0'') @ dec (k mod 1000000)"
  have l: "length fp = 6" using dec_six by (simp add: fp_def)
  have d: "list_all is_digit (dec (k div 1000000))" "list_all is_digit fp" using assms by (simp_all add: fp_def)
  have t: "six_decimals s k = (if s then [CHR ''-''] else []) @ with_point (dec (k div 1000000)) fp @ []"
    using l by (auto simp: six_decimals_def fp_def with_point_def Let_def)
  have "dec_val (ds @ fp) = dec_val ds * 10 ^ length fp + dec_val fp" for ds fp
    by (induction fp rule: rev_induct) (simp_all add: dec_val_def [of "[]"] append_assoc [symmetric] algebra_simps del: append_assoc)
  then have "dec_val (dec (k div 1000000) @ fp) = k div 1000000 * 10 ^ 6 + k mod 1000000"
    using l assms dec_val_dec [of "k div 1000000"] dec_val_dec [of "k mod 1000000"] dec_val_lead [of _ "[]"]
    by (simp add: fp_def dec_val_lead dec_val_def [of "[]"])
  then have v: "dec_val (dec (k div 1000000) @ fp) = k" by simp
  have "decimal (with_point (dec (k div 1000000)) fp @ []) =
      Some (of_int k / 1000000, length (with_point (dec (k div 1000000)) fp @ []))"
    using decimal_text [OF d, of "[]" 0] v l by (simp add: exp_part_def pow10_def)
  moreover have "number_shape (with_point (dec (k div 1000000)) fp @ [])" by (rule with_point_shape [OF d]) simp_all
  ultimately show ?thesis using strtod_shape unfolding t atof_def by (metis fst_conv)
qed

text \<open>A number with six decimals and at most 15 digits is written as it was read.\<close>

lemma six_decimals_kept:
  assumes "0 \<le> k" "k < 10 ^ 15"
  shows "print_f (atof (six_decimals s k)) = six_decimals s k" "finite_double (atof (six_decimals s k))"
proof -
  have "rnd (of_int k / 1000000) * 1000000 < of_int (10 ^ 15 + 1)"
  proof (rule ccontr)
    assume "\<not> rnd (of_int k / 1000000) * 1000000 < of_int (10 ^ 15 + 1)"
    then have "10 ^ 15 + 1 \<le> round_even (rnd (of_int k / 1000000) * 1000000)" by (intro round_even_ge) simp
    then show False using round_six [OF assms] assms(2) by simp
  qed
  moreover have "of_int (10 ^ 15 + 1) / 1000000 < pow2 1024" by (simp add: pow2_def)
  ultimately have "rnd (of_int k / 1000000) < pow2 1024" by simp
  then have "atof (six_decimals s k) = Fin s (rnd (of_int k / 1000000))"
    using atof_six_decimals [OF assms(1)] by (simp add: mk_double_def)
  then show "print_f (atof (six_decimals s k)) = six_decimals s k" "finite_double (atof (six_decimals s k))"
    using round_six [OF assms] by (simp_all only: print_f_Fin finite_double_def double.case)
qed

end
