(* ===== verification/CJSON_Numbers.thy ===== *)
theory CJSON_Numbers
  imports CJSON_Print CDouble_Digits
begin

text \<open>
  The numbers of a JSON text, whatever double they are: what \<open>print_number\<close> writes fits its buffer of 26
  bytes, and reading it gives the same double. And what the parser returns can always be printed.
\<close>

subsection \<open>The text of a number\<close>

text \<open>
  The text is an optional sign and a number; it is the one with 15 digits only when that is read back as
  the same number.
\<close>

lemma number_text_reads:
  assumes "binary64 (Fin s r)"
  obtains t where "number_text (Fin s r) = (if s then [CHR ''-''] else []) @ t" "number_shape t" "length t \<le> 23"
    "strtod (number_text (Fin s r)) = (Fin s r, length (number_text (Fin s r)))"
proof -
  obtain t v where t: "print_g 15 (Fin s r) = (if s then [CHR ''-''] else []) @ t" "number_shape t" "length t \<le> 15 + 6"
    "strtod (print_g 15 (Fin s r)) = (mk_double s v, length (print_g 15 (Fin s r)))"
    by (rule print_g_reads [OF assms zero_less_numeral])
  obtain t' where t': "print_g 17 (Fin s r) = (if s then [CHR ''-''] else []) @ t'" "number_shape t'" "length t' \<le> 17 + 6"
    by (rule print_g_reads [OF assms zero_less_numeral])
  have "t \<noteq> []" using t(2) by (auto simp: number_shape_def)
  then have ne: "length (print_g 15 (Fin s r)) \<noteq> 0" using t(1) by simp
  have unf: "number_text (Fin s r) = (if \<not> d_eq (mk_double s v) (Fin s r) then print_g 17 (Fin s r) else print_g 15 (Fin s r))"
    using t(4) ne unfolding number_text_def double.case Let_def by (simp del: print_g.simps)
  show thesis
  proof (cases "d_eq (mk_double s v) (Fin s r)")
    case True
    then have "mk_double s v = Fin s r" by (rule mk_double_eq)
    then show thesis using that [of t] t unf True by (simp del: print_g.simps)
  next
    case False
    then show thesis using that [of t'] t' unf strtod_print_g_17 [OF assms] by (simp del: print_g.simps)
  qed
qed

lemma number_shape_facts:
  assumes "number_shape t"
  shows "is_cstr t" "list_all is_number_char t" "\<exists>c u. t = c # u \<and> is_digit c"
  using assms by (auto simp: number_shape_def is_cstr_def is_number_char_def list_all_iff is_digit_def)

lemma number_text_facts:
  assumes "binary64 d" "finite_double d"
  shows "strtod (number_text d) = (d, length (number_text d))" "length (number_text d) \<le> 24" "is_cstr (number_text d)"
    "list_all is_number_char (number_text d)" "\<exists>c u. number_text d = c # u \<and> (c = CHR ''-'' \<or> is_digit c)"
proof -
  obtain s r where d: "d = Fin s r" using assms(2) by (cases d) (simp_all add: finite_double_def)
  obtain t where t: "number_text d = (if s then [CHR ''-''] else []) @ t" "number_shape t" "length t \<le> 23"
    "strtod (number_text d) = (d, length (number_text d))"
    using number_text_reads assms(1) unfolding d by blast
  show "strtod (number_text d) = (d, length (number_text d))" by (rule t(4))
  show "length (number_text d) \<le> 24" "is_cstr (number_text d)" "list_all is_number_char (number_text d)"
    "\<exists>c u. number_text d = c # u \<and> (c = CHR ''-'' \<or> is_digit c)"
    using t(1,3) number_shape_facts [OF t(2)] by (auto simp: is_number_char_def)
qed

lemma fits_number_binary64: "binary64 d \<Longrightarrow> fits_number d"
  using number_text_facts [of d]
  by (cases d) (auto simp: fits_number_def finite_double_def number_text_def is_cstr_def)

end
