(* ===== verification/CJSON_Roundtrip.thy ===== *)
theory CJSON_Roundtrip
  imports CJSON_Numbers
begin

text \<open>
  Parsing what was printed. A position in the text is described by what is left of it (\<open>left_is\<close>);
  \<open>reads\<close> is the contract of \<open>parse_value\<close> for one item, which is proved from the items below it.
  The result is the codec law of the two halves of \<open>cJSON.c\<close>, and what follows from the law alone is
  proved in the locale \<open>text_codec\<close>.
\<close>

subsection \<open>Positions by the text that is left\<close>

definition left_is :: "parse_buffer \<Rightarrow> string \<Rightarrow> bool" where
  "left_is p r \<longleftrightarrow> offset p \<le> length (content p) \<and> drop (offset p) (content p) = r"

definition upto_left :: "parse_buffer \<Rightarrow> string \<Rightarrow> parse_buffer" where
  "upto_left p r = p\<lparr>offset := length (content p) - length r\<rparr>"

definition is_blank :: "char \<Rightarrow> bool" where
  "is_blank c \<longleftrightarrow> (of_char c :: nat) \<le> 32"

abbreviation strip :: "string \<Rightarrow> string" where
  "strip \<equiv> dropWhile is_blank"

lemma left_is_upto:
  assumes "left_is p (a @ r)"
  shows "left_is (upto_left p r) r" "upto_left p r = advance (length a) p"
proof -
  have l: "length (content p) = offset p + length a + length r"
    using assms by (auto simp: left_is_def dest: arg_cong [where f = length])
  then have "drop (length (content p) - length r) (content p) = drop (length a) (drop (offset p) (content p))"
    by (simp add: add.commute)
  then have "drop (length (content p) - length r) (content p) = r" using assms by (simp add: left_is_def del: drop_drop)
  then show "left_is (upto_left p r) r" by (simp add: left_is_def upto_left_def)
  show "upto_left p r = advance (length a) p" using l by (simp add: upto_left_def)
qed

lemma upto_left_simps [simp]:
  "content (upto_left p r) = content p" "depth (upto_left p r) = depth p" "upto_left (upto_left p a) r = upto_left p r"
  "left_is (p\<lparr>depth := d\<rparr>) r = left_is p r" "upto_left (p\<lparr>depth := d\<rparr>) r = (upto_left p r)\<lparr>depth := d\<rparr>"
  by (simp_all add: upto_left_def left_is_def)

lemma upto_left_self: "left_is p r \<Longrightarrow> upto_left p r = p"
  using left_is_upto(2) [of p "[]" r] by simp

lemma left_is_access: "left_is p (c # r) \<Longrightarrow> can_access_at_index p 0 \<and> char_at p = Some c \<and> content p ! offset p = c"
  by (auto simp: left_is_def can_access_at_index_def char_at_def rd_def nth_via_drop dest: arg_cong [where f = length])

lemma left_is_looking: "left_is p (c # r) \<Longrightarrow> looking_at p c' \<longleftrightarrow> c = c'"
  using left_is_access [of p c r] by (auto simp: looking_at_def)

lemma left_is_literal: "left_is p (w @ r) \<Longrightarrow> literal_at p w"
  by (auto simp: left_is_def literal_at_def can_read_def dest: arg_cong [where f = length])

lemma left_is_no_literal: "left_is p (c # r) \<Longrightarrow> c \<noteq> c' \<Longrightarrow> \<not> literal_at p (c' # w)"
  by (auto simp: left_is_def literal_at_def)

lemma left_is_step: "left_is p (c # r) \<Longrightarrow> advance (Suc 0) p = upto_left p r \<and> left_is (upto_left p r) r"
  using left_is_upto [of p "[c]" r] by simp

lemma left_is_skip:
  assumes "left_is p r" "strip r \<noteq> []"
  shows "buffer_skip_whitespace p = upto_left p (strip r)" "left_is (upto_left p (strip r)) (strip r)"
proof -
  have r: "r = takeWhile is_blank r @ strip r" by simp
  note up = left_is_upto [of p "takeWhile is_blank r" "strip r"]
  show "left_is (upto_left p (strip r)) (strip r)" using up(1) assms(1) by simp
  have "length (takeWhile is_blank r) < length r" using assms(2) by (metis dropWhile_eq_drop drop_eq_Nil not_le)
  moreover have "length (content p) = offset p + length r"
    using assms(1) by (auto simp: left_is_def)
  ultimately show "buffer_skip_whitespace p = upto_left p (strip r)"
    using up(2) assms(1) by (simp add: buffer_skip_whitespace_def left_is_def is_blank_def [abs_def] Let_def)
qed

lemma strip_dark: "\<not> is_blank c \<Longrightarrow> strip (c # r) = c # r"
  by simp

lemma strip_blanks: "list_all is_blank w \<Longrightarrow> strip (w @ r) = strip r"
  by (induction w) auto

lemma blank_tabs [simp]: "list_all is_blank (tabs d)"
  by (simp add: tabs_def is_blank_def list_all_iff)

lemma is_blank_chars [simp]:
  "is_blank (CHR 0x0A)" "is_blank (CHR 0x09)" "is_blank (CHR '' '')" "\<not> is_blank (CHR '','')" "\<not> is_blank (CHR '':'')"
  "\<not> is_blank (CHR '']'')" "\<not> is_blank (CHR ''}'')" "\<not> is_blank (CHR ''['')" "\<not> is_blank (CHR ''{'')"
  "\<not> is_blank (CHR 0x22)" "\<not> is_blank (CHR ''-'')" "\<not> is_blank (CHR ''n'')" "\<not> is_blank (CHR ''t'')" "\<not> is_blank (CHR ''f'')"
  by (simp_all add: is_blank_def)

lemma number_char_dark: "is_number_char c \<Longrightarrow> \<not> is_blank c"
  by (auto simp: is_number_char_def is_blank_def is_digit_def)

subsection \<open>String literals\<close>

lemma control_char:
  assumes "c \<noteq> NUL" "(of_char c :: nat) \<le> 31"
  shows "c \<in> set (map char_of [1..<32::nat])"
proof -
  have "(of_char c :: nat) \<noteq> 0"
  proof
    assume "(of_char c :: nat) = 0"
    then have "char_of (of_char c :: nat) = char_of (0 :: nat)" by simp
    moreover have "char_of (0 :: nat) = NUL" by code_simp
    ultimately show False using assms(1) by simp
  qed
  then have "char_of (of_char c :: nat) \<in> char_of ` set [1..<32::nat]" using assms(2) by (intro imageI) simp
  then show ?thesis by simp
qed

definition is_control :: "char \<Rightarrow> bool" where
  "is_control c \<longleftrightarrow> (of_char c :: nat) \<le> 31 \<and> c \<notin> {NUL, CHR 0x08, CHR 0x0C, CHR 0x0A, CHR 0x0D, CHR 0x09}"

lemma control_codes:
  "list_all (\<lambda>c. is_control c \<longrightarrow> parse_hex4 (drop 2 (escape_char c)) = Some (of_char c) \<and> utf8_encode (of_char c) = Some [c])
     (map char_of [1..<32::nat])"
  by code_simp

lemma parse_hex4_prefix: "parse_hex4 (a # b # c # d # r) = parse_hex4 [a, b, c, d]"
  by (simp add: parse_hex4_def numeral_eq_Suc split: option.split)

lemma control_escape:
  assumes "is_control c"
  shows "utf16_literal_to_utf8 (escape_char c @ r) = Some (6, [c])"
proof -
  have "c \<in> set (map char_of [1..<32::nat])" using control_char [of c] assms unfolding is_control_def by blast
  note code = mp [OF bspec [OF control_codes [unfolded list_all_iff] this] assms]
  note h = conjunct1 [OF code] conjunct2 [OF code]
  have "\<not> is_control (CHR 0x5C)" "\<not> is_control (CHR 0x22)" by (simp_all add: is_control_def)
  then have "c \<noteq> CHR 0x5C" "c \<noteq> CHR 0x22" using assms by metis+
  then obtain x y where e: "escape_char c = [CHR 0x5C, CHR ''u'', CHR ''0'', CHR ''0'', x, y]"
    using assms by (auto simp: is_control_def escape_char_def)
  have "(of_char c :: nat) < 256" by simp
  then have "(of_char c :: int) < 0xD800" by (simp add: of_char_def)
  then show ?thesis
    using h e parse_hex4_prefix [of "CHR ''0''" "CHR ''0''" x y r] by (simp add: utf16_literal_to_utf8_def)
qed

lemma hex_digit_not:
  assumes "n < 16"
  shows "hex_digit n \<noteq> CHR 0x22" "hex_digit n \<noteq> CHR 0x5C"
proof -
  have "n \<in> set [0..<16]" using assms by simp
  then show "hex_digit n \<noteq> CHR 0x22" "hex_digit n \<noteq> CHR 0x5C" by (auto simp: hex_digit_def upt_rec)
qed

lemma escape_char_cases:
  assumes "c \<noteq> NUL"
  obtains (plain) "escape_char c = [c]" "c \<noteq> CHR 0x5C" "c \<noteq> CHR 0x22"
    | (simple) e where "escape_char c = [CHR 0x5C, e]" "simple_escape e = Some c"
    | (code) x y where "escape_char c = [CHR 0x5C, CHR ''u'', CHR ''0'', CHR ''0'', x, y]" "x \<noteq> CHR 0x22" "y \<noteq> CHR 0x22"
        "x \<noteq> CHR 0x5C" "y \<noteq> CHR 0x5C" "\<And>r. utf16_literal_to_utf8 (escape_char c @ r) = Some (6, [c])"
proof -
  consider "31 < (of_char c :: nat) \<and> c \<noteq> CHR 0x22 \<and> c \<noteq> CHR 0x5C"
    | "c \<in> {CHR 0x5C, CHR 0x22, CHR 0x08, CHR 0x0C, CHR 0x0A, CHR 0x0D, CHR 0x09}"
    | "(of_char c :: nat) \<le> 31" "c \<notin> {CHR 0x5C, CHR 0x22, CHR 0x08, CHR 0x0C, CHR 0x0A, CHR 0x0D, CHR 0x09}" by force
  then show thesis
  proof cases
    case 1
    then show thesis by (intro plain) (auto simp: escape_char_def)
  next
    case 2
    then show thesis by (intro simple [of "last (escape_char c)"]) (auto simp: escape_char_def simple_escape_def)
  next
    case 3
    then have "is_control c" using assms by (simp add: is_control_def)
    moreover have "(of_char c :: nat) div 16 < 16" using 3(1) by simp
    ultimately show thesis using 3 control_escape [of c]
      by (intro code [of "hex_digit (of_char c div 16)" "hex_digit (of_char c mod 16)"])
        (auto simp: escape_char_def hex_digit_not)
  qed
qed

lemma scan_escaped:
  assumes "is_cstr s"
  shows "\<exists>sk. scan_quote (concat (map escape_char s) @ CHR 0x22 # r) = Some (length (concat (map escape_char s)), sk) \<and>
           length s + sk \<le> length (concat (map escape_char s))"
  using assms
proof (induction s)
  case (Cons c s)
  then obtain sk where sk: "scan_quote (concat (map escape_char s) @ CHR 0x22 # r) = Some (length (concat (map escape_char s)), sk)"
    "length s + sk \<le> length (concat (map escape_char s))" by auto
  have "c \<noteq> NUL" using Cons.prems by simp
  then show ?case
  proof (cases rule: escape_char_cases)
    case plain
    then show ?thesis using sk by simp
  next
    case (simple e)
    then show ?thesis using sk by simp
  next
    case (code x y)
    then show ?thesis using sk by simp
  qed
qed simp

lemma unescape_escaped:
  assumes "is_cstr s" "length out + length s \<le> cap"
  shows "unescape cap (length (concat (map escape_char s))) (concat (map escape_char s) @ r) out ip =
     Some (True, out @ s, ip + length (concat (map escape_char s)))"
  using assms
proof (induction s arbitrary: out ip)
  case Nil
  show ?case by (subst unescape.simps) simp
next
  case (Cons c s)
  have IH: "unescape cap (length (concat (map escape_char s))) (concat (map escape_char s) @ r) (out @ [c]) i =
     Some (True, out @ [c] @ s, i + length (concat (map escape_char s)))" for i
    using Cons.IH [of "out @ [c]" i] Cons.prems by simp
  have room: "length out < cap" using Cons.prems(2) by simp
  have "c \<noteq> NUL" using Cons.prems by simp
  then show ?case
  proof (cases rule: escape_char_cases)
    case plain
    then show ?thesis by (subst unescape.simps) (simp add: room IH)
  next
    case (simple e)
    then show ?thesis by (subst unescape.simps) (simp add: room IH)
  next
    case (code x y)
    have "simple_escape (CHR ''u'') = None" by (simp add: simple_escape_def)
    then show ?thesis
      using code(6) [of "take (length (concat (map escape_char s))) (concat (map escape_char s) @ r)"] room
      by (subst unescape.simps) (simp add: code(1) IH Suc_le_eq)
  qed
qed

lemma parse_string_quoted:
  assumes "left_is p (quoted (Some s) @ r)" "is_cstr s" "reliable m"
  shows "\<exists>m'. parse_string it p m = Some (True, set_type cJSON_String (set_valuestring (Some s) it), upto_left p r, m') \<and>
           reliable m'"
proof -
  define E where "E = concat (map escape_char s)"
  have q: "quoted (Some s) = CHR 0x22 # E @ [CHR 0x22]" by (simp add: quoted_def E_def)
  have l: "left_is p (CHR 0x22 # E @ CHR 0x22 # r)" using assms(1) q by simp
  have cs: "drop (Suc (offset p)) (content p) = E @ CHR 0x22 # r"
  proof -
    have "drop 1 (drop (offset p) (content p)) = E @ CHR 0x22 # r" using l by (simp add: left_is_def del: drop_drop)
    then show ?thesis by simp
  qed
  obtain sk where sk: "scan_quote (E @ CHR 0x22 # r) = Some (length E, sk)" "length s + sk \<le> length E"
    using scan_escaped [OF assms(2), of r] unfolding E_def by blast
  obtain m1 where m1: "malloc m = (True, m1)" "reliable m1" using assms(3) by (cases rule: malloc_split [of m]) auto
  have un: "unescape (length E + 1 - sk + 1) (length E) (E @ CHR 0x22 # r) [] (offset p + 1) = Some (True, s, offset p + 1 + length E)"
    using unescape_escaped [OF assms(2), of "[]" "length E + 1 - sk + 1" "CHR 0x22 # r" "offset p + 1"] sk(2)
    by (simp add: E_def)
  have "upto_left p r = p\<lparr>offset := offset p + 1 + length E + 1\<rparr>"
    using left_is_upto(2) [of p "quoted (Some s)" r] assms(1) q by simp
  then have "parse_string it p m = Some (True, set_type cJSON_String (set_valuestring (Some s) it), upto_left p r, m1)"
    using left_is_access [OF l] sk m1(1) un assms(2) by (simp add: parse_string_def cs Let_def)
  then show ?thesis using m1(2) by blast
qed

subsection \<open>Numbers\<close>

text \<open>A finite double, with the \<open>valueint\<close> that \<open>parse_number\<close> computes for it.\<close>

definition number_ok :: "int \<Rightarrow> double \<Rightarrow> bool" where
  "number_ok vi vd \<longleftrightarrow> finite_double vd \<and> binary64 vd \<and> saturate vd = Some vi"

lemma number_ok_of_int:
  assumes "\<bar>n\<bar> < 2 ^ 53" "saturate (double_of_int n) = Some i"
  shows "number_ok i (double_of_int n)"
  using assms(2) binary64_double_of_int [of n]
  by (simp add: number_ok_def finite_double_def double_of_int_exact [OF assms(1)])

lemma parse_number_text:
  assumes "left_is p (number_text d @ c # r)" "\<not> is_number_char c" "number_ok vi d"
  shows "parse_number it p = Some (True, set_type cJSON_Number (set_number vi d it), upto_left p (c # r))"
proof -
  have d: "binary64 d" "finite_double d" "saturate d = Some vi" using assms(3) by (simp_all add: number_ok_def)
  note t = number_text_facts [OF d(1,2)]
  have k: "63 - length (number_text d) = Suc (62 - length (number_text d))" "length (number_text d) \<le> 63" using t(2) by simp_all
  have "take 63 (drop (offset p) (content p)) = number_text d @ c # take (62 - length (number_text d)) r"
    using assms(1) k by (simp add: left_is_def)
  then have "takeWhile is_number_char (take 63 (drop (offset p) (content p))) = number_text d"
    using assms(2) t(4) by (simp add: takeWhile_append2 list_all_iff)
  moreover have "length (number_text d) \<noteq> 0" using t(5) by auto
  ultimately show ?thesis
    using d(3) left_is_upto(2) [OF assms(1)] by (simp add: parse_number_def t(1))
qed

subsection \<open>Trees that are read back\<close>

text \<open>
  The trees that the parser builds, with finite numbers: one plain kind, the fields it does
  not use as \<open>cJSON_New_Item\<close> leaves them, elements without and members with a name, and at most
  \<open>n\<close> levels of arrays and objects.
\<close>

definition is_text :: "string option \<Rightarrow> bool" where
  "is_text s \<longleftrightarrow> (case s of None \<Rightarrow> False | Some cs \<Rightarrow> is_cstr cs)"

fun canonical :: "nat \<Rightarrow> cJSON \<Rightarrow> bool" where
  "canonical n (Item t vs vi vd k ch) \<longleftrightarrow>
     (if t = cJSON_Number then vs = None \<and> ch = [] \<and> number_ok vi vd
      else vd = zero_double \<and> vi = (if t = cJSON_True then 1 else 0) \<and>
        (if t = cJSON_String then is_text vs \<and> ch = []
         else vs = None \<and>
           (if t = cJSON_Array then 0 < n \<and> list_all (\<lambda>e. jstring e = None \<and> canonical (n - 1) e) ch
            else if t = cJSON_Object then 0 < n \<and> list_all (\<lambda>e. is_text (jstring e) \<and> canonical (n - 1) e) ch
            else ch = [] \<and> t \<in> {cJSON_NULL, cJSON_False, cJSON_True})))"

lemma canonical_cases:
  assumes "canonical n (Item t vs vi vd k ch)"
  obtains (Is_null) "t = cJSON_NULL" "vs = None" "vi = 0" "vd = zero_double" "ch = []"
    | (Is_false) "t = cJSON_False" "vs = None" "vi = 0" "vd = zero_double" "ch = []"
    | (Is_true) "t = cJSON_True" "vs = None" "vi = 1" "vd = zero_double" "ch = []"
    | (Number) "t = cJSON_Number" "vs = None" "ch = []" "number_ok vi vd"
    | (String) s where "t = cJSON_String" "vs = Some s" "is_cstr s" "vi = 0" "vd = zero_double" "ch = []"
    | (Array) "t = cJSON_Array" "vs = None" "vi = 0" "vd = zero_double" "0 < n"
        "\<forall>e\<in>set ch. jstring e = None \<and> canonical (n - 1) e"
    | (Object) "t = cJSON_Object" "vs = None" "vi = 0" "vd = zero_double" "0 < n"
        "\<forall>e\<in>set ch. is_text (jstring e) \<and> canonical (n - 1) e"
proof (cases "t = cJSON_Number")
  case True
  then have "number_ok vi vd" "vs = None" "ch = []" using assms by simp_all
  then show ?thesis using Number True by blast
next
  case False
  then have c: "vd = zero_double" "vi = (if t = cJSON_True then 1 else 0)"
    "t = cJSON_String \<Longrightarrow> is_text vs \<and> ch = []" "t \<noteq> cJSON_String \<Longrightarrow> vs = None"
    "t = cJSON_Array \<Longrightarrow> 0 < n \<and> (\<forall>e\<in>set ch. jstring e = None \<and> canonical (n - 1) e)"
    "t = cJSON_Object \<Longrightarrow> 0 < n \<and> (\<forall>e\<in>set ch. is_text (jstring e) \<and> canonical (n - 1) e)"
    "t \<notin> {cJSON_String, cJSON_Array, cJSON_Object} \<Longrightarrow> ch = [] \<and> t \<in> {cJSON_NULL, cJSON_False, cJSON_True}"
    using assms by (auto simp: list_all_iff cjson_type_defs split: if_splits)
  consider "t = cJSON_String" | "t = cJSON_Array" | "t = cJSON_Object" | "t \<notin> {cJSON_String, cJSON_Array, cJSON_Object}" by blast
  then show ?thesis
  proof cases
    case 1
    then show ?thesis using c(1-3) String by (auto simp: is_text_def cjson_type_defs split: option.splits)
  next
    case 2
    then show ?thesis using c(1,2,4,5) Array by (simp add: cjson_type_defs)
  next
    case 3
    then show ?thesis using c(1,2,4,6) Object by (simp add: cjson_type_defs)
  next
    case 4
    then show ?thesis using c(1,2,4,7) Is_null Is_false Is_true by (auto simp: cjson_type_defs)
  qed
qed

lemma render_kinds [simp]:
  "render fmt d (Item cJSON_NULL vs vi vd k ch) = Some ''null''"
  "render fmt d (Item cJSON_False vs vi vd k ch) = Some ''false''"
  "render fmt d (Item cJSON_True vs vi vd k ch) = Some ''true''"
  "render fmt d (Item cJSON_Number vs vi vd k ch) = Some (number_text vd)"
  "render fmt d (Item cJSON_String vs vi vd k ch) = Some (quoted vs)"
  "render fmt d (Item cJSON_Array vs vi vd k ch) = do { s \<leftarrow> render_elements fmt (d + 1) ch; Some (''['' @ s @ '']'') }"
  "render fmt d (Item cJSON_Object vs vi vd k ch) =
     do { s \<leftarrow> render_members fmt (d + 1) ch;
          Some (''{'' @ (if fmt then [CHR 0x0A] else []) @ s @ (if fmt then tabs d else []) @ ''}'') }"
  by (simp_all add: cjson_type_defs)

declare render.simps [simp del]

text \<open>What is written for such an item starts with a character that is not skipped.\<close>

lemma render_dark:
  assumes "canonical n it" "render fmt d it = Some t"
  shows "\<exists>c s. t = c # s \<and> \<not> is_blank c \<and> c \<noteq> CHR '']'' \<and> c \<noteq> CHR ''}'' \<and> (of_char c :: nat) < 128"
proof -
  obtain ty vs vi vd k ch where it: "it = Item ty vs vi vd k ch" by (cases it)
  from assms(1) [unfolded it] show ?thesis
  proof (cases rule: canonical_cases)
    case Number
    then obtain c s where c: "number_text vd = c # s" "c = CHR ''-'' \<or> is_digit c"
      using number_text_facts(5) [of vd] by (auto simp: number_ok_def)
    have "t = number_text vd" using assms(2) it Number by simp
    then show ?thesis using c by (auto simp: is_digit_def is_blank_def)
  next
    case (String s)
    then obtain r where "t = CHR 0x22 # r" using assms(2) it by (auto simp: quoted_def)
    then show ?thesis by simp
  next
    case Array
    then obtain r where "t = CHR ''['' # r @ '']''" using assms(2) it by (auto split: bind_splits)
    then show ?thesis by simp
  next
    case Object
    then obtain r where "t = CHR ''{'' # r" using assms(2) it by (auto split: bind_splits)
    then show ?thesis by simp
  qed (use assms(2) it in clarsimp)+
qed

lemma canonical_printable: "canonical n it \<Longrightarrow> cstr_opt (jstring it) \<Longrightarrow> printable it"
proof (induction it arbitrary: n)
  case (Item t vs vi vd k ch)
  have key: "cstr_opt (jstring e)" if "is_text (jstring e) \<or> jstring e = None" for e
    using that by (auto simp: is_text_def cstr_opt_def split: option.splits)
  from Item.prems(1) show ?case
  proof (cases rule: canonical_cases)
    case Number
    then show ?thesis using Item.prems(2) fits_number_binary64 [of vd] by (simp add: cstr_opt_def number_ok_def)
  qed (use Item key in \<open>auto simp: list_all_iff cstr_opt_def cjson_type_defs\<close>)
qed

subsection \<open>Reading one item\<close>

text \<open>
  The contract of \<open>parse_value\<close> for the text of an item, with the fuel it needs and the nesting that is
  still allowed; what follows the text must not continue a number.
\<close>

definition reads :: "bool \<Rightarrow> nat \<Rightarrow> cJSON \<Rightarrow> bool" where
  "reads fmt d it \<longleftrightarrow>
     (\<forall>t c r f p m t0. render fmt d it = Some t \<and> left_is p (t @ c # r) \<and> \<not> is_number_char c \<and> reliable m \<and>
        2 * length t + 1 \<le> f \<and> canonical (CJSON_NESTING_LIMIT - depth p) it \<longrightarrow>
        (\<exists>m'. parse_value f (set_type t0 (set_jstring (jstring it) blank)) p m = Some (True, it, upto_left p (c # r), m') \<and> reliable m'))"

lemma New_Item_reliable:
  assumes "reliable m"
  obtains m1 where "cJSON_New_Item m = (Some blank, m1)" "reliable m1"
  using assms by (cases rule: malloc_split [of m]) (auto simp: cJSON_New_Item_def)

text \<open>The first characters decide which branch \<open>parse_value\<close> takes.\<close>

lemma parse_value_word:
  assumes "left_is p (w @ r)"
  shows "w = ''null'' \<Longrightarrow> parse_value (Suc f) it p m = Some (True, set_type cJSON_NULL it, upto_left p r, m)"
    "w = ''false'' \<Longrightarrow> parse_value (Suc f) it p m = Some (True, set_type cJSON_False it, upto_left p r, m)"
    "w = ''true'' \<Longrightarrow> parse_value (Suc f) it p m =
       Some (True, set_type cJSON_True (set_number 1 (valuedouble it) it), upto_left p r, m)"
  using left_is_literal [OF assms] left_is_upto(2) [OF assms] left_is_no_literal [of p] assms
  by (auto simp: parse_value.simps)

lemma parse_value_first:
  assumes "left_is p (c # r)" "c \<noteq> CHR ''n''" "c \<noteq> CHR ''f''" "c \<noteq> CHR ''t''"
  shows "parse_value (Suc f) it p m =
     (if c = CHR 0x22 then parse_string it p m
      else if c = CHR ''-'' \<or> is_digit c then do { (ok, it', p') \<leftarrow> parse_number it p; Some (ok, it', p', m) }
      else if c = CHR ''['' then parse_array (\<lambda>q n. parse_elements f [] q n) it p m
      else if c = CHR ''{'' then parse_object (\<lambda>q n. parse_members f [] q n) it p m
      else Some (False, it, p, m))"
  using left_is_access [OF assms(1)] left_is_looking [OF assms(1)] left_is_no_literal [OF assms(1)] assms(2-4)
  by (simp add: parse_value.simps)

text \<open>The part that arrays and objects share.\<close>

lemma parse_items_text:
  assumes p: "left_is p (c # b @ cl # r)" and cl: "\<not> is_blank cl"
    and body: "es = [] \<and> strip (b @ cl # r) = cl # r \<or>
       (\<exists>c' s. strip (b @ cl # r) = c' # s \<and> c' \<noteq> cl) \<and>
       (\<forall>q x. left_is q (x # strip (b @ cl # r)) \<and> content q = content p \<and> depth q = depth p \<longrightarrow>
          (\<exists>m'. loop q m = Some (True, es, upto_left q (cl # r), m') \<and> reliable m'))"
    and m: "reliable m"
  shows "\<exists>m'. parse_items cl t loop it p m =
     Some (True, set_child es (set_type t it), (upto_left p r)\<lparr>depth := depth p - 1\<rparr>, m') \<and> reliable m'"
proof -
  let ?b = "b @ cl # r"
  define p1 where "p1 = buffer_skip_whitespace (advance 1 p)"
  have adv: "advance 1 p = upto_left p ?b" "left_is (upto_left p ?b) ?b" using left_is_step [OF p] by simp_all
  have nonempty: "strip ?b \<noteq> []" using cl by (auto simp: dropWhile_append)
  have p1: "p1 = upto_left p (strip ?b)" "left_is p1 (strip ?b)"
    using left_is_skip [OF adv(2) nonempty] adv(1) by (simp_all add: p1_def)
  have unf: "parse_items cl t loop it p m =
     (if looking_at p1 cl
      then Some (True, set_child [] (set_type t it), p1\<lparr>offset := offset p1 + 1, depth := depth p1 - 1\<rparr>, m)
      else if \<not> can_access_at_index p1 0 then Some (False, it, p1\<lparr>offset := offset p1 - 1\<rparr>, m)
      else do { (ok, es, p2, m2) \<leftarrow> loop (p1\<lparr>offset := offset p1 - 1\<rparr>) m;
                if ok \<and> looking_at p2 cl
                then Some (True, set_child es (set_type t it), p2\<lparr>offset := offset p2 + 1, depth := depth p2 - 1\<rparr>, m2)
                else Some (False, it, p2, delete_chain es m2) })"
    by (simp only: parse_items_def Let_def p1_def)
  have stop: "left_is (upto_left p (cl # r)) (cl # r)"
    using left_is_upto(1) [of p "c # b" "cl # r"] p by simp
  have over: "(upto_left p (cl # r))\<lparr>offset := offset (upto_left p (cl # r)) + 1, depth := depth p - 1\<rparr>
      = (upto_left p r)\<lparr>depth := depth p - 1\<rparr>"
    using left_is_step [OF stop] by (simp add: upto_left_def)
  show ?thesis
  proof (cases "es = [] \<and> strip ?b = cl # r")
    case True
    then have l: "p1 = upto_left p (cl # r)" using p1(1) by simp
    then show ?thesis
      using left_is_looking [OF stop] m True over unf by simp
  next
    case False
    then obtain c' s where cs: "strip ?b = c' # s" "c' \<noteq> cl" and loop: "\<And>q x. left_is q (x # strip ?b) \<Longrightarrow> content q = content p \<Longrightarrow>
        depth q = depth p \<Longrightarrow> (\<exists>m'. loop q m = Some (True, es, upto_left q (cl # r), m') \<and> reliable m')"
      using body by blast
    define q where "q = p1\<lparr>offset := offset p1 - 1\<rparr>"
    have q': "content q = content p" "depth q = depth p" "upto_left q (cl # r) = upto_left p (cl # r)"
      using p1(1) by (simp_all add: q_def upto_left_def)
    have "length (strip ?b) \<le> length ?b" by (rule length_dropWhile_le)
    moreover have "length (content p) = offset p + length (c # ?b)"
      using p by (auto simp: left_is_def dest: arg_cong [where f = length])
    ultimately have "0 < offset p1" "offset p1 \<le> length (content p1)" using p1 by (simp_all add: upto_left_def)
    then have "left_is q (content p1 ! (offset p1 - 1) # strip ?b)"
      using p1(2) Cons_nth_drop_Suc [of "offset p1 - 1" "content p1"] by (simp add: left_is_def q_def)
    from loop [OF this q'(1,2)] obtain m' where
      run: "loop q m = Some (True, es, upto_left p (cl # r), m')" "reliable m'" unfolding q'(3) by blast
    have "left_is p1 (c' # s)" using p1(2) cs(1) by simp
    note look = left_is_looking [OF this] left_is_access [OF this]
    show ?thesis
      using look cs(2) run [unfolded q_def] left_is_looking [OF stop] over unf by simp
  qed
qed

subsection \<open>Lists of items\<close>

lemma not_number_char [simp]:
  "\<not> is_number_char (CHR '','')" "\<not> is_number_char (CHR '']'')" "\<not> is_number_char (CHR ''}'')" "\<not> is_number_char (CHR 0x0A)"
  "\<not> is_number_char NUL"
  by (simp_all add: is_number_char_def is_digit_def)

text \<open>One element, up to what follows its text.\<close>

lemma element_step:
  assumes e: "reads fmt d e" "canonical (CJSON_NESTING_LIMIT - depth p) e" "jstring e = None" "render fmt d e = Some t"
    and p: "left_is p (x # b)" "strip b = t @ c # r"
    and m: "reliable m" "\<not> is_number_char c" "2 * length t + 1 \<le> f"
  shows "\<exists>m'. parse_elements (Suc f) es p m =
      (let p3 = buffer_skip_whitespace (upto_left p (c # r)) in
       if looking_at p3 (CHR '','') then parse_elements f (es @ [e]) p3 m' else Some (True, es @ [e], p3, m')) \<and>
     reliable m' \<and> left_is (upto_left p (c # r)) (c # r)"
proof -
  obtain m1 where m1: "cJSON_New_Item m = (Some blank, m1)" "reliable m1" using m(1) by (rule New_Item_reliable)
  have adv: "advance 1 p = upto_left p b" "left_is (upto_left p b) b" using left_is_step [OF p(1)] by simp_all
  have "strip b \<noteq> []" using p(2) by simp
  note sk = left_is_skip [OF adv(2) this]
  define q where "q = upto_left p (t @ c # r)"
  have q: "buffer_skip_whitespace (advance 1 p) = q" "left_is q (t @ c # r)"
    using sk adv(1) p(2) by (simp_all add: q_def)
  have "set_type 0 (set_jstring (jstring e) blank) = blank" using e(3) by (simp add: blank_def)
  then obtain m2 where v: "parse_value f blank q m1 = Some (True, e, upto_left p (c # r), m2)" "reliable m2"
    using e(1) [unfolded reads_def, rule_format, of t q c r m1 f 0] e(2,4) q(2) m m1(2) by (auto simp: q_def)
  have "left_is (upto_left p (c # r)) (c # r)" using left_is_upto(1) [OF q(2)] by (simp add: q_def)
  then show ?thesis using m1(1) q(1) v by (intro exI [of _ m2]) (simp add: parse_elements.simps Let_def)
qed

lemma parse_elements_text:
  assumes "\<forall>e\<in>set es. reads fmt d e \<and> jstring e = None \<and> canonical (CJSON_NESTING_LIMIT - depth p) e" "es \<noteq> []"
    and "render_elements fmt d es = Some t" "left_is p (x # b)" "strip b = t @ CHR '']'' # r" "reliable m" "2 * length t + 2 \<le> f"
  shows "\<exists>m'. parse_elements f acc p m = Some (True, acc @ es, upto_left p (CHR '']'' # r), m') \<and> reliable m'"
  using assms
proof (induction es arbitrary: acc p m t x b f)
  case (Cons e es)
  define sep where "sep = (if es = [] then [] else if fmt then '', '' else '','')"
  obtain te tr where te: "render fmt d e = Some te" "render_elements fmt d es = Some tr" "t = te @ sep @ tr"
    using Cons.prems(3) by (auto simp: sep_def split: bind_splits)
  obtain f' where f: "f = Suc f'" "2 * length te + 1 \<le> f'" using Cons.prems(7) te(3) by (cases f) auto
  have e: "reads fmt d e" "canonical (CJSON_NESTING_LIMIT - depth p) e" "jstring e = None" using Cons.prems(1) by simp_all
  show ?case
  proof (cases "es = []")
    case True
    then have "strip b = te @ CHR '']'' # r" using Cons.prems(5) te by (simp add: sep_def)
    from element_step [OF e te(1) Cons.prems(4) this Cons.prems(6) _ f(2), of acc] obtain m' where
      s: "parse_elements (Suc f') acc p m =
        (let p3 = buffer_skip_whitespace (upto_left p (CHR '']'' # r)) in
         if looking_at p3 (CHR '','') then parse_elements f' (acc @ [e]) p3 m' else Some (True, acc @ [e], p3, m'))"
        "reliable m'" "left_is (upto_left p (CHR '']'' # r)) (CHR '']'' # r)" by auto
    have "buffer_skip_whitespace (upto_left p (CHR '']'' # r)) = upto_left p (CHR '']'' # r)"
      using left_is_skip(1) [OF s(3)] by simp
    then show ?thesis using s(1,2) left_is_looking [OF s(3)] True f(1) by (simp add: Let_def)
  next
    case False
    define b' where "b' = tl sep @ tr @ CHR '']'' # r"
    have "sep = CHR '','' # tl sep" using False by (simp add: sep_def)
    then have split: "strip b = te @ CHR '','' # b'" using Cons.prems(5) te(3) by (simp add: b'_def)
    from element_step [OF e te(1) Cons.prems(4) this Cons.prems(6) _ f(2), of acc] obtain m' where
      s: "parse_elements (Suc f') acc p m =
        (let p3 = buffer_skip_whitespace (upto_left p (CHR '','' # b')) in
         if looking_at p3 (CHR '','') then parse_elements f' (acc @ [e]) p3 m' else Some (True, acc @ [e], p3, m'))"
        "reliable m'" "left_is (upto_left p (CHR '','' # b')) (CHR '','' # b')" by auto
    have p3: "buffer_skip_whitespace (upto_left p (CHR '','' # b')) = upto_left p (CHR '','' # b')"
      using left_is_skip(1) [OF s(3)] by simp
    obtain e' es' where es: "es = e' # es'" using False by (cases es) auto
    obtain te' where "render fmt d e' = Some te'" "\<exists>w. tr = te' @ w" using te(2) es by (auto split: bind_splits)
    then have "strip (tr @ CHR '']'' # r) = tr @ CHR '']'' # r"
      using render_dark [of _ e' fmt d te'] Cons.prems(1) es by fastforce
    moreover have "strip b' = strip (tr @ CHR '']'' # r)" by (simp add: b'_def sep_def)
    ultimately have sb: "strip b' = tr @ CHR '']'' # r" by simp
    have fuel: "2 * length tr + 2 \<le> f'" using Cons.prems(7) te(3) f(1) False by (simp add: sep_def split: if_splits)
    have "\<exists>m''. parse_elements f' (acc @ [e]) (upto_left p (CHR '','' # b')) m' =
        Some (True, (acc @ [e]) @ es, upto_left (upto_left p (CHR '','' # b')) (CHR '']'' # r), m'') \<and> reliable m''"
      by (rule Cons.IH [OF _ False te(2) s(3) sb s(2) fuel]) (use Cons.prems(1) in simp)
    then show ?thesis using s(1) p3 left_is_looking [OF s(3)] f(1) by (simp add: Let_def)
  qed
qed simp

text \<open>One member: its name, the colon and its value.\<close>

lemma member_step:
  assumes e: "reads fmt d e" "canonical (CJSON_NESTING_LIMIT - depth p) e" "is_text (jstring e)" "render fmt d e = Some t"
    and p: "left_is p (x # b)" "strip b = quoted (jstring e) @ CHR '':'' # w @ t @ c # r" "list_all is_blank w"
    and m: "reliable m" "\<not> is_number_char c" "2 * length t + 1 \<le> f"
  shows "\<exists>m'. parse_members (Suc f) es p m =
      (let p3 = buffer_skip_whitespace (upto_left p (c # r)) in
       if looking_at p3 (CHR '','') then parse_members f (es @ [e]) p3 m' else Some (True, es @ [e], p3, m')) \<and>
     reliable m' \<and> left_is (upto_left p (c # r)) (c # r)"
proof -
  obtain k where k: "jstring e = Some k" "is_cstr k" using e(3) by (auto simp: is_text_def split: option.splits)
  define r1 where "r1 = CHR '':'' # w @ t @ c # r"
  obtain m1 where m1: "cJSON_New_Item m = (Some blank, m1)" "reliable m1" using m(1) by (rule New_Item_reliable)
  have adv: "advance 1 p = upto_left p b" "left_is (upto_left p b) b" using left_is_step [OF p(1)] by simp_all
  have b: "strip b = quoted (Some k) @ r1" using p(2) k(1) by (simp add: r1_def)
  then have "strip b \<noteq> []" by (simp add: quoted_def)
  note sk = left_is_skip [OF adv(2) this]
  define q where "q = upto_left p (quoted (Some k) @ r1)"
  have q: "buffer_skip_whitespace (advance 1 p) = q" "left_is q (quoted (Some k) @ r1)"
    using sk adv(1) b by (simp_all add: q_def)
  obtain m2 where s: "parse_string blank q m1 =
      Some (True, set_type cJSON_String (set_valuestring (Some k) blank), upto_left q r1, m2)" "reliable m2"
    using parse_string_quoted [OF q(2) k(2) m1(2)] by blast
  have l1: "left_is (upto_left p r1) r1" "upto_left q r1 = upto_left p r1" using left_is_upto(1) [OF q(2)] by (simp_all add: q_def)
  have p3: "buffer_skip_whitespace (upto_left p r1) = upto_left p r1" "looking_at (upto_left p r1) (CHR '':'')"
    using left_is_skip(1) [OF l1(1)] left_is_looking l1(1) by (simp_all add: r1_def)
  have i2: "set_valuestring None (set_jstring (valuestring (set_type cJSON_String (set_valuestring (Some k) blank)))
      (set_type cJSON_String (set_valuestring (Some k) blank))) = set_type cJSON_String (set_jstring (Some k) blank)"
    by (simp add: blank_def)
  have l2: "left_is (upto_left p (w @ t @ c # r)) (w @ t @ c # r)" "advance 1 (upto_left p r1) = upto_left p (w @ t @ c # r)"
    using left_is_step [of "upto_left p r1"] l1(1) by (simp_all add: r1_def)
  obtain c' u where "t = c' # u" "\<not> is_blank c'" using render_dark [OF e(2,4)] by blast
  then have st: "strip (w @ t @ c # r) = t @ c # r" using strip_blanks [OF p(3)] by simp
  then have "strip (w @ t @ c # r) \<noteq> []" by simp
  from left_is_skip [OF l2(1) this] have p4: "buffer_skip_whitespace (upto_left p (w @ t @ c # r)) = upto_left p (t @ c # r)"
    "left_is (upto_left p (t @ c # r)) (t @ c # r)" unfolding st by simp_all
  obtain m3 where v: "parse_value f (set_type cJSON_String (set_jstring (Some k) blank)) (upto_left p (t @ c # r)) m2 =
      Some (True, e, upto_left p (c # r), m3)" "reliable m3"
    using e(1) [unfolded reads_def, rule_format, of t "upto_left p (t @ c # r)" c r m2 f cJSON_String] e(2,4) k(1) p4(2) m(2,3) s(2)
    by auto
  have "left_is (upto_left p (c # r)) (c # r)" using left_is_upto(1) [OF p4(2)] by simp
  moreover have "parse_members (Suc f) es p m =
      (let p3 = buffer_skip_whitespace (upto_left p (c # r)) in
       if looking_at p3 (CHR '','') then parse_members f (es @ [e]) p3 m3 else Some (True, es @ [e], p3, m3))"
    using m1(1) s(1) q(1) l1(2) p3 i2 l2(2) p4(1) v(1) by (simp add: parse_members.simps Let_def)
  ultimately show ?thesis using v(2) by blast
qed

lemma blank_then_dark:
  assumes "list_all is_blank w" "\<not> is_number_char c"
  shows "\<exists>c' r'. w @ c # r = c' # r' \<and> \<not> is_number_char c'"
  using assms number_char_dark by (cases w) auto

lemma parse_members_text:
  assumes "\<forall>e\<in>set es. reads fmt d e \<and> is_text (jstring e) \<and> canonical (CJSON_NESTING_LIMIT - depth p) e" "es \<noteq> []"
    and "render_members fmt d es = Some t" "left_is p (x # b)" "strip b = strip (t @ w @ CHR ''}'' # r)" "list_all is_blank w"
    and "reliable m" "2 * length t + 2 \<le> f"
  shows "\<exists>m'. parse_members f acc p m = Some (True, acc @ es, upto_left p (CHR ''}'' # r), m') \<and> reliable m'"
  using assms
proof (induction es arbitrary: acc p m t x b f)
  case (Cons e es)
  define pad tab nl where "pad = (if fmt then tabs d else [])" and "tab = (if fmt then [CHR 0x09] else [])"
    and "nl = (if fmt then [CHR 0x0A] else [])"
  have blanks: "list_all is_blank pad" "list_all is_blank tab" "list_all is_blank nl"
    by (simp_all add: pad_def tab_def nl_def)
  define comma where "comma = (if es = [] then [] else '','')"
  obtain te tr where te: "render fmt d e = Some te" "render_members fmt d es = Some tr"
    "t = pad @ quoted (jstring e) @ CHR '':'' # tab @ te @ comma @ nl @ tr"
    using Cons.prems(3) by (auto simp: pad_def tab_def nl_def comma_def split: bind_splits)
  obtain f' where f: "f = Suc f'" "2 * length te + 1 \<le> f'" "2 * length tr + 2 \<le> f'" using Cons.prems(8) te(3) by (cases f) auto
  have e: "reads fmt d e" "canonical (CJSON_NESTING_LIMIT - depth p) e" "is_text (jstring e)" using Cons.prems(1) by simp_all
  define R where "R = comma @ nl @ tr @ w @ CHR ''}'' # r"
  have "strip b = strip (pad @ quoted (jstring e) @ CHR '':'' # tab @ te @ R)" using Cons.prems(5) te(3) by (simp add: R_def)
  also have "\<dots> = quoted (jstring e) @ CHR '':'' # tab @ te @ R"
    unfolding strip_blanks [OF blanks(1)] by (simp add: quoted_def)
  finally have sb: "strip b = quoted (jstring e) @ CHR '':'' # tab @ te @ R" .
  have "\<exists>c R'. R = c # R' \<and> \<not> is_number_char c"
  proof (cases "es = []")
    case True
    then show ?thesis using te(2) blank_then_dark [of "nl @ w" "CHR ''}''" r] blanks(3) Cons.prems(6) by (simp add: R_def comma_def)
  next
    case False
    then show ?thesis by (simp add: R_def comma_def)
  qed
  then obtain c R' where c: "R = c # R'" "\<not> is_number_char c" by blast
  from member_step [OF e te(1) Cons.prems(4) sb [unfolded c(1)] blanks(2) Cons.prems(7) c(2) f(2), of acc, folded c(1)]
  obtain m' where s: "parse_members (Suc f') acc p m =
      (let p3 = buffer_skip_whitespace (upto_left p R) in
       if looking_at p3 (CHR '','') then parse_members f' (acc @ [e]) p3 m' else Some (True, acc @ [e], p3, m'))"
    "reliable m'" "left_is (upto_left p R) R" by blast
  show ?case
  proof (cases "es = []")
    case True
    have "strip R = CHR ''}'' # r"
      using True te(2) strip_blanks [of "nl @ w" "CHR ''}'' # r"] blanks(3) Cons.prems(6) by (simp add: R_def comma_def)
    then have p3: "buffer_skip_whitespace (upto_left p R) = upto_left p (CHR ''}'' # r)"
      "left_is (upto_left p (CHR ''}'' # r)) (CHR ''}'' # r)" using left_is_skip [OF s(3)] by simp_all
    then show ?thesis using s(1,2) left_is_looking [OF p3(2)] True f(1) by (simp add: Let_def)
  next
    case False
    define b' where "b' = nl @ tr @ w @ CHR ''}'' # r"
    have R: "R = CHR '','' # b'" using False by (simp add: R_def b'_def comma_def)
    then have p3: "buffer_skip_whitespace (upto_left p R) = upto_left p R" using left_is_skip(1) [OF s(3)] by simp
    have l3: "left_is (upto_left p R) (CHR '','' # b')" using s(3) R by simp
    have sb': "strip b' = strip (tr @ w @ CHR ''}'' # r)" unfolding b'_def strip_blanks [OF blanks(3)] ..
    have "\<exists>m''. parse_members f' (acc @ [e]) (upto_left p R) m' =
        Some (True, (acc @ [e]) @ es, upto_left (upto_left p R) (CHR ''}'' # r), m'') \<and> reliable m''"
      by (rule Cons.IH [OF _ False te(2) l3 sb' Cons.prems(6) s(2) f(3)]) (use Cons.prems(1) in simp)
    then show ?thesis using s(1) p3 left_is_looking [OF l3] f(1) by (simp add: Let_def)
  qed
qed simp

subsection \<open>Reading every item\<close>

lemma reads_array:
  assumes "\<forall>e\<in>set ch. \<forall>d. reads fmt d e"
  shows "reads fmt d (Item cJSON_Array None 0 zero_double k ch)"
  unfolding reads_def
proof (intro allI impI, elim conjE)
  fix t c r f p t0 and m :: mem
  assume t: "render fmt d (Item cJSON_Array None 0 zero_double k ch) = Some t" "left_is p (t @ c # r)" "reliable m"
    "2 * length t + 1 \<le> f" "canonical (CJSON_NESTING_LIMIT - depth p) (Item cJSON_Array None 0 zero_double k ch)"
  obtain s where s: "render_elements fmt (d + 1) ch = Some s" "t = CHR ''['' # s @ '']''" using t(1) by (auto split: bind_splits)
  obtain f' where f: "f = Suc f'" "2 * length s + 2 \<le> f'" using t(4) s(2) by (cases f) auto
  have dep: "depth p < CJSON_NESTING_LIMIT" "\<forall>e\<in>set ch. jstring e = None \<and> canonical (CJSON_NESTING_LIMIT - depth p - 1) e"
    using t(5) by (auto simp: list_all_iff cjson_type_defs)
  define p0 where "p0 = p\<lparr>depth := depth p + 1\<rparr>"
  have p0: "left_is p0 (CHR ''['' # s @ CHR '']'' # c # r)" "depth p0 = depth p + 1" using t(2) s(2) by (simp_all add: p0_def)
  define it0 where "it0 = set_type t0 (set_jstring (jstring (Item cJSON_Array None 0 zero_double k ch)) blank)"
  have "\<exists>m'. parse_items (CHR '']'') cJSON_Array (\<lambda>q n. parse_elements f' [] q n) it0 p0 m =
     Some (True, set_child ch (set_type cJSON_Array it0), (upto_left p0 (c # r))\<lparr>depth := depth p0 - 1\<rparr>, m') \<and> reliable m'"
  proof (rule parse_items_text [OF p0(1)])
    show "\<not> is_blank (CHR '']'')" by simp
    show "reliable m" by (rule t(3))
    show "ch = [] \<and> strip (s @ CHR '']'' # c # r) = CHR '']'' # c # r \<or>
      (\<exists>c' u. strip (s @ CHR '']'' # c # r) = c' # u \<and> c' \<noteq> CHR '']'') \<and>
      (\<forall>q x. left_is q (x # strip (s @ CHR '']'' # c # r)) \<and> content q = content p0 \<and> depth q = depth p0 \<longrightarrow>
        (\<exists>m'. parse_elements f' [] q m = Some (True, ch, upto_left q (CHR '']'' # c # r), m') \<and> reliable m'))"
    proof (cases ch)
      case Nil
      then show ?thesis using s(1) by simp
    next
      case (Cons e es)
      then obtain te u where te: "render fmt (d + 1) e = Some te" "s = te @ u" using s(1) by (auto split: bind_splits)
      have "canonical (CJSON_NESTING_LIMIT - depth p - 1) e" using dep(2) Cons by simp
      from render_dark [OF this te(1)] obtain c' u' where c': "te = c' # u'" "\<not> is_blank c'" "c' \<noteq> CHR '']''" by blast
      then have st: "strip (s @ CHR '']'' # c # r) = s @ CHR '']'' # c # r" using te(2) by simp
      have "\<exists>m'. parse_elements f' [] q m = Some (True, [] @ ch, upto_left q (CHR '']'' # c # r), m') \<and> reliable m'"
        if q: "left_is q (x # s @ CHR '']'' # c # r)" "depth q = depth p0" for q x
        by (rule parse_elements_text [OF _ _ s(1) q(1) st t(3) f(2)]) (use assms dep(2) Cons q(2) p0(2) in auto)
      then show ?thesis unfolding st using c' te(2) by auto
    qed
  qed
  then obtain m' where run: "parse_items (CHR '']'') cJSON_Array (\<lambda>q n. parse_elements f' [] q n) it0 p0 m =
     Some (True, set_child ch (set_type cJSON_Array it0), upto_left p (c # r), m')" "reliable m'"
    by (auto simp: p0_def upto_left_def)
  have "left_is p (CHR ''['' # s @ CHR '']'' # c # r)" using t(2) s(2) by simp
  then have "parse_value f it0 p m = parse_array (\<lambda>q n. parse_elements f' [] q n) it0 p m"
    unfolding f(1) by (subst parse_value_first) (auto simp: is_digit_def)
  also have "\<dots> = Some (True, set_child ch (set_type cJSON_Array it0), upto_left p (c # r), m')"
    using dep(1) run(1) left_is_access [OF p0(1)] by (simp add: parse_array_def p0_def Let_def)
  finally show "\<exists>m'. parse_value f (set_type t0 (set_jstring (jstring (Item cJSON_Array None 0 zero_double k ch)) blank)) p m =
      Some (True, Item cJSON_Array None 0 zero_double k ch, upto_left p (c # r), m') \<and> reliable m'"
    using run(2) by (simp add: it0_def blank_def)
qed

lemma reads_object:
  assumes "\<forall>e\<in>set ch. \<forall>d. reads fmt d e"
  shows "reads fmt d (Item cJSON_Object None 0 zero_double k ch)"
  unfolding reads_def
proof (intro allI impI, elim conjE)
  fix t c r f p t0 and m :: mem
  assume t: "render fmt d (Item cJSON_Object None 0 zero_double k ch) = Some t" "left_is p (t @ c # r)" "reliable m"
    "2 * length t + 1 \<le> f" "canonical (CJSON_NESTING_LIMIT - depth p) (Item cJSON_Object None 0 zero_double k ch)"
  define nl w where "nl = (if fmt then [CHR 0x0A] else [])" and "w = (if fmt then tabs d else [])"
  have blanks: "list_all is_blank nl" "list_all is_blank w" by (simp_all add: nl_def w_def)
  obtain s where s: "render_members fmt (d + 1) ch = Some s" "t = CHR ''{'' # nl @ s @ w @ ''}''"
    using t(1) by (auto simp: nl_def w_def split: bind_splits)
  obtain f' where f: "f = Suc f'" "2 * length s + 2 \<le> f'" using t(4) s(2) by (cases f) auto
  have dep: "depth p < CJSON_NESTING_LIMIT" "\<forall>e\<in>set ch. is_text (jstring e) \<and> canonical (CJSON_NESTING_LIMIT - depth p - 1) e"
    using t(5) by (auto simp: list_all_iff cjson_type_defs)
  define p0 where "p0 = p\<lparr>depth := depth p + 1\<rparr>"
  define b where "b = nl @ s @ w"
  have p0: "left_is p0 (CHR ''{'' # b @ CHR ''}'' # c # r)" "depth p0 = depth p + 1" using t(2) s(2) by (simp_all add: p0_def b_def)
  have stb: "strip (b @ CHR ''}'' # c # r) = strip (s @ w @ CHR ''}'' # c # r)"
    using strip_blanks [OF blanks(1)] by (simp add: b_def)
  define it0 where "it0 = set_type t0 (set_jstring (jstring (Item cJSON_Object None 0 zero_double k ch)) blank)"
  have "\<exists>m'. parse_items (CHR ''}'') cJSON_Object (\<lambda>q n. parse_members f' [] q n) it0 p0 m =
     Some (True, set_child ch (set_type cJSON_Object it0), (upto_left p0 (c # r))\<lparr>depth := depth p0 - 1\<rparr>, m') \<and> reliable m'"
  proof (rule parse_items_text [OF p0(1)])
    show "\<not> is_blank (CHR ''}'')" by simp
    show "reliable m" by (rule t(3))
    show "ch = [] \<and> strip (b @ CHR ''}'' # c # r) = CHR ''}'' # c # r \<or>
      (\<exists>c' u. strip (b @ CHR ''}'' # c # r) = c' # u \<and> c' \<noteq> CHR ''}'') \<and>
      (\<forall>q x. left_is q (x # strip (b @ CHR ''}'' # c # r)) \<and> content q = content p0 \<and> depth q = depth p0 \<longrightarrow>
        (\<exists>m'. parse_members f' [] q m = Some (True, ch, upto_left q (CHR ''}'' # c # r), m') \<and> reliable m'))"
    proof (cases ch)
      case Nil
      then show ?thesis using s(1) stb strip_blanks [OF blanks(2)] by simp
    next
      case (Cons e es)
      then obtain u where u: "s = (if fmt then tabs (d + 1) else []) @ CHR 0x22 # u"
        using s(1) by (auto simp: quoted_def split: bind_splits)
      then have "strip (b @ CHR ''}'' # c # r) = CHR 0x22 # u @ w @ CHR ''}'' # c # r"
        unfolding stb using strip_blanks [of "tabs (d + 1)"] by simp
      moreover have "\<exists>m'. parse_members f' [] q m = Some (True, [] @ ch, upto_left q (CHR ''}'' # c # r), m') \<and> reliable m'"
        if q: "left_is q (x # strip (b @ CHR ''}'' # c # r))" "depth q = depth p0" for q x
        by (rule parse_members_text [OF _ _ s(1) q(1) _ blanks(2) t(3) f(2)])
          (use assms dep(2) Cons q(2) p0(2) stb in \<open>auto simp: dropWhile_idem\<close>)
      ultimately show ?thesis by auto
    qed
  qed
  then obtain m' where run: "parse_items (CHR ''}'') cJSON_Object (\<lambda>q n. parse_members f' [] q n) it0 p0 m =
     Some (True, set_child ch (set_type cJSON_Object it0), upto_left p (c # r), m')" "reliable m'"
    by (auto simp: p0_def upto_left_def)
  have "left_is p (CHR ''{'' # b @ CHR ''}'' # c # r)" using t(2) s(2) by (simp add: b_def)
  then have "parse_value f it0 p m = parse_object (\<lambda>q n. parse_members f' [] q n) it0 p m"
    unfolding f(1) by (subst parse_value_first) (auto simp: is_digit_def)
  also have "\<dots> = Some (True, set_child ch (set_type cJSON_Object it0), upto_left p (c # r), m')"
    using dep(1) run(1) left_is_looking [OF p0(1)] by (simp add: parse_object_def p0_def Let_def)
  finally show "\<exists>m'. parse_value f (set_type t0 (set_jstring (jstring (Item cJSON_Object None 0 zero_double k ch)) blank)) p m =
      Some (True, Item cJSON_Object None 0 zero_double k ch, upto_left p (c # r), m') \<and> reliable m'"
    using run(2) by (simp add: it0_def blank_def)
qed

lemma reads_word:
  assumes "render fmt d it = Some w" "w = ''null'' \<and> it = Item cJSON_NULL None 0 zero_double k [] \<or>
     w = ''false'' \<and> it = Item cJSON_False None 0 zero_double k [] \<or> w = ''true'' \<and> it = Item cJSON_True None 1 zero_double k []"
  shows "reads fmt d it"
  unfolding reads_def
proof (intro allI impI, elim conjE)
  fix t c r f p t0 and m :: mem
  assume t: "render fmt d it = Some t" "left_is p (t @ c # r)" "reliable m" "2 * length t + 1 \<le> f"
  obtain f' where f: "f = Suc f'" using t(4) by (cases f) auto
  have l: "left_is p (w @ c # r)" using t(1,2) assms(1) by simp
  show "\<exists>m'. parse_value f (set_type t0 (set_jstring (jstring it) blank)) p m = Some (True, it, upto_left p (c # r), m') \<and> reliable m'"
    using assms(2)
  proof (elim disjE conjE)
    assume w: "w = ''null''" "it = Item cJSON_NULL None 0 zero_double k []"
    show ?thesis unfolding f parse_value_word(1) [OF l w(1)] using w(2) t(3) by (simp add: blank_def)
  next
    assume w: "w = ''false''" "it = Item cJSON_False None 0 zero_double k []"
    show ?thesis unfolding f parse_value_word(2) [OF l w(1)] using w(2) t(3) by (simp add: blank_def)
  next
    assume w: "w = ''true''" "it = Item cJSON_True None 1 zero_double k []"
    show ?thesis unfolding f parse_value_word(3) [OF l w(1)] using w(2) t(3) by (simp add: blank_def)
  qed
qed

lemma reads_number:
  assumes "number_ok vi vd"
  shows "reads fmt d (Item cJSON_Number None vi vd k [])"
  unfolding reads_def
proof (intro allI impI, elim conjE)
  fix t c r f p t0 and m :: mem
  assume t: "render fmt d (Item cJSON_Number None vi vd k []) = Some t" "left_is p (t @ c # r)"
    "\<not> is_number_char c" "reliable m" "2 * length t + 1 \<le> f"
  obtain f' where f: "f = Suc f'" using t(5) by (cases f) auto
  have tj: "t = number_text vd" using t(1) by simp
  then have l: "left_is p (number_text vd @ c # r)" using t(2) by simp
  obtain c' u where c': "number_text vd = c' # u" "c' = CHR ''-'' \<or> is_digit c'" using number_text_facts(5) [of vd] assms by (auto simp: number_ok_def)
  have l': "left_is p (c' # u @ c # r)" using l c'(1) by simp
  have "c' \<noteq> CHR ''n''" "c' \<noteq> CHR ''f''" "c' \<noteq> CHR ''t''" "c' \<noteq> CHR 0x22" using c'(2) by (auto simp: is_digit_def)
  then show "\<exists>m'. parse_value f (set_type t0 (set_jstring (jstring (Item cJSON_Number None vi vd k [])) blank)) p m =
      Some (True, Item cJSON_Number None vi vd k [], upto_left p (c # r), m') \<and> reliable m'"
    using parse_value_first [OF l'] parse_number_text [OF l t(3) assms] c'(2) t(4) unfolding f by (simp add: blank_def)
qed

lemma reads_string:
  assumes "is_cstr s"
  shows "reads fmt d (Item cJSON_String (Some s) 0 zero_double k [])"
  unfolding reads_def
proof (intro allI impI, elim conjE)
  fix t c r f p t0 and m :: mem
  assume t: "render fmt d (Item cJSON_String (Some s) 0 zero_double k []) = Some t" "left_is p (t @ c # r)" "reliable m"
    "2 * length t + 1 \<le> f"
  obtain f' where f: "f = Suc f'" using t(4) by (cases f) auto
  have l: "left_is p (quoted (Some s) @ c # r)" using t(1,2) by simp
  then have l': "left_is p (CHR 0x22 # tl (quoted (Some s)) @ c # r)" by (simp add: quoted_def)
  show "\<exists>m'. parse_value f (set_type t0 (set_jstring (jstring (Item cJSON_String (Some s) 0 zero_double k [])) blank)) p m =
      Some (True, Item cJSON_String (Some s) 0 zero_double k [], upto_left p (c # r), m') \<and> reliable m'"
    unfolding f using parse_value_first [OF l'] parse_string_quoted [OF l assms t(3), of "Item t0 None 0 zero_double k []"]
    by (simp add: blank_def del: parse_value.simps)
qed

lemma reads_value: "reads fmt d it"
proof (induction it arbitrary: d)
  case (Item t vs vi vd k ch)
  show ?case
  proof (cases "\<exists>n. canonical n (Item t vs vi vd k ch)")
    case False
    then show ?thesis by (simp add: reads_def del: canonical.simps)
  next
    case True
    then obtain n where "canonical n (Item t vs vi vd k ch)" by blast
    then show ?thesis
    proof (cases rule: canonical_cases)
      case Number
      then show ?thesis using reads_number by simp
    next
      case (String s)
      then show ?thesis using reads_string by simp
    next
      case Array
      then show ?thesis using reads_array [of ch fmt d k] Item by simp
    next
      case Object
      then show ?thesis using reads_object [of ch fmt d k] Item by simp
    qed (auto intro!: reads_word)
  qed
qed

lemma render_total: "canonical n it \<Longrightarrow> \<exists>t. render fmt d it = Some t"
proof (induction it arbitrary: n d)
  case (Item t vs vi vd k ch)
  have list: "\<exists>s. render_elements fmt d es = Some s" "\<exists>s. render_members fmt d es = Some s"
    if "\<forall>e\<in>set es. \<forall>d. \<exists>t. render fmt d e = Some t" for es d
    using that by (induction es) (auto, (metis bind.bind_lunit)+)
  from Item.prems show ?case
  proof (cases rule: canonical_cases)
    case Array
    then have "\<forall>e\<in>set ch. \<forall>d. \<exists>t. render fmt d e = Some t" using Item.IH by blast
    from list(1) [OF this] obtain s where "render_elements fmt (d + 1) ch = Some s" by blast
    then show ?thesis using Array by simp
  next
    case Object
    then have "\<forall>e\<in>set ch. \<forall>d. \<exists>t. render fmt d e = Some t" using Item.IH by blast
    from list(2) [OF this] obtain s where "render_members fmt (d + 1) ch = Some s" by blast
    then show ?thesis using Object by simp
  qed simp_all
qed

subsection \<open>Parsing a whole text\<close>

lemma parse_render:
  assumes "canonical CJSON_NESTING_LIMIT it" "jstring it = None" "render fmt 0 it = Some t" "reliable m"
  shows "\<exists>m'. cJSON_ParseWithOpts (Some t) nul m = Some (Some it, length t, m') \<and> reliable m'"
proof -
  obtain c s where c: "t = c # s" "\<not> is_blank c" "(of_char c :: nat) < 128" using render_dark [OF assms(1,3)] by blast
  define p where "p = \<lparr>content = t @ [NUL], offset = 0, depth = 0\<rparr>"
  have l: "left_is p (t @ NUL # [])" by (simp add: p_def left_is_def)
  obtain m1 where m1: "cJSON_New_Item m = (Some blank, m1)" "reliable m1" using assms(4) by (rule New_Item_reliable)
  have "c \<noteq> CHR 0xEF" using c(3) by auto
  then have bom: "skip_utf8_bom p = Some p" using c(1) by (simp add: skip_utf8_bom_def p_def)
  have ws: "buffer_skip_whitespace p = p" using left_is_skip(1) [OF l] upto_left_self [OF l] c by simp
  have "2 * length t + 1 \<le> parse_fuel (t @ [NUL])" by (simp add: parse_fuel_def)
  then obtain m2 where v: "parse_value (parse_fuel (t @ [NUL])) blank p m1 = Some (True, it, upto_left p [NUL], m2)" "reliable m2"
    using reads_value [of fmt 0 it, unfolded reads_def, rule_format, of t p NUL "[]" m1 "parse_fuel (t @ [NUL])" 0] assms(1-3) l m1(2)
    by (auto simp: p_def blank_def)
  have e: "offset (upto_left p [NUL]) = length t" by (simp add: upto_left_def p_def)
  have l2: "left_is (upto_left p [NUL]) [NUL]" using left_is_upto(1) [OF l] .
  have ws2: "buffer_skip_whitespace (upto_left p [NUL]) = upto_left p [NUL]"
    by (simp add: buffer_skip_whitespace_def upto_left_def p_def)
  show ?thesis
    using m1(1) bom ws v e ws2 left_is_looking [OF l2] by (simp add: cJSON_ParseWithOpts_def p_def [symmetric] Let_def)
qed

subsection \<open>The codec law\<close>

text \<open>What a client of an encoder and a decoder needs: every valid value has a text, in each of the formats,
  and the text is read back as the value.\<close>

locale text_codec =
  fixes valid :: "'a \<Rightarrow> bool" and enc :: "'f \<Rightarrow> 'a \<Rightarrow> string option" and dec :: "string \<Rightarrow> 'a option"
  assumes enc_total: "valid x \<Longrightarrow> \<exists>t. enc f x = Some t"
    and dec_enc: "valid x \<Longrightarrow> enc f x = Some t \<Longrightarrow> dec t = Some x"
begin

lemma enc_inj:
  assumes "valid x" "valid y" "enc f x = enc g y"
  shows "x = y"
proof -
  obtain t where "enc f x = Some t" using enc_total [OF assms(1)] by blast
  then have "dec t = Some x" "dec t = Some y"
    using dec_enc [OF assms(1), of f t] dec_enc [OF assms(2), of g t] assms(3) by simp_all
  then show ?thesis by simp
qed

lemma reencode: "valid x \<Longrightarrow> enc f x = Some t \<Longrightarrow> Option.bind (dec t) (enc f) = Some t"
  by (simp add: dec_enc)

end

definition json_document :: "cJSON \<Rightarrow> bool" where
  "json_document it \<longleftrightarrow> canonical CJSON_NESTING_LIMIT it \<and> jstring it = None"

definition parsed :: "string \<Rightarrow> cJSON option" where
  "parsed t = do { (it, m) \<leftarrow> cJSON_Parse (Some t) always; it }"

interpretation json: text_codec json_document "\<lambda>fmt. render fmt 0" parsed
proof unfold_locales
  fix it fmt and t :: string
  assume it: "json_document it"
  show "\<exists>t. render fmt 0 it = Some t" using it render_total by (auto simp: json_document_def)
  assume t: "render fmt 0 it = Some t"
  have "canonical CJSON_NESTING_LIMIT it" "jstring it = None" using it by (simp_all add: json_document_def)
  from parse_render [OF this t reliable_always, of False]
  show "parsed t = Some it" by (auto simp: parsed_def cJSON_Parse_def)
qed

subsection \<open>Properties\<close>

text \<open>C2: Printing and parsing are inverse: every document of at most 1000 levels, whatever finite doubles
  its numbers are, has a text, formatted or not; when the allocator works and the text is not larger than
  \<open>INT_MAX\<close>, \<open>print\<close> returns that text and \<open>cJSON_ParseWithOpts\<close> reads all of it and returns the same tree,
  in blocks of its own.\<close>

theorem print_parse_roundtrip:
  assumes "json_document it" "reliable m"
  shows "\<exists>t. render fmt 0 it = Some t \<and>
     (length t + 2 \<le> int_max \<longrightarrow>
       (\<exists>m1 m2. print_json re (Some it) fmt m = Some (Some t, m1) \<and>
          cJSON_ParseWithOpts (Some t) nul m1 = Some (Some it, length t, m2) \<and>
          live (cJSON_Delete (Some it) m2) = live m1 \<and> live m1 = live m + 1))"
proof -
  have it: "canonical CJSON_NESTING_LIMIT it" "jstring it = None" using assms(1) by (simp_all add: json_document_def)
  then have pr: "printable it" using canonical_printable by (simp add: cstr_opt_def)
  obtain t where t: "render fmt 0 it = Some t" using json.enc_total assms(1) by blast
  have cs: "is_cstr t" using render_cstr [OF pr t] .
  show ?thesis
  proof (intro exI [of _ t] conjI impI t)
    assume len: "length t + 2 \<le> int_max"
    obtain m1 where m1: "print_json re (Some it) fmt m = Some (Some t, m1)" "live m1 = live m + 1" "reliable m1"
      using print_json_outcome [OF pr, of re fmt m] t len assms(2) by auto
    obtain m2 where m2: "cJSON_ParseWithOpts (Some t) nul m1 = Some (Some it, length t, m2)"
      using parse_render [OF it t m1(3)] by blast
    have "live (cJSON_Delete (Some it) m2) = live m1"
      using parse_safe_lemma [of "Some t" nul m1] cs m2 by auto
    then show "\<exists>m1 m2. print_json re (Some it) fmt m = Some (Some t, m1) \<and>
          cJSON_ParseWithOpts (Some t) nul m1 = Some (Some it, length t, m2) \<and>
          live (cJSON_Delete (Some it) m2) = live m1 \<and> live m1 = live m + 1"
      using m1(1,2) m2 by blast
  qed
qed

lemma sample_document: "json_document sample"
  unfolding json_document_def sample_def CJSON_NESTING_LIMIT_def
  using number_ok_of_int [of "- 42" "- 42"]
  by (simp add: cjson_type_defs is_text_def jtext_def zero_double_def double_of_int_exact saturate_def int_range_def)

lemma print_parse_roundtrip_witness:
  "\<exists>m1 m2. print_json True (Some sample) False always = Some (Some sample_text, m1) \<and>
     cJSON_ParseWithOpts (Some sample_text) True m1 = Some (Some sample, 36, m2)"
proof -
  obtain t where t: "render False 0 sample = Some t" "length t + 2 \<le> int_max \<longrightarrow>
       (\<exists>m1 m2. print_json True (Some sample) False always = Some (Some t, m1) \<and>
          cJSON_ParseWithOpts (Some t) True m1 = Some (Some sample, length t, m2))"
    using print_parse_roundtrip [OF sample_document reliable_always, of False True True] by blast
  then have "t = sample_text" using sample_rendered by simp
  then show ?thesis using t(2) sample_text_length by simp
qed

text \<open>The text determines the document: two documents that are printed as the same text are the same tree,
  even when one was printed formatted and the other was not.\<close>

theorem text_determines_document:
  assumes "json_document a" "json_document b" "render fmt 0 a = render fmt' 0 b"
  shows "a = b"
  by (rule json.enc_inj [OF assms])

lemma text_determines_document_witness:
  "\<exists>a b. json_document a \<and> json_document b \<and> render False 0 a = render False 0 b \<and> a = b"
  using text_determines_document [OF sample_document sample_document refl] sample_document by blast

end
