(* ===== verification/Leda_Data.thy ===== *)
theory Leda_Data
  imports CJSON_Roundtrip
begin

text \<open>
  The device data of \<open>leda.c\<close>: the names of the data types, and the conversions between an array of
  \<open>leda_device_data_t\<close>, in which every value is a text, and the JSON array that goes over the connection.
  A field of an entry is \<open>None\<close> while nothing was written to it (the block comes from \<open>malloc\<close>); reading it
  then is undefined, as is a \<open>%s\<close> that gets \<open>NULL\<close> or an integer.
\<close>

subsection \<open>Data types (leda.h)\<close>

definition LEDA_TYPE_INT :: int where "LEDA_TYPE_INT = 0"
definition LEDA_TYPE_BOOL :: int where "LEDA_TYPE_BOOL = 1"
definition LEDA_TYPE_FLOAT :: int where "LEDA_TYPE_FLOAT = 2"
definition LEDA_TYPE_TEXT :: int where "LEDA_TYPE_TEXT = 3"
definition LEDA_TYPE_DATE :: int where "LEDA_TYPE_DATE = 4"
definition LEDA_TYPE_ENUM :: int where "LEDA_TYPE_ENUM = 5"
definition LEDA_TYPE_STRUCT :: int where "LEDA_TYPE_STRUCT = 6"
definition LEDA_TYPE_ARRAY :: int where "LEDA_TYPE_ARRAY = 7"
definition LEDA_TYPE_DOUBLE :: int where "LEDA_TYPE_DOUBLE = 8"
definition LEDA_TYPE_BUTT :: int where "LEDA_TYPE_BUTT = 9"

lemmas leda_type_defs =
  LEDA_TYPE_INT_def LEDA_TYPE_BOOL_def LEDA_TYPE_FLOAT_def LEDA_TYPE_TEXT_def LEDA_TYPE_DATE_def
  LEDA_TYPE_ENUM_def LEDA_TYPE_STRUCT_def LEDA_TYPE_ARRAY_def LEDA_TYPE_DOUBLE_def LEDA_TYPE_BUTT_def

definition MAX_PARAM_NAME_LENGTH :: nat where "MAX_PARAM_NAME_LENGTH = 64"
definition MAX_PARAM_VALUE_LENGTH :: nat where "MAX_PARAM_VALUE_LENGTH = 2048"

record leda_device_data =
  dtype :: "int option"
  dkey :: "string option"
  dvalue :: "string option"

definition unset :: leda_device_data where
  "unset = \<lparr>dtype = None, dkey = None, dvalue = None\<rparr>"

definition g_type_map :: "string list" where
  "g_type_map = [''int'', ''bool'', ''float'', ''text'', ''date'', ''enum'', ''struct'', ''array'', ''double'', ''invalid'']"

definition type_number_to_string :: "int \<Rightarrow> string" where
  "type_number_to_string t =
     (if t < LEDA_TYPE_INT \<or> LEDA_TYPE_BUTT \<le> t then g_type_map ! nat LEDA_TYPE_BUTT else g_type_map ! nat t)"

definition type_string_to_number :: "string option \<Rightarrow> int option" where
  "type_string_to_number ty =
     do { s \<leftarrow> ty;
          Some (if s = ''int'' then LEDA_TYPE_INT
            else if s = ''bool'' then LEDA_TYPE_BOOL
            else if s = ''float'' then LEDA_TYPE_FLOAT
            else if s = ''text'' then LEDA_TYPE_TEXT
            else if s = ''date'' then LEDA_TYPE_DATE
            else if s = ''enum'' then LEDA_TYPE_ENUM
            else if s = ''struct'' then LEDA_TYPE_STRUCT
            else if s = ''array'' then LEDA_TYPE_ARRAY
            else if s = ''double'' then LEDA_TYPE_DOUBLE
            else LEDA_TYPE_BUTT) }"

subsection \<open>To JSON\<close>

text \<open>The \<open>switch\<close>: \<open>False\<close> when the value of a struct or an array is no JSON text.\<close>

definition write_value :: "int \<Rightarrow> string option \<Rightarrow> cJSON option \<Rightarrow> mem \<Rightarrow> (bool \<times> cJSON option \<times> mem) option" where
  "write_value t v it m =
     (if t \<in> {LEDA_TYPE_INT, LEDA_TYPE_BOOL, LEDA_TYPE_ENUM} then
        do { s \<leftarrow> v; (_, it', m') \<leftarrow> cJSON_AddNumberToObject it (Some ''value'') (double_of_int (atoi s)) m; Some (True, it', m') }
      else if t \<in> {LEDA_TYPE_DOUBLE, LEDA_TYPE_FLOAT} then
        do { s \<leftarrow> v; (_, it', m') \<leftarrow> cJSON_AddNumberToObject it (Some ''value'') (atof s) m; Some (True, it', m') }
      else if t \<in> {LEDA_TYPE_DATE, LEDA_TYPE_TEXT} then
        do { s \<leftarrow> v; let (_, it', m') = cJSON_AddStringToObject it (Some ''value'') (Some s) m; Some (True, it', m') }
      else if t \<in> {LEDA_TYPE_ARRAY, LEDA_TYPE_STRUCT} then
        do { s \<leftarrow> v;
             (sub_item, m1) \<leftarrow> cJSON_Parse (Some s) m;
             case sub_item of
               None \<Rightarrow> Some (False, it, m1)
             | Some _ \<Rightarrow> (let (it', m2) = cJSON_AddItemToObject it (Some ''value'') sub_item m1 in Some (True, it', m2)) }
      else None)"

text \<open>The loop, with the entries that are left and their count.\<close>

fun write_entries :: "leda_device_data list \<Rightarrow> nat \<Rightarrow> cJSON option \<Rightarrow> mem \<Rightarrow> (cJSON option \<times> mem) option" where
  "write_entries ds 0 arr m = Some (arr, m)"
| "write_entries [] (Suc n) arr m = None"
| "write_entries (d # ds) (Suc n) arr m =
     (case cJSON_CreateObject m of
        (None, m1) \<Rightarrow> Some (None, cJSON_Delete arr m1)
      | (Some it, m1) \<Rightarrow>
          do { k \<leftarrow> dkey d;
               let (_, it1, m2) = cJSON_AddStringToObject (Some it) (Some ''identifier'') (Some k) m1;
               t \<leftarrow> dtype d;
               let (_, it2, m3) = cJSON_AddStringToObject it1 (Some ''type'') (Some (type_number_to_string t)) m2;
               (ok, it3, m4) \<leftarrow> write_value t (dvalue d) it2 m3;
               if \<not> ok then Some (None, cJSON_Delete arr m4)
               else write_entries ds n (cJSON_AddItemToArray arr it3) m4 })"

definition struct_data_to_json_data :: "leda_device_data list \<Rightarrow> int \<Rightarrow> mem \<Rightarrow> (cJSON option \<times> mem) option" where
  "struct_data_to_json_data struct_data data_cnt m =
     (case cJSON_CreateArray m of
        (None, m1) \<Rightarrow> Some (None, m1)
      | (Some arr, m1) \<Rightarrow> write_entries struct_data (nat data_cnt) (Some arr) m1)"

subsection \<open>From JSON\<close>

definition read_value :: "int \<Rightarrow> cJSON \<Rightarrow> mem \<Rightarrow> ((int + string) \<times> mem) option" where
  "read_value t sub_item m =
     (if t \<in> {LEDA_TYPE_INT, LEDA_TYPE_BOOL, LEDA_TYPE_ENUM} then
        Some (Inr (snprintf_s MAX_PARAM_VALUE_LENGTH (print_int (valueint sub_item))), m)
      else if t \<in> {LEDA_TYPE_FLOAT, LEDA_TYPE_DOUBLE} then
        Some (Inr (snprintf_s MAX_PARAM_VALUE_LENGTH (print_f (valuedouble sub_item))), m)
      else if t \<in> {LEDA_TYPE_TEXT, LEDA_TYPE_DATE} then
        do { s \<leftarrow> valuestring sub_item; Some (Inr (snprintf_s MAX_PARAM_VALUE_LENGTH s), m) }
      else if t \<in> {LEDA_TYPE_STRUCT, LEDA_TYPE_ARRAY} then
        do { (buff, m1) \<leftarrow> cJSON_PrintUnformatted (Some sub_item) m;
             case buff of
               None \<Rightarrow> Some (Inl LE_ERROR_ALLOCATING_MEM, m1)
             | Some s \<Rightarrow> Some (Inr (snprintf_s MAX_PARAM_VALUE_LENGTH s), c_free 1 m1) }
      else None)"

text \<open>The body of the loop: the entry, or the error the function returns with.\<close>

definition read_entry :: "cJSON \<Rightarrow> mem \<Rightarrow> ((int + leda_device_data) \<times> mem) option" where
  "read_entry item m =
     (if ctype item = cJSON_String then
        do { s \<leftarrow> valuestring item; Some (Inr (unset\<lparr>dkey := Some (snprintf_s MAX_PARAM_NAME_LENGTH s)\<rparr>), m) }
      else
        (case cJSON_GetObjectItem (Some item) (Some ''identifier'') of
           None \<Rightarrow> Some (Inl LE_ERROR_INVAILD_PARAM, m)
         | Some idn \<Rightarrow>
             do { k \<leftarrow> valuestring idn;
                  case cJSON_GetObjectItem (Some item) (Some ''type'') of
                    None \<Rightarrow> Some (Inl LE_ERROR_INVAILD_PARAM, m)
                  | Some ty \<Rightarrow>
                      if ctype ty \<noteq> cJSON_String then Some (Inl LE_ERROR_INVAILD_PARAM, m)
                      else
                        do { t \<leftarrow> type_string_to_number (valuestring ty);
                             case cJSON_GetObjectItem (Some item) (Some ''value'') of
                               None \<Rightarrow> Some (Inl LE_ERROR_INVAILD_PARAM, m)
                             | Some sub_item \<Rightarrow>
                                 do { (r, m1) \<leftarrow> read_value t sub_item m;
                                      Some (case r of
                                              Inl e \<Rightarrow> (Inl e, m1)
                                            | Inr v \<Rightarrow> (Inr \<lparr>dtype = Some t, dkey = Some (snprintf_s MAX_PARAM_NAME_LENGTH k),
                                                            dvalue = Some v\<rparr>, m1)) } } }))"

text \<open>The loop over the elements, into a block with room for \<open>n\<close> more entries.\<close>

fun read_entries :: "nat \<Rightarrow> cJSON list \<Rightarrow> mem \<Rightarrow> ((int + leda_device_data list) \<times> mem) option" where
  "read_entries n [] m = Some (Inr (replicate n unset), m)"
| "read_entries 0 (e # es) m = None"
| "read_entries (Suc n) (e # es) m =
     do { (r, m1) \<leftarrow> read_entry e m;
          case r of
            Inl err \<Rightarrow> Some (Inl err, m1)
          | Inr d \<Rightarrow>
              do { (rs, m2) \<leftarrow> read_entries n es m1;
                   Some (case rs of Inl err \<Rightarrow> (Inl err, m2) | Inr ds \<Rightarrow> (Inr (d # ds), m2)) } }"

definition json_data_to_struct_data ::
    "cJSON option \<Rightarrow> mem \<Rightarrow> (int \<times> leda_device_data list option \<times> int \<times> mem) option" where
  \<comment> \<open>result: return value, \<open>*struct_data\<close> when it was written, \<open>*data_cnt\<close>\<close>
  "json_data_to_struct_data json_data m =
     (let size = cJSON_GetArraySize json_data in
      if size \<le> 0 then Some (LE_SUCCESS, None, 0, m)
      else
        (let (ok, m1) = malloc m in
         if \<not> ok then Some (LE_ERROR_ALLOCATING_MEM, None, size, m1)
         else
           do { (r, m2) \<leftarrow> read_entries (nat size) (case json_data of None \<Rightarrow> [] | Some a \<Rightarrow> child a) m1;
                Some (case r of
                        Inl e \<Rightarrow> (e, None, size, c_free 1 m2)
                      | Inr ds \<Rightarrow> (LE_SUCCESS, Some ds, size, m2)) }))"

subsection \<open>Data that survives the way\<close>

text \<open>The items that are made, and their place in an object.\<close>

definition text_item :: "string \<Rightarrow> cJSON" where
  "text_item s = Item cJSON_String (Some s) 0 zero_double None []"

definition number_item :: "int \<Rightarrow> cJSON" where
  "number_item n = Item cJSON_Number None n (double_of_int n) None []"

definition empty_object :: cJSON where
  "empty_object = Item cJSON_Object None 0 zero_double None []"

lemma create_text_ok:
  assumes "reliable m"
  obtains m' where "cJSON_CreateString (Some s) m = (Some (text_item s), m')" "reliable m'" "live m' = live m + blocks (text_item s)"
proof (cases rule: New_Item_cases [of m])
  case (2 m1)
  obtain m2 where "cJSON_strdup (Some s) m1 = (Some s, m2)" "live m2 = live m1 + 1" "reliable m2"
    using strdup_cases [of s m1] 2 assms by auto
  then show thesis
    using that 2 assms by (simp add: cJSON_CreateString_def create_text_def text_item_def blank_def cjson_type_defs)
qed (use assms in simp)

lemma create_number_ok:
  assumes "reliable m" "saturate d = Some n"
  obtains m' where "cJSON_CreateNumber d m = Some (Some (Item cJSON_Number None n d None []), m')" "reliable m'"
    "live m' = live m + 1"
proof (cases rule: New_Item_cases [of m])
  case (2 m1)
  then show thesis using that assms by (simp add: cJSON_CreateNumber_def blank_def)
qed (use assms in simp)

lemma create_object_ok:
  assumes "reliable m"
  obtains m' where "cJSON_CreateObject m = (Some empty_object, m')" "reliable m'" "live m' = live m + blocks empty_object"
proof (cases rule: New_Item_cases [of m])
  case (2 m1)
  then show thesis using that assms by (simp add: create_defs create_type_def empty_object_def blank_def cjson_type_defs)
qed (use assms in simp)

lemma add_member_ok:
  assumes "reliable m" "jstring it = None" "\<not> is_ref ob"
  obtains m' where "add_item_to_object (Some ob) (Some nm) (Some it) False m = (True, Some (with_member nm it ob), Some (keyed nm it), m')"
    "reliable m'" "live m' - blocks (with_member nm it ob) = live m - blocks ob - blocks it" "\<not> is_ref (with_member nm it ob)"
proof -
  obtain ok ob' it' m' where r: "add_item_to_object (Some ob) (Some nm) (Some it) False m = (ok, ob', it', m')"
    by (metis prod_cases4)
  from add_item_to_object_spec [OF r] assms(1,2)
  have "ok" "ob' = Some (with_member nm it ob)" "it' = Some (keyed nm it)" "live m' = live m + 1" "reliable m'" by auto
  moreover have "int (blocks (with_member nm it ob)) = blocks ob + blocks it + 1"
    using blocks_with_member [OF assms(3), of nm it] blocks_keyed [of nm it] assms(2) by simp
  moreover have "\<not> is_ref (with_member nm it ob)" using assms(3) by (cases ob) (simp add: with_member_def)
  ultimately show thesis using that r by simp
qed

lemma add_text_ok:
  assumes "reliable m" "\<not> is_ref ob"
  obtains m' where "cJSON_AddStringToObject (Some ob) (Some nm) (Some s) m =
      (Some (keyed nm (text_item s)), Some (with_member nm (text_item s) ob), m')" "reliable m'"
    "live m' - blocks (with_member nm (text_item s) ob) = live m - blocks ob" "\<not> is_ref (with_member nm (text_item s) ob)"
proof -
  obtain m1 where 1: "cJSON_CreateString (Some s) m = (Some (text_item s), m1)" "reliable m1" "live m1 = live m + blocks (text_item s)"
    using create_text_ok [OF assms(1)] by blast
  have "jstring (text_item s) = None" by (simp add: text_item_def)
  from add_member_ok [OF 1(2) this assms(2), of nm] obtain m2 where
    "add_item_to_object (Some ob) (Some nm) (Some (text_item s)) False m1 =
       (True, Some (with_member nm (text_item s) ob), Some (keyed nm (text_item s)), m2)" "reliable m2"
    "live m2 - blocks (with_member nm (text_item s) ob) = live m1 - blocks ob - blocks (text_item s)"
    "\<not> is_ref (with_member nm (text_item s) ob)" by blast
  then show thesis using that 1 by (simp add: cJSON_AddStringToObject_def add_created_def)
qed

lemma add_number_ok:
  assumes "reliable m" "\<not> is_ref ob" "saturate d = Some n"
  defines "i \<equiv> Item cJSON_Number None n d None []"
  obtains m' where "cJSON_AddNumberToObject (Some ob) (Some nm) d m = Some (Some (keyed nm i), Some (with_member nm i ob), m')"
    "reliable m'" "live m' - blocks (with_member nm i ob) = live m - blocks ob" "\<not> is_ref (with_member nm i ob)"
proof -
  obtain m1 where 1: "cJSON_CreateNumber d m = Some (Some i, m1)" "reliable m1" "live m1 = live m + 1"
    using create_number_ok [OF assms(1,3)] unfolding i_def by blast
  have i: "jstring i = None" "blocks i = 1" by (simp_all add: i_def cjson_type_defs)
  from add_member_ok [OF 1(2) i(1) assms(2), of nm] obtain m2 where
    "add_item_to_object (Some ob) (Some nm) (Some i) False m1 = (True, Some (with_member nm i ob), Some (keyed nm i), m2)"
    "reliable m2" "live m2 - blocks (with_member nm i ob) = live m1 - blocks ob - blocks i" "\<not> is_ref (with_member nm i ob)" by blast
  then show thesis using that 1 i(2) by (simp add: cJSON_AddNumberToObject_def add_created_def)
qed

text \<open>
  The values that an entry of a type may have to come back unchanged: the decimal text of an \<open>int\<close>, the
  text of a finite number as \<open>%lf\<close> writes it (with six decimals: every such text of at most 15 digits, see
  \<open>decimal_value_ok\<close>), a text that fits its field, or the text of a JSON value as \<open>cJSON_PrintUnformatted\<close> writes it. The array, the entry and the value are levels of
  their own, so a value has two levels less than the parser allows.
\<close>

definition plain_value :: "string \<Rightarrow> bool" where
  "plain_value v = (case parsed v of None \<Rightarrow> False
     | Some j \<Rightarrow> canonical (CJSON_NESTING_LIMIT - 2) j \<and> jstring j = None \<and> render False 0 j = Some v)"

definition value_ok :: "int \<Rightarrow> string \<Rightarrow> bool" where
  "value_ok t v \<longleftrightarrow> is_cstr v \<and> length v < MAX_PARAM_VALUE_LENGTH \<and>
     (if t \<in> {LEDA_TYPE_INT, LEDA_TYPE_BOOL, LEDA_TYPE_ENUM} then v = print_int (atoi v)
      else if t \<in> {LEDA_TYPE_FLOAT, LEDA_TYPE_DOUBLE} then
        finite_double (atof v) \<and> v = print_f (atof v)
      else if t \<in> {LEDA_TYPE_STRUCT, LEDA_TYPE_ARRAY} then plain_value v
      else t \<in> {LEDA_TYPE_TEXT, LEDA_TYPE_DATE})"

fun sendable :: "leda_device_data \<Rightarrow> bool" where
  "sendable \<lparr>dtype = Some t, dkey = Some k, dvalue = Some v\<rparr> =
     (is_cstr k \<and> length k < MAX_PARAM_NAME_LENGTH \<and> value_ok t v)"
| "sendable _ = False"

lemma int_range_atoi: "int_range (atoi v)"
proof -
  have "INT_MIN \<le> sint w \<and> sint w \<le> INT_MAX" for w :: "32 word"
    using sint_greater_eq [of w] sint_lt [of w] by simp
  then show ?thesis
    unfolding atoi_def Let_def int_range_def by (simp split: prod.split)
qed

lemma double_int_range: "int_range n \<Longrightarrow> \<bar>n\<bar> < 10 ^ 15"
  by (simp add: int_range_def abs_less_iff)

lemma saturate_int:
  assumes "\<bar>n\<bar> < 10 ^ 15"
  obtains i where "saturate (double_of_int n) = Some i" "int_range n \<Longrightarrow> i = n"
proof -
  have "(10 :: int) ^ 15 \<le> 2 ^ 53" by simp
  then have d: "double_of_int n = Fin (n < 0) (of_int \<bar>n\<bar>)" using assms by (intro double_of_int_exact) linarith
  show thesis
  proof (cases "int_range n")
    case True
    then have "saturate (double_of_int n) = Some n"
      using d_to_int_of_int [OF True] by (auto simp: saturate_def int_range_def d)
    then show thesis using that by simp
  next
    case False
    then have "d_ge_int (double_of_int n) INT_MAX \<or> d_le_int (double_of_int n) INT_MIN"
      by (auto simp: int_range_def d)
    then have "saturate (double_of_int n) \<noteq> None" by (auto simp: saturate_def)
    then show thesis using that False by blast
  qed
qed

lemma canonical_double:
  assumes "number_ok i d"
  shows "canonical l (Item cJSON_Number None i d k [])"
  using assms by simp

lemma canonical_number:
  assumes "\<bar>n\<bar> < 10 ^ 15" "saturate (double_of_int n) = Some i"
  shows "canonical l (Item cJSON_Number None i (double_of_int n) k [])"
  using number_ok_of_int [OF _ assms(2)] assms(1) by simp

lemma number_ok_finite:
  assumes "binary64 d" "finite_double d"
  obtains i where "number_ok i d"
  using assms saturate_total [of d] by (auto simp: number_ok_def finite_double_def split: double.splits)

lemma keyed_plain [simp]:
  "canonical l it \<Longrightarrow> keyed k it = set_jstring (Some k) it"
  by (cases it) (auto simp: keyed_def cjson_type_defs split: if_splits)

lemma set_jstring_simps [simp]:
  "canonical l (set_jstring k it) = canonical l it" "jstring (set_jstring k it) = k"
  "render fmt d (set_jstring k it) = render fmt d it"
  "valuestring (set_jstring k it) = valuestring it" "ctype (set_jstring k it) = ctype it"
  "valueint (set_jstring k it) = valueint it" "valuedouble (set_jstring k it) = valuedouble it"
  by (cases it; simp add: render.simps)+

lemma canonical_mono: "canonical n it \<Longrightarrow> n \<le> l \<Longrightarrow> canonical l it"
proof (induction it arbitrary: n l)
  case (Item t vs vi vd k ch)
  have "n - 1 \<le> l - 1" using Item.prems(2) by simp
  then have "list_all (\<lambda>e. P e \<and> canonical (n - 1) e) ch \<Longrightarrow> list_all (\<lambda>e. P e \<and> canonical (l - 1) e) ch" for P
    using Item.IH by (fastforce simp: list_all_iff)
  moreover have "0 < n \<Longrightarrow> 0 < l" using Item.prems(2) by simp
  ultimately show ?case using Item.prems(1) by (auto split: if_splits)
qed

text \<open>Writing a value and reading the written item.\<close>

definition value_item :: "int \<Rightarrow> string \<Rightarrow> cJSON \<Rightarrow> bool" where
  "value_item t v j \<longleftrightarrow> canonical (CJSON_NESTING_LIMIT - 2) j \<and> jstring j = None \<and>
     (\<forall>m. reliable m \<longrightarrow> (\<exists>m'. read_value t (set_jstring (Some ''value'') j) m = Some (Inr v, m') \<and> reliable m' \<and> live m' = live m))"

lemma value_item_number:
  assumes "number_ok i d" "length v < MAX_PARAM_VALUE_LENGTH"
    and "t \<in> {LEDA_TYPE_INT, LEDA_TYPE_BOOL, LEDA_TYPE_ENUM} \<and> v = print_int i \<or>
         t \<in> {LEDA_TYPE_FLOAT, LEDA_TYPE_DOUBLE} \<and> v = print_f d"
  shows "value_item t v (Item cJSON_Number None i d None [])"
  using assms(2,3) canonical_double [OF assms(1)]
  by (auto simp: value_item_def read_value_def leda_type_defs simp del: canonical.simps)

lemma value_item_text:
  assumes "is_cstr v" "length v < MAX_PARAM_VALUE_LENGTH" "t \<in> {LEDA_TYPE_TEXT, LEDA_TYPE_DATE}"
  shows "value_item t v (text_item v)"
  using assms by (auto simp: value_item_def text_item_def read_value_def is_text_def leda_type_defs cjson_type_defs)

lemma value_item_json:
  assumes "canonical (CJSON_NESTING_LIMIT - 2) j" "jstring j = None" "render False 0 j = Some v"
    "length v < MAX_PARAM_VALUE_LENGTH" "t \<in> {LEDA_TYPE_STRUCT, LEDA_TYPE_ARRAY}"
  shows "value_item t v j"
proof -
  have "\<exists>m'. read_value t (set_jstring (Some ''value'') j) m = Some (Inr v, m') \<and> reliable m' \<and> live m' = live m" if m: "reliable m" for m
  proof -
    have "printable (set_jstring (Some ''value'') j)"
      using assms(1) by (intro canonical_printable [where n = "CJSON_NESTING_LIMIT - 2"]) (simp_all add: cstr_opt_def)
    from print_json_outcome [OF this, of True False m]
    obtain r m' where r: "print_json True (Some (set_jstring (Some ''value'') j)) False m = Some (r, m')"
      "live m' = live m + (case r of None \<Rightarrow> 0 | Some _ \<Rightarrow> 1)" "reliable m'"
      "reliable m \<and> render False 0 j = Some v \<and> length v + 2 \<le> int_max \<longrightarrow> r = Some v"
      using m by auto
    moreover have "length v + 2 \<le> int_max" using assms(4) by (simp add: MAX_PARAM_VALUE_LENGTH_def)
    ultimately have "r = Some v" using assms(3) m by blast
    then show ?thesis
      using r assms(4,5) by (auto simp: read_value_def cJSON_PrintUnformatted_def leda_type_defs)
  qed
  then show ?thesis using assms(1,2) by (simp add: value_item_def)
qed

text \<open>Every number with six decimals and at most 15 digits is such a value.\<close>

lemma decimal_value_ok:
  assumes "0 \<le> k" "k < 10 ^ 15" "t \<in> {LEDA_TYPE_FLOAT, LEDA_TYPE_DOUBLE}"
  shows "value_ok t (six_decimals s k)"
proof -
  have k: "0 \<le> k div 1000000" "k div 1000000 < 10 ^ 9" using assms(1,2) by simp_all
  have d: "length (dec (k div 1000000)) \<le> 9"
  proof (cases "k div 1000000 = 0")
    case True
    then show ?thesis by (simp add: dec.simps [of 0])
  next
    case False
    then show ?thesis using k by (intro dec_length_le) linarith+
  qed
  have "length (six_decimals s k) < MAX_PARAM_VALUE_LENGTH"
    using d dec_six [of k] by (simp add: six_decimals_def Let_def MAX_PARAM_VALUE_LENGTH_def)
  moreover have "is_cstr (six_decimals s k)"
    using dec_no_NUL [of "k div 1000000"] dec_no_NUL [of "k mod 1000000"] assms(1)
    by (auto simp: six_decimals_def Let_def is_cstr_def)
  ultimately show ?thesis using six_decimals_kept [OF assms(1,2)] assms(3) by (auto simp: value_ok_def leda_type_defs)
qed

text \<open>The item that a value becomes.\<close>

definition value_tree :: "int \<Rightarrow> string \<Rightarrow> cJSON" where
  "value_tree t v =
     (if t \<in> {LEDA_TYPE_STRUCT, LEDA_TYPE_ARRAY} then the (parsed v)
      else if t \<in> {LEDA_TYPE_TEXT, LEDA_TYPE_DATE} then text_item v
      else
        (let d = (if t \<in> {LEDA_TYPE_FLOAT, LEDA_TYPE_DOUBLE} then atof v else double_of_int (atoi v)) in
         Item cJSON_Number None (the (saturate d)) d None []))"

lemma parsed_render:
  "canonical CJSON_NESTING_LIMIT j \<Longrightarrow> jstring j = None \<Longrightarrow> render fmt 0 j = Some t \<Longrightarrow> parsed t = Some j"
  using json.dec_enc [of j] by (simp add: json_document_def)

lemma write_number:
  assumes "reliable m" "\<not> is_ref ob" "number_ok i d"
    and "write_value t (Some v) (Some ob) m =
           do { (_, it', m') \<leftarrow> cJSON_AddNumberToObject (Some ob) (Some ''value'') d m; Some (True, it', m') }"
    and "value_item t v (Item cJSON_Number None i d None [])"
    and "value_tree t v = Item cJSON_Number None (the (saturate d)) d None []"
  obtains m' where "write_value t (Some v) (Some ob) m = Some (True, Some (with_member ''value'' (value_tree t v) ob), m')"
    "value_item t v (value_tree t v)" "reliable m'" "live m' - blocks (with_member ''value'' (value_tree t v) ob) = live m - blocks ob"
proof -
  have i: "saturate d = Some i" using assms(3) by (simp add: number_ok_def)
  obtain m' where "cJSON_AddNumberToObject (Some ob) (Some ''value'') d m =
      Some (Some (keyed ''value'' (Item cJSON_Number None i d None [])), Some (with_member ''value'' (Item cJSON_Number None i d None []) ob), m')"
    "reliable m'" "live m' - blocks (with_member ''value'' (Item cJSON_Number None i d None []) ob) = live m - blocks ob"
    using add_number_ok [OF assms(1,2) i, of "''value''"] by blast
  then show thesis using that [of m'] assms(4-6) i by simp
qed

lemma write_value_ok:
  assumes "reliable m" "\<not> is_ref ob" "value_ok t v"
  obtains m' where "write_value t (Some v) (Some ob) m = Some (True, Some (with_member ''value'' (value_tree t v) ob), m')"
    "value_item t v (value_tree t v)" "reliable m'" "live m' - blocks (with_member ''value'' (value_tree t v) ob) = live m - blocks ob"
proof -
  have len: "length v < MAX_PARAM_VALUE_LENGTH" "is_cstr v" using assms(3) by (simp_all add: value_ok_def)
  consider (int) "t \<in> {LEDA_TYPE_INT, LEDA_TYPE_BOOL, LEDA_TYPE_ENUM}" "v = print_int (atoi v)"
    | (float) "t \<in> {LEDA_TYPE_FLOAT, LEDA_TYPE_DOUBLE}" "finite_double (atof v)" "v = print_f (atof v)"
    | (json) "t \<in> {LEDA_TYPE_STRUCT, LEDA_TYPE_ARRAY}" "plain_value v"
    | (str) "t \<in> {LEDA_TYPE_TEXT, LEDA_TYPE_DATE}"
    using assms(3) by (auto simp: value_ok_def split: if_splits)
  then show thesis
  proof cases
    case int
    have n: "int_range (atoi v)" "\<bar>atoi v\<bar> < 10 ^ 15" using int_range_atoi double_int_range by blast+
    obtain i where i: "saturate (double_of_int (atoi v)) = Some i" "i = atoi v" using saturate_int [OF n(2)] n(1) by metis
    have ok: "number_ok i (double_of_int (atoi v))" using number_ok_of_int [OF _ i(1)] n(2) by simp
    have tree: "value_tree t v = Item cJSON_Number None (the (saturate (double_of_int (atoi v)))) (double_of_int (atoi v)) None []"
      using int(1) by (auto simp: value_tree_def leda_type_defs Let_def)
    have w: "write_value t (Some v) (Some ob) m = do { (_, it', m') \<leftarrow> cJSON_AddNumberToObject (Some ob) (Some ''value'')
        (double_of_int (atoi v)) m; Some (True, it', m') }"
      using int(1) by (auto simp: write_value_def)
    have item: "value_item t v (Item cJSON_Number None i (double_of_int (atoi v)) None [])"
      by (rule value_item_number [OF ok len(1)]) (use int i(2) in simp)
    show thesis by (rule write_number [OF assms(1,2) ok w item tree that])
  next
    case float
    obtain i where ok: "number_ok i (atof v)" using number_ok_finite strtod_binary64 [of v] float(2) unfolding atof_def by blast
    have w: "write_value t (Some v) (Some ob) m = do { (_, it', m') \<leftarrow> cJSON_AddNumberToObject (Some ob) (Some ''value'')
        (atof v) m; Some (True, it', m') }"
      using float(1) by (auto simp: write_value_def leda_type_defs)
    have tree: "value_tree t v = Item cJSON_Number None (the (saturate (atof v))) (atof v) None []"
      using float(1) by (auto simp: value_tree_def leda_type_defs Let_def)
    have item: "value_item t v (Item cJSON_Number None i (atof v) None [])"
      by (rule value_item_number [OF ok len(1)]) (use float in blast)
    show thesis by (rule write_number [OF assms(1,2) ok w item tree that])
  next
    case str
    obtain m' where "cJSON_AddStringToObject (Some ob) (Some ''value'') (Some v) m =
      (Some (keyed ''value'' (text_item v)), Some (with_member ''value'' (text_item v) ob), m')" "reliable m'"
      "live m' - blocks (with_member ''value'' (text_item v) ob) = live m - blocks ob"
      using add_text_ok [OF assms(1,2)] by blast
    moreover have "value_tree t v = text_item v" using str by (auto simp: value_tree_def leda_type_defs)
    ultimately show thesis using that [of m'] str value_item_text [OF len(2,1) str]
      by (auto simp: write_value_def leda_type_defs)
  next
    case json
    obtain j where j: "canonical (CJSON_NESTING_LIMIT - 2) j" "jstring j = None" "render False 0 j = Some v"
      using json(2) by (auto simp: plain_value_def split: option.splits)
    then have c: "canonical CJSON_NESTING_LIMIT j" using canonical_mono by (metis diff_le_self)
    obtain e m1 where p: "cJSON_ParseWithOpts (Some v) False m = Some (Some j, e, m1)" "reliable m1"
      using parse_render [OF c j(2,3) assms(1)] by blast
    have l: "live m1 = live m + blocks j"
      using parse_safe_lemma [of "Some v" False m] len(2) p(1) by (auto simp: cJSON_Delete_def)
    obtain m2 where "add_item_to_object (Some ob) (Some ''value'') (Some j) False m1 =
       (True, Some (with_member ''value'' j ob), Some (keyed ''value'' j), m2)" "reliable m2"
      "live m2 - blocks (with_member ''value'' j ob) = live m1 - blocks ob - blocks j"
      using add_member_ok [OF p(2) j(2) assms(2)] by blast
    moreover have "value_tree t v = j"
      using json(1) parsed_render [OF c j(2,3)] by (simp add: value_tree_def)
    ultimately show thesis
      using that [of m2] json(1) value_item_json [OF j len(1) json(1)] p(1) l
      by (auto simp: write_value_def cJSON_Parse_def cJSON_AddItemToObject_def leda_type_defs)
  qed
qed

text \<open>The same for an entry.\<close>

definition entry_item :: "leda_device_data \<Rightarrow> cJSON \<Rightarrow> bool" where
  "entry_item d it \<longleftrightarrow> canonical (CJSON_NESTING_LIMIT - 1) it \<and> jstring it = None \<and>
     (\<forall>m. reliable m \<longrightarrow> (\<exists>m'. read_entry it m = Some (Inr d, m') \<and> reliable m' \<and> live m' = live m))"

definition entry_tree :: "string \<Rightarrow> int \<Rightarrow> cJSON \<Rightarrow> cJSON" where
  "entry_tree k t j = with_member ''value'' j (with_member ''type'' (text_item (type_number_to_string t))
     (with_member ''identifier'' (text_item k) empty_object))"

lemma type_names:
  assumes "value_ok t v"
  shows "type_string_to_number (Some (type_number_to_string t)) = Some t" "is_cstr (type_number_to_string t)"
proof -
  have "t \<in> {LEDA_TYPE_INT, LEDA_TYPE_BOOL, LEDA_TYPE_ENUM, LEDA_TYPE_FLOAT, LEDA_TYPE_DOUBLE, LEDA_TYPE_STRUCT,
      LEDA_TYPE_ARRAY, LEDA_TYPE_TEXT, LEDA_TYPE_DATE}"
    using assms by (auto simp: value_ok_def split: if_splits)
  then show "type_string_to_number (Some (type_number_to_string t)) = Some t" "is_cstr (type_number_to_string t)"
    by (auto simp: type_number_to_string_def type_string_to_number_def g_type_map_def leda_type_defs)
qed

lemma text_item_canonical [simp]: "is_cstr s \<Longrightarrow> canonical n (text_item s)"
  by (simp add: text_item_def is_text_def cjson_type_defs)

lemma text_item_sel [simp]:
  "valuestring (text_item s) = Some s" "ctype (text_item s) = cJSON_String" "jstring (text_item s) = None"
  by (simp_all add: text_item_def)

lemma entry_tree_child:
  assumes "is_cstr k" "is_cstr (type_number_to_string t)" "canonical (CJSON_NESTING_LIMIT - 2) j"
  shows "entry_tree k t j = Item cJSON_Object None 0 zero_double None
     [set_jstring (Some ''identifier'') (text_item k), set_jstring (Some ''type'') (text_item (type_number_to_string t)),
      set_jstring (Some ''value'') j]"
  using assms keyed_plain [OF text_item_canonical [of k 1]] keyed_plain [OF text_item_canonical [of "type_number_to_string t" 1]]
  by (simp add: entry_tree_def with_member_def empty_object_def)

lemma entry_tree_ok:
  assumes "is_cstr k" "length k < MAX_PARAM_NAME_LENGTH" "value_ok t v" "value_item t v j"
  shows "entry_item \<lparr>dtype = Some t, dkey = Some k, dvalue = Some v\<rparr> (entry_tree k t j)"
proof -
  note ty = type_names [OF assms(3)]
  have j: "canonical (CJSON_NESTING_LIMIT - 2) j"
    and rd: "\<And>m. reliable m \<Longrightarrow> \<exists>m'. read_value t (set_jstring (Some ''value'') j) m = Some (Inr v, m') \<and> reliable m' \<and> live m' = live m"
    using assms(4) by (auto simp: value_item_def)
  note tree = entry_tree_child [OF assms(1) ty(2) j]
  have names: "eq_nocase (Some ''identifier'') (Some ''identifier'')" "eq_nocase (Some ''type'') (Some ''type'')"
    "\<not> eq_nocase (Some ''type'') (Some ''identifier'')" "eq_nocase (Some ''value'') (Some ''value'')"
    "\<not> eq_nocase (Some ''value'') (Some ''identifier'')" "\<not> eq_nocase (Some ''value'') (Some ''type'')"
    by (simp_all add: same_name_def lower_def)
  have get: "cJSON_GetObjectItem (Some (entry_tree k t j)) (Some ''identifier'') = Some (set_jstring (Some ''identifier'') (text_item k))"
    "cJSON_GetObjectItem (Some (entry_tree k t j)) (Some ''type'') = Some (set_jstring (Some ''type'') (text_item (type_number_to_string t)))"
    "cJSON_GetObjectItem (Some (entry_tree k t j)) (Some ''value'') = Some (set_jstring (Some ''value'') j)"
    unfolding tree cJSON_GetObjectItem_find by (simp_all add: names del: eq_nocase_Some)
  have "canonical (CJSON_NESTING_LIMIT - 1 - 1) j" using j by (simp add: CJSON_NESTING_LIMIT_def)
  then have "canonical (CJSON_NESTING_LIMIT - 1) (entry_tree k t j)" "jstring (entry_tree k t j) = None"
    "ctype (entry_tree k t j) \<noteq> cJSON_String"
    unfolding tree using assms(1) ty(2) by (simp_all add: is_text_def CJSON_NESTING_LIMIT_def cjson_type_defs)
  moreover have "\<exists>m'. read_entry (entry_tree k t j) m = Some (Inr \<lparr>dtype = Some t, dkey = Some k, dvalue = Some v\<rparr>, m') \<and>
      reliable m' \<and> live m' = live m" if "reliable m" for m
    using rd [OF that] calculation(3) ty(1) assms(2) by (auto simp: read_entry_def get)
  ultimately show ?thesis by (simp add: entry_item_def)
qed

text \<open>The tree of an array of entries.\<close>

definition entry_of_data :: "leda_device_data \<Rightarrow> cJSON" where
  "entry_of_data d = entry_tree (the (dkey d)) (the (dtype d)) (value_tree (the (dtype d)) (the (dvalue d)))"

definition data_tree :: "leda_device_data list \<Rightarrow> cJSON" where
  "data_tree ds = Item cJSON_Array None 0 zero_double None (map entry_of_data ds)"

lemma add_to_array:
  "cJSON_AddItemToArray (Some a) (Some it) = Some (set_child (child a @ [it]) a)"
  by (simp add: cJSON_AddItemToArray_def add_item_to_array_def)

lemma write_entries_ok:
  assumes "list_all sendable ds" "reliable m" "\<not> is_ref arr"
  shows "\<exists>its m'. write_entries ds (length ds) (Some arr) m = Some (Some (set_child (child arr @ its) arr), m') \<and>
     list_all2 entry_item ds its \<and> its = map entry_of_data ds \<and> reliable m' \<and> live m' - blocks (set_child (child arr @ its) arr) = live m - blocks arr"
  using assms
proof (induction ds arbitrary: arr m)
  case Nil
  then show ?case by (cases arr) simp
next
  case (Cons d ds)
  obtain t k v where d: "d = \<lparr>dtype = Some t, dkey = Some k, dvalue = Some v\<rparr>" "is_cstr k" "length k < MAX_PARAM_NAME_LENGTH" "value_ok t v"
    using Cons.prems(1) by (cases d rule: sendable.cases) auto
  obtain m1 where 1: "cJSON_CreateObject m = (Some empty_object, m1)" "reliable m1" "live m1 = live m + blocks empty_object"
    using create_object_ok [OF Cons.prems(2)] .
  have r0: "\<not> is_ref empty_object" by (simp add: empty_object_def cjson_type_defs)
  define ob1 where "ob1 = with_member ''identifier'' (text_item k) empty_object"
  obtain m2 where 2: "cJSON_AddStringToObject (Some empty_object) (Some ''identifier'') (Some k) m1 =
      (Some (keyed ''identifier'' (text_item k)), Some ob1, m2)" "reliable m2" "live m2 - blocks ob1 = live m1 - blocks empty_object" "\<not> is_ref ob1"
    using add_text_ok [OF 1(2) r0] unfolding ob1_def by blast
  define ty ob2 where "ty = text_item (type_number_to_string t)" and "ob2 = with_member ''type'' ty ob1"
  obtain m3 where 3: "cJSON_AddStringToObject (Some ob1) (Some ''type'') (Some (type_number_to_string t)) m2 =
      (Some (keyed ''type'' ty), Some ob2, m3)" "reliable m3" "live m3 - blocks ob2 = live m2 - blocks ob1" "\<not> is_ref ob2"
    using add_text_ok [OF 2(2,4)] unfolding ty_def ob2_def by blast
  define j where "j = value_tree t v"
  obtain m4 where 4: "write_value t (Some v) (Some ob2) m3 = Some (True, Some (with_member ''value'' j ob2), m4)" "value_item t v j"
    "reliable m4" "live m4 - blocks (with_member ''value'' j ob2) = live m3 - blocks ob2"
    using write_value_ok [OF 3(2,4) d(4)] unfolding j_def .
  have tree: "with_member ''value'' j ob2 = entry_tree k t j" by (simp add: entry_tree_def ob1_def ob2_def ty_def)
  define arr1 where "arr1 = set_child (child arr @ [entry_tree k t j]) arr"
  have arr1: "\<not> is_ref arr1" "blocks arr1 = blocks arr + blocks (entry_tree k t j)"
    using Cons.prems(3) blocks_add_child [OF Cons.prems(3)] by (cases arr; simp add: arr1_def)+
  obtain its m' where its: "write_entries ds (length ds) (Some arr1) m4 = Some (Some (set_child (child arr1 @ its) arr1), m')"
    "list_all2 entry_item ds its" "its = map entry_of_data ds" "reliable m'" "live m' - blocks (set_child (child arr1 @ its) arr1) = live m4 - blocks arr1"
    using Cons.IH [OF _ 4(3) arr1(1)] Cons.prems(1) by auto
  have same: "set_child (child arr1 @ its) arr1 = set_child (child arr @ entry_tree k t j # its) arr"
    by (cases arr) (simp add: arr1_def)
  have "write_entries (d # ds) (length (d # ds)) (Some arr) m = Some (Some (set_child (child arr1 @ its) arr1), m')"
    using 1(1) 2(1) 3(1) 4(1) its(1) by (simp add: d(1) add_to_array arr1_def tree)
  moreover have "list_all2 entry_item (d # ds) (entry_tree k t j # its)"
    using its(2) entry_tree_ok [OF d(2-4) 4(2)] d(1) by simp
  moreover have "live m' - blocks (set_child (child arr1 @ its) arr1) = live m - blocks arr"
    using its(5) arr1(2) 1(3) 2(3) 3(3) 4(4) tree by simp
  moreover have "entry_tree k t j # its = map entry_of_data (d # ds)" using its(3) by (simp add: entry_of_data_def d(1) j_def)
  ultimately show ?case using its(4) unfolding same by (intro exI conjI)
qed

lemma array_size: "length (child a) < 2 ^ 31 \<Longrightarrow> cJSON_GetArraySize (Some a) = int (length (child a))"
  by (simp add: cJSON_GetArraySize_def signed_of_nat signed_take_bit_int_eq_self)

lemma read_entries_ok:
  assumes "list_all2 entry_item ds its" "reliable m"
  shows "\<exists>m'. read_entries (length ds) its m = Some (Inr ds, m') \<and> reliable m' \<and> live m' = live m"
  using assms
proof (induction arbitrary: m rule: list_all2_induct)
  case (Cons d ds it its)
  obtain m1 where 1: "read_entry it m = Some (Inr d, m1)" "reliable m1" "live m1 = live m"
    using Cons.hyps(1) Cons.prems by (auto simp: entry_item_def)
  obtain m2 where "read_entries (length ds) its m1 = Some (Inr ds, m2)" "reliable m2" "live m2 = live m1"
    using Cons.IH [OF 1(2)] by blast
  then show ?case using 1 by simp
qed simp

lemma to_struct_ok:
  assumes "list_all2 entry_item ds its" "length ds < 2 ^ 31" "reliable m" "child a = its"
  shows "\<exists>m'. json_data_to_struct_data (Some a) m = Some (LE_SUCCESS, if ds = [] then None else Some ds, int (length ds), m') \<and>
     live m' = live m + (if ds = [] then 0 else 1)"
proof (cases "ds = []")
  case True
  then show ?thesis using assms by (simp add: json_data_to_struct_data_def cJSON_GetArraySize_def)
next
  case False
  have len: "length its = length ds" using assms(1) by (simp add: list_all2_lengthD)
  then have size: "cJSON_GetArraySize (Some a) = int (length ds)" using array_size [of a] assms(2,4) by simp
  obtain m1 where 1: "malloc m = (True, m1)" "live m1 = live m + 1" "reliable m1"
    using malloc_split [of m] assms(3) by metis
  obtain m2 where "read_entries (length ds) its m1 = Some (Inr ds, m2)" "live m2 = live m1"
    using read_entries_ok [OF assms(1) 1(3)] by blast
  then show ?thesis using False 1 assms(4) by (simp add: json_data_to_struct_data_def size)
qed

lemma to_json_ok:
  assumes "list_all sendable ds" "reliable m"
  obtains its m' where "struct_data_to_json_data ds (int (length ds)) m = Some (Some (Item cJSON_Array None 0 zero_double None its), m')"
    "list_all2 entry_item ds its" "live m' = live m + blocks (Item cJSON_Array None 0 zero_double None its)" "reliable m'"
    "Item cJSON_Array None 0 zero_double None its = data_tree ds"
proof -
  define arr where "arr = Item cJSON_Array None 0 zero_double None []"
  obtain m1 where new: "cJSON_New_Item m = (Some blank, m1)" "live m1 = live m + 1" "reliable m1"
    using New_Item_cases [of m] assms(2) by metis
  then have 1: "cJSON_CreateArray m = (Some arr, m1)" "live m1 = live m + 1" "reliable m1"
    by (simp_all add: create_defs create_type_def arr_def blank_def)
  have "\<not> is_ref arr" "blocks arr = 1" "child arr = []" by (simp_all add: arr_def cjson_type_defs)
  with write_entries_ok [OF assms(1) 1(3) this(1)]
  obtain its m' where "write_entries ds (length ds) (Some arr) m1 = Some (Some (set_child its arr), m')"
    "list_all2 entry_item ds its" "its = map entry_of_data ds" "reliable m'" "live m' - blocks (set_child its arr) = live m1 - 1" by auto
  moreover have "set_child its arr = Item cJSON_Array None 0 zero_double None its" by (simp add: arr_def)
  ultimately show thesis using that 1 by (simp add: struct_data_to_json_data_def data_tree_def)
qed

lemma array_document:
  assumes "list_all2 entry_item ds its"
  shows "json_document (Item cJSON_Array None 0 zero_double None its)"
proof -
  have "list_all (\<lambda>e. jstring e = None \<and> canonical (CJSON_NESTING_LIMIT - 1) e) its"
    using assms by (induction rule: list_all2_induct) (auto simp: entry_item_def)
  then show ?thesis by (simp add: json_document_def cjson_type_defs CJSON_NESTING_LIMIT_def)
qed

subsection \<open>What may be read\<close>

text \<open>
  The elements that \<open>json_data_to_struct_data\<close> can handle: a member that is used as a text has one, the name
  of the type is known, and a structured value can be printed. Nothing in the code checks this.
\<close>

definition entry_fits :: "cJSON \<Rightarrow> bool" where
  "entry_fits e \<longleftrightarrow>
     (if ctype e = cJSON_String then valuestring e \<noteq> None
      else
        (case cJSON_GetObjectItem (Some e) (Some ''identifier'') of
           None \<Rightarrow> True
         | Some idn \<Rightarrow> valuestring idn \<noteq> None \<and>
             (case cJSON_GetObjectItem (Some e) (Some ''type'') of
                None \<Rightarrow> True
              | Some ty \<Rightarrow> ctype ty = cJSON_String \<longrightarrow>
                  (case type_string_to_number (valuestring ty) of
                     None \<Rightarrow> False
                   | Some t \<Rightarrow>
                       (case cJSON_GetObjectItem (Some e) (Some ''value'') of
                          None \<Rightarrow> True
                        | Some v \<Rightarrow> t \<noteq> LEDA_TYPE_BUTT \<and>
                            (t \<in> {LEDA_TYPE_TEXT, LEDA_TYPE_DATE} \<longrightarrow> valuestring v \<noteq> None) \<and>
                            (t \<in> {LEDA_TYPE_STRUCT, LEDA_TYPE_ARRAY} \<longrightarrow> printable v))))))"

text \<open>Every text is inside its field.\<close>

definition in_fields :: "leda_device_data \<Rightarrow> bool" where
  "in_fields d \<longleftrightarrow> (case dkey d of None \<Rightarrow> True | Some k \<Rightarrow> length k < MAX_PARAM_NAME_LENGTH) \<and>
     (case dvalue d of None \<Rightarrow> True | Some v \<Rightarrow> length v < MAX_PARAM_VALUE_LENGTH)"

lemma snprintf_fields [simp]:
  "length (snprintf_s MAX_PARAM_NAME_LENGTH s) < MAX_PARAM_NAME_LENGTH"
  "length (snprintf_s MAX_PARAM_VALUE_LENGTH s) < MAX_PARAM_VALUE_LENGTH"
  by (rule snprintf_s_length, simp add: MAX_PARAM_NAME_LENGTH_def MAX_PARAM_VALUE_LENGTH_def)+

lemma known_types:
  assumes "type_string_to_number ty = Some t"
  shows "t \<in> {LEDA_TYPE_INT, LEDA_TYPE_BOOL, LEDA_TYPE_ENUM, LEDA_TYPE_FLOAT, LEDA_TYPE_DOUBLE, LEDA_TYPE_STRUCT,
    LEDA_TYPE_ARRAY, LEDA_TYPE_TEXT, LEDA_TYPE_DATE, LEDA_TYPE_BUTT}"
  using assms by (auto simp: type_string_to_number_def split: bind_splits if_splits)

lemma read_value_safe:
  assumes "type_string_to_number ty = Some t" "t \<noteq> LEDA_TYPE_BUTT"
    and "t \<in> {LEDA_TYPE_TEXT, LEDA_TYPE_DATE} \<Longrightarrow> valuestring v \<noteq> None"
    and "t \<in> {LEDA_TYPE_STRUCT, LEDA_TYPE_ARRAY} \<Longrightarrow> printable v"
  shows "\<exists>r m'. read_value t v m = Some (r, m') \<and> live m' = live m \<and>
     (case r of Inl e \<Rightarrow> e = LE_ERROR_ALLOCATING_MEM | Inr s \<Rightarrow> length s < MAX_PARAM_VALUE_LENGTH)"
proof -
  consider (n) "t \<in> {LEDA_TYPE_INT, LEDA_TYPE_BOOL, LEDA_TYPE_ENUM}" | (d) "t \<in> {LEDA_TYPE_FLOAT, LEDA_TYPE_DOUBLE}"
    | (s) "t \<in> {LEDA_TYPE_TEXT, LEDA_TYPE_DATE}" | (j) "t \<in> {LEDA_TYPE_STRUCT, LEDA_TYPE_ARRAY}"
    using known_types [OF assms(1)] assms(2) by blast
  then show ?thesis
  proof cases
    case n
    then show ?thesis by (simp add: read_value_def)
  next
    case d
    then show ?thesis by (auto simp: read_value_def leda_type_defs)
  next
    case s
    then show ?thesis using assms(3) by (auto simp: read_value_def leda_type_defs)
  next
    case j
    from print_json_outcome [OF assms(4) [OF j], of True False m] obtain r m' where
      r: "print_json True (Some v) False m = Some (r, m')" "live m' = live m + (case r of None \<Rightarrow> 0 | Some _ \<Rightarrow> 1)" by auto
    show ?thesis using r j by (cases r) (auto simp: read_value_def cJSON_PrintUnformatted_def leda_type_defs)
  qed
qed

lemma read_entry_safe:
  assumes "entry_fits e"
  shows "\<exists>r m'. read_entry e m = Some (r, m') \<and> live m' = live m \<and>
     (case r of Inl c \<Rightarrow> c \<noteq> LE_SUCCESS | Inr d \<Rightarrow> in_fields d)"
proof (cases "ctype e = cJSON_String")
  case True
  then show ?thesis using assms by (auto simp: entry_fits_def read_entry_def in_fields_def unset_def)
next
  case elem: False
  show ?thesis
  proof (cases "cJSON_GetObjectItem (Some e) (Some ''identifier'')")
    case None
    then show ?thesis using elem by (simp add: read_entry_def le_error_defs)
  next
    case (Some idn)
    then obtain k where k: "valuestring idn = Some k" using assms elem by (auto simp: entry_fits_def)
    show ?thesis
    proof (cases "cJSON_GetObjectItem (Some e) (Some ''type'')")
      case None
      then show ?thesis using elem Some k by (simp add: read_entry_def le_error_defs)
    next
      case ty: (Some ty)
      show ?thesis
      proof (cases "ctype ty = cJSON_String")
        case False
        then show ?thesis using elem Some k ty by (simp add: read_entry_def le_error_defs)
      next
        case True
        then obtain t where t: "type_string_to_number (valuestring ty) = Some t"
          using assms elem Some ty by (auto simp: entry_fits_def split: option.splits)
        show ?thesis
        proof (cases "cJSON_GetObjectItem (Some e) (Some ''value'')")
          case None
          then show ?thesis using elem Some k ty True t by (simp add: read_entry_def le_error_defs)
        next
          case v: (Some v)
          have "t \<noteq> LEDA_TYPE_BUTT" "t \<in> {LEDA_TYPE_TEXT, LEDA_TYPE_DATE} \<Longrightarrow> valuestring v \<noteq> None"
            "t \<in> {LEDA_TYPE_STRUCT, LEDA_TYPE_ARRAY} \<Longrightarrow> printable v"
            using assms elem Some k ty True t v by (simp_all add: entry_fits_def)
          from read_value_safe [OF t this, of m] obtain r m' where "read_value t v m = Some (r, m')" "live m' = live m"
            "case r of Inl e \<Rightarrow> e = LE_ERROR_ALLOCATING_MEM | Inr s \<Rightarrow> length s < MAX_PARAM_VALUE_LENGTH" by blast
          then show ?thesis using elem Some k ty True t v
            by (cases r) (simp_all add: read_entry_def in_fields_def le_error_defs)
        qed
      qed
    qed
  qed
qed

lemma read_entries_safe:
  assumes "list_all entry_fits es"
  shows "\<exists>r m'. read_entries (length es) es m = Some (r, m') \<and> live m' = live m \<and>
     (case r of Inl c \<Rightarrow> c \<noteq> LE_SUCCESS | Inr ds \<Rightarrow> length ds = length es \<and> list_all in_fields ds)"
  using assms
proof (induction es arbitrary: m)
  case (Cons e es)
  obtain r m1 where 1: "read_entry e m = Some (r, m1)" "live m1 = live m" "case r of Inl c \<Rightarrow> c \<noteq> LE_SUCCESS | Inr d \<Rightarrow> in_fields d"
    using read_entry_safe [of e m] Cons.prems by auto
  obtain rs m2 where "read_entries (length es) es m1 = Some (rs, m2)" "live m2 = live m1"
    "case rs of Inl c \<Rightarrow> c \<noteq> LE_SUCCESS | Inr ds \<Rightarrow> length ds = length es \<and> list_all in_fields ds"
    using Cons.IH [of m1] Cons.prems by auto
  then show ?case using 1 by (cases r; cases rs) simp_all
qed simp

lemma json_to_struct_safe:
  assumes "list_all entry_fits (child a)" "length (child a) < 2 ^ 31"
  shows "\<exists>rc data cnt m'. json_data_to_struct_data (Some a) m = Some (rc, data, cnt, m') \<and> cnt = int (length (child a)) \<and>
     (case data of
        None \<Rightarrow> live m' = live m \<and> (rc = LE_SUCCESS \<longleftrightarrow> child a = [])
      | Some ds \<Rightarrow> rc = LE_SUCCESS \<and> live m' = live m + 1 \<and> length ds = length (child a) \<and> list_all in_fields ds)"
proof (cases "child a = []")
  case True
  then show ?thesis by (simp add: json_data_to_struct_data_def cJSON_GetArraySize_def)
next
  case False
  have size: "cJSON_GetArraySize (Some a) = int (length (child a))" using array_size [OF assms(2)] .
  show ?thesis
  proof (cases rule: malloc_split [of m])
    case (2 m1)
    then show ?thesis using False by (simp add: json_data_to_struct_data_def size le_error_defs)
  next
    case (1 m1)
    obtain r m2 where "read_entries (length (child a)) (child a) m1 = Some (r, m2)" "live m2 = live m1"
      "case r of Inl c \<Rightarrow> c \<noteq> LE_SUCCESS | Inr ds \<Rightarrow> length ds = length (child a) \<and> list_all in_fields ds"
      using read_entries_safe [OF assms(1), of m1] by blast
    then show ?thesis using False 1 by (cases r) (simp_all add: json_data_to_struct_data_def size)
  qed
qed

subsection \<open>Properties\<close>

text \<open>C14: Device data survives the connection: for every list of entries whose values are well formed for their
  types, \<open>struct_data_to_json_data\<close> makes a JSON document, in blocks of its own, and after that document was
  printed and the text was parsed again \<open>json_data_to_struct_data\<close> returns exactly these entries, in one block.\<close>

theorem device_data_roundtrip:
  assumes "list_all sendable ds" "length ds < 2 ^ 31" "reliable m" "reliable m2"
  shows "\<exists>arr t m1 m3. struct_data_to_json_data ds (int (length ds)) m = Some (Some arr, m1) \<and>
     live (cJSON_Delete (Some arr) m1) = live m \<and>
     render False 0 arr = Some t \<and> parsed t = Some arr \<and>
     json_data_to_struct_data (parsed t) m2 = Some (LE_SUCCESS, if ds = [] then None else Some ds, int (length ds), m3) \<and>
     live m3 = live m2 + (if ds = [] then 0 else 1)"
proof -
  obtain its m1 where w: "struct_data_to_json_data ds (int (length ds)) m = Some (Some (Item cJSON_Array None 0 zero_double None its), m1)"
    "list_all2 entry_item ds its" "live m1 = live m + blocks (Item cJSON_Array None 0 zero_double None its)"
    using to_json_ok [OF assms(1,3)] by blast
  define arr where "arr = Item cJSON_Array None 0 zero_double None its"
  have doc: "json_document arr" using array_document [OF w(2)] by (simp add: arr_def)
  obtain t where t: "render False 0 arr = Some t" using json.enc_total [OF doc] by blast
  have p: "parsed t = Some arr" by (rule json.dec_enc [OF doc t])
  have "child arr = its" by (simp add: arr_def)
  from to_struct_ok [OF w(2) assms(2,4) this] p
  obtain m3 where "json_data_to_struct_data (parsed t) m2 = Some (LE_SUCCESS, if ds = [] then None else Some ds, int (length ds), m3)"
    "live m3 = live m2 + (if ds = [] then 0 else 1)" by auto
  moreover have "live (cJSON_Delete (Some arr) m1) = live m" using w(3) by (simp add: arr_def cJSON_Delete_def)
  ultimately show ?thesis using w(1) t p unfolding arr_def by blast
qed

definition temperature :: leda_device_data where
  "temperature = \<lparr>dtype = Some LEDA_TYPE_INT, dkey = Some ''temperature'', dvalue = Some ''21''\<rparr>"

definition status_text :: leda_device_data where
  "status_text = \<lparr>dtype = Some LEDA_TYPE_TEXT, dkey = Some ''status'', dvalue = Some ''on''\<rparr>"

definition humidity :: leda_device_data where
  "humidity = \<lparr>dtype = Some LEDA_TYPE_DOUBLE, dkey = Some ''humidity'', dvalue = Some ''48.500000''\<rparr>"

lemma sendable_humidity: "sendable humidity"
proof -
  have "six_decimals False 48500000 = ''48.500000''" by (simp add: six_decimals_def dec.simps digit_def)
  then have "value_ok LEDA_TYPE_DOUBLE ''48.500000''" using decimal_value_ok [of 48500000 LEDA_TYPE_DOUBLE False] by simp
  then show ?thesis by (simp add: humidity_def MAX_PARAM_NAME_LENGTH_def)
qed

lemma sendable_examples: "list_all sendable [temperature, status_text]"
proof -
  have "print_int 21 = ''21''" by (simp add: print_int_def dec.simps digit_def)
  moreover from atoi_print_int [of 21] this have "atoi ''21'' = 21" by (simp add: int_range_def)
  ultimately show ?thesis
    by (simp add: temperature_def status_text_def value_ok_def leda_type_defs MAX_PARAM_NAME_LENGTH_def MAX_PARAM_VALUE_LENGTH_def)
qed

lemma device_data_roundtrip_witness:
  "\<exists>arr t m1 m3. struct_data_to_json_data [temperature, humidity, status_text] 3 always = Some (Some arr, m1) \<and> parsed t = Some arr \<and>
     json_data_to_struct_data (parsed t) always = Some (LE_SUCCESS, Some [temperature, humidity, status_text], 3, m3)"
proof -
  have "length [temperature, humidity, status_text] < 2 ^ 31" "list_all sendable [temperature, humidity, status_text]"
    using sendable_examples sendable_humidity by simp_all
  note rt = device_data_roundtrip [OF this(2,1) reliable_always reliable_always]
  have "int (length [temperature, humidity, status_text]) = 3" "[temperature, humidity, status_text] \<noteq> []" by simp_all
  then show ?thesis using rt by (simp only: if_False) blast
qed

text \<open>C33: For every array (of any size below 2 ^ 31) whose elements fit, \<open>json_data_to_struct_data\<close> is defined whatever
  the allocator does: either it fails, with an error code and nothing left allocated, or it returns one block with
  one entry for every element, and no text in it is longer than its field.\<close>

theorem device_data_in_fields:
  assumes "list_all entry_fits (child a)" "length (child a) < 2 ^ 31"
  shows "\<exists>rc data cnt m'. json_data_to_struct_data (Some a) m = Some (rc, data, cnt, m') \<and> cnt = int (length (child a)) \<and>
     (case data of
        None \<Rightarrow> live m' = live m \<and> (rc = LE_SUCCESS \<longleftrightarrow> child a = [])
      | Some ds \<Rightarrow> rc = LE_SUCCESS \<and> live m' = live m + 1 \<and> length ds = length (child a) \<and> list_all in_fields ds)"
  by (rule json_to_struct_safe [OF assms])

definition names_only :: cJSON where
  "names_only = Item cJSON_Array None 0 zero_double None [text_item ''temperature'', text_item ''status'']"

lemma device_data_in_fields_witness:
  "\<exists>rc data m'. json_data_to_struct_data (Some names_only) never = Some (rc, data, 2, m') \<and> (data = None \<longrightarrow> rc \<noteq> LE_SUCCESS)"
proof -
  have c: "child names_only = [text_item ''temperature'', text_item ''status'']" by (simp add: names_only_def)
  have "list_all entry_fits (child names_only)" "length (child names_only) < 2 ^ 31" by (simp_all add: c entry_fits_def)
  from device_data_in_fields [OF this, of never] show ?thesis by (fastforce simp: c split: option.splits)
qed

text \<open>An unknown data type is not rejected: an element with an identifier, a type that is none of the nine names
  and a value makes \<open>json_data_to_struct_data\<close> (whatever follows) hand the number of the type to \<open>%s\<close> in its warning,
  which is undefined: it reads a string at address 9.\<close>

theorem unknown_type_undefined:
  assumes "child a = e # es" "length (child a) < 2 ^ 31" "reliable m" "ctype e = cJSON_Object"
    and "cJSON_GetObjectItem (Some e) (Some ''identifier'') = Some idn" "valuestring idn = Some k"
    and "cJSON_GetObjectItem (Some e) (Some ''type'') = Some ty" "ctype ty = cJSON_String" "valuestring ty = Some nm"
    and "nm \<notin> {''int'', ''bool'', ''float'', ''text'', ''date'', ''enum'', ''struct'', ''array'', ''double''}"
    and "cJSON_GetObjectItem (Some e) (Some ''value'') = Some v"
  shows "json_data_to_struct_data (Some a) m = None"
proof -
  have "type_string_to_number (Some nm) = Some LEDA_TYPE_BUTT" using assms(10) by (simp add: type_string_to_number_def)
  moreover have "read_value LEDA_TYPE_BUTT v m1 = None" for m1 by (simp add: read_value_def leda_type_defs)
  ultimately have "read_entry e m1 = None" for m1
    using assms(4-9,11) by (simp add: read_entry_def cjson_type_defs)
  moreover have "cJSON_GetArraySize (Some a) = int (Suc (length es))" using array_size [OF assms(2)] assms(1) by simp
  moreover obtain m1 where "malloc m = (True, m1)" using malloc_split [of m] assms(3) by metis
  ultimately show ?thesis using assms(1) by (simp add: json_data_to_struct_data_def nat_add_distrib)
qed

definition colour_item :: cJSON where
  "colour_item = Item cJSON_Object None 0 zero_double None
     [set_jstring (Some ''identifier'') (text_item ''c''), set_jstring (Some ''type'') (text_item ''colour''),
      set_jstring (Some ''value'') (text_item ''red'')]"

lemma unknown_type_undefined_witness:
  "json_data_to_struct_data (Some (Item cJSON_Array None 0 zero_double None [colour_item])) always = None"
proof -
  have names: "eq_nocase (Some ''identifier'') (Some ''identifier'')" "eq_nocase (Some ''type'') (Some ''type'')"
    "\<not> eq_nocase (Some ''type'') (Some ''identifier'')" "eq_nocase (Some ''value'') (Some ''value'')"
    "\<not> eq_nocase (Some ''value'') (Some ''identifier'')" "\<not> eq_nocase (Some ''value'') (Some ''type'')"
    by (simp_all add: same_name_def lower_def)
  show ?thesis
    by (rule unknown_type_undefined [where e = colour_item and es = "[]" and k = "''c''" and nm = "''colour''" and
          idn = "set_jstring (Some ''identifier'') (text_item ''c'')" and ty = "set_jstring (Some ''type'') (text_item ''colour'')" and
          v = "set_jstring (Some ''value'') (text_item ''red'')"])
      (simp_all add: colour_item_def cJSON_GetObjectItem_find names del: eq_nocase_Some)
qed

text \<open>When the value of a struct or an array is no JSON text, \<open>struct_data_to_json_data\<close> gives up and deletes the
  array, but the object of the entry it was working on is not in the array yet: its seven blocks are leaked.\<close>

theorem bad_value_leaks_entry:
  assumes "reliable m" "t \<in> {LEDA_TYPE_STRUCT, LEDA_TYPE_ARRAY}" "is_cstr v"
    and "\<And>m. reliable m \<Longrightarrow> \<exists>m'. cJSON_Parse (Some v) m = Some (None, m')"
  shows "\<exists>m'. struct_data_to_json_data [\<lparr>dtype = Some t, dkey = Some k, dvalue = Some v\<rparr>] 1 m = Some (None, m') \<and> live m' = live m + 7"
proof -
  define arr where "arr = Item cJSON_Array None 0 zero_double None []"
  obtain m0 where new: "cJSON_New_Item m = (Some blank, m0)" "live m0 = live m + 1" "reliable m0"
    using New_Item_cases [of m] assms(1) by metis
  then have 0: "cJSON_CreateArray m = (Some arr, m0)" by (simp add: create_defs create_type_def arr_def blank_def)
  obtain m1 where 1: "cJSON_CreateObject m0 = (Some empty_object, m1)" "reliable m1" "live m1 = live m0 + blocks empty_object"
    using create_object_ok [OF new(3)] .
  have r0: "\<not> is_ref empty_object" by (simp add: empty_object_def cjson_type_defs)
  define ob1 where "ob1 = with_member ''identifier'' (text_item k) empty_object"
  obtain m2 where 2: "cJSON_AddStringToObject (Some empty_object) (Some ''identifier'') (Some k) m1 =
      (Some (keyed ''identifier'' (text_item k)), Some ob1, m2)" "reliable m2" "live m2 - blocks ob1 = live m1 - blocks empty_object" "\<not> is_ref ob1"
    using add_text_ok [OF 1(2) r0] unfolding ob1_def by blast
  define ty ob2 where "ty = text_item (type_number_to_string t)" and "ob2 = with_member ''type'' ty ob1"
  obtain m3 where 3: "cJSON_AddStringToObject (Some ob1) (Some ''type'') (Some (type_number_to_string t)) m2 =
      (Some (keyed ''type'' ty), Some ob2, m3)" "reliable m3" "live m3 - blocks ob2 = live m2 - blocks ob1"
    using add_text_ok [OF 2(2,4)] unfolding ty_def ob2_def by blast
  obtain m4 where 4: "cJSON_Parse (Some v) m3 = Some (None, m4)" using assms(4) [OF 3(2)] by blast
  then have live4: "live m4 = live m3"
    using parse_safe_lemma [of "Some v" False m3] assms(3) by (auto simp: cJSON_Parse_def cJSON_Delete_def split: bind_splits)
  have "blocks (text_item s) = 2" for s by (simp add: text_item_def cjson_type_defs)
  moreover have "jstring (text_item s) = None" for s by simp
  ultimately have b: "int (blocks (keyed nm (text_item s))) = 3" for nm s using blocks_keyed [of nm "text_item s"] by simp
  have "int (blocks ob2) = 7"
    using blocks_with_member [OF r0, of "''identifier''" "text_item k"] blocks_with_member [OF 2(4), of "''type''" ty]
      b [of "''identifier''" k] b [of "''type''" "type_number_to_string t"]
    by (simp add: ob1_def ob2_def ty_def empty_object_def cjson_type_defs)
  moreover have "blocks empty_object = 1" "blocks arr = 1" by (simp_all add: empty_object_def arr_def cjson_type_defs)
  moreover have "write_value t (Some v) (Some ob2) m3 = Some (False, Some ob2, m4)"
    using assms(2) 4 by (auto simp: write_value_def leda_type_defs)
  then have "struct_data_to_json_data [\<lparr>dtype = Some t, dkey = Some k, dvalue = Some v\<rparr>] 1 m = Some (None, cJSON_Delete (Some arr) m4)"
    using 0 1(1) 2(1) 3(1) by (simp add: struct_data_to_json_data_def)
  ultimately show ?thesis using new(2) 1(3) 2(3) 3(3) live4 by (simp add: cJSON_Delete_def)
qed

lemma parse_nothing:
  assumes "reliable m"
  shows "\<exists>m'. cJSON_Parse (Some []) m = Some (None, m')"
proof (cases rule: New_Item_cases [of m])
  case (2 m1)
  then show ?thesis
    by (simp add: cJSON_Parse_def cJSON_ParseWithOpts_def skip_utf8_bom_def buffer_skip_whitespace_def parse_fuel_def
        can_access_at_index_def can_read_def literal_at_def looking_at_def char_at_def rd_def is_digit_def Let_def numeral_3_eq_3 cjson_type_defs)
qed (use assms in simp)

lemma bad_value_leaks_entry_witness:
  "\<exists>m'. struct_data_to_json_data [\<lparr>dtype = Some LEDA_TYPE_STRUCT, dkey = Some ''position'', dvalue = Some []\<rparr>] 1 always = Some (None, m') \<and>
     live m' = 7"
  using bad_value_leaks_entry [OF reliable_always _ _ parse_nothing, of LEDA_TYPE_STRUCT] by (simp add: always_def)

end
