(* ===== verification/Ring.thy ===== *)
theory Ring
  imports CPrelude
begin

text \<open>
  Circular arrays: the list of entries that a read index, a count and an array stand for,
  and how the list changes when an entry is stored behind the last one or the first one is
  given up. The contract \<open>bounded_fifo\<close> is what the users of the two queues of the SDK
  (the thread pool's task queue and the outgoing message buffer) rely on; both components
  interpret it on their own operations.
\<close>

subsection \<open>The entries of a ring\<close>

definition ring_list :: "'a list \<Rightarrow> nat \<Rightarrow> nat \<Rightarrow> 'a list" where
  "ring_list xs h k = map (\<lambda>i. xs ! ((h + i) mod length xs)) [0..<k]"

lemma length_ring_list [simp]: "length (ring_list xs h k) = k"
  by (simp add: ring_list_def)

lemma ring_list_0 [simp]: "ring_list xs h 0 = []"
  by (simp add: ring_list_def)

lemma ring_list_nth [simp]: "i < k \<Longrightarrow> ring_list xs h k ! i = xs ! ((h + i) mod length xs)"
  by (simp add: ring_list_def)

lemma ring_list_mod [simp]: "ring_list xs (h mod length xs) k = ring_list xs h k"
  by (simp add: ring_list_def mod_add_left_eq)

lemma ring_mod_inj:
  fixes n :: nat
  assumes "(h + i) mod n = (h + j) mod n" "i < n" "j < n"
  shows "i = j"
proof -
  have less: "i' = j'" if "(h + i') mod n = (h + j') mod n" "i' \<le> j'" "j' < n" for i' j'
  proof -
    have "n dvd (h + j') - (h + i')"
      using that by (intro mod_eq_dvd_iff_nat [THEN iffD1]) simp_all
    then show ?thesis using that(2,3) by (auto dest: dvd_imp_le)
  qed
  show ?thesis
    using less [of i j] less [of j i] assms by (cases "i \<le> j") auto
qed

lemma ring_nth_update:
  assumes "i < length xs" "j < length xs"
  shows "xs[(h + j) mod length xs := x] ! ((h + i) mod length xs) =
           (if i = j then x else xs ! ((h + i) mod length xs))"
proof -
  have "(h + j) mod length xs < length xs" using assms by (intro mod_less_divisor) linarith
  then show ?thesis
    using ring_mod_inj [of h i "length xs" j] assms by (auto simp: nth_list_update)
qed

lemma ring_mod_shift: "(Suc (h mod n) + i) mod n = (h + Suc i) mod n" for n :: nat
  by (metis add_Suc_right add_Suc_shift mod_add_left_eq)

lemma ring_mod_last: "0 < n \<Longrightarrow> (h + Suc (n - 1)) mod n = h mod n" for n :: nat
  by simp

lemma ring_list_enq [ring_simps]:
  assumes "k < length xs"
  shows "ring_list (xs[(h + k) mod length xs := x]) h (Suc k) = ring_list xs h k @ [x]"
proof (rule nth_equalityI)
  fix i assume "i < length (ring_list (xs[(h + k) mod length xs := x]) h (Suc k))"
  then have i: "i < Suc k" by simp
  have pos: "(h + k) mod length xs < length xs" using assms by (intro mod_less_divisor) linarith
  show "ring_list (xs[(h + k) mod length xs := x]) h (Suc k) ! i = (ring_list xs h k @ [x]) ! i"
  proof (cases "i = k")
    case True
    then show ?thesis using pos by (simp add: nth_append)
  next
    case False
    with i have "i < k" by simp
    moreover have "(h + i) mod length xs \<noteq> (h + k) mod length xs"
      using ring_mod_inj [of h i "length xs" k] \<open>i < k\<close> assms by auto
    ultimately show ?thesis using i by (simp add: nth_append)
  qed
qed simp

lemma ring_list_deq [ring_simps]:
  "0 < k \<Longrightarrow> ring_list xs h k = xs ! (h mod length xs) # ring_list xs (Suc h) (k - 1)"
  by (cases k) (simp_all add: ring_list_def map_upt_Suc del: upt_Suc)

lemma ring_list_outside:
  assumes "\<And>i. i < k \<Longrightarrow> (h + i) mod length xs \<noteq> j"
  shows "ring_list (xs[j := x]) h k = ring_list xs h k"
proof (rule nth_equalityI)
  fix i assume "i < length (ring_list (xs[j := x]) h k)"
  then have "i < k" by simp
  then show "ring_list (xs[j := x]) h k ! i = ring_list xs h k ! i"
    using assms [of i] by (simp add: nth_list_update_neq [OF not_sym])
qed simp

subsection \<open>The contract of a bounded queue\<close>

text \<open>
  A schedule of queue operations, run against an implementation: \<open>drive\<close> collects what
  the dequeue steps hand out, where an attempt on an empty queue hands out nothing.
\<close>

datatype 'a qop = Enq 'a | Deq

fun drive :: "('a \<Rightarrow> 's \<Rightarrow> 's) \<Rightarrow> ('s \<Rightarrow> 'a option \<times> 's) \<Rightarrow> 's \<Rightarrow> 'a qop list \<Rightarrow> 'a list \<times> 's" where
  "drive enq deq s [] = ([], s)"
| "drive enq deq s (Enq x # ops) = drive enq deq (enq x s) ops"
| "drive enq deq s (Deq # ops) =
     (let (x, s1) = deq s; (out, s') = drive enq deq s1 ops
      in ((case x of None \<Rightarrow> out | Some y \<Rightarrow> y # out), s'))"

fun inputs :: "'a qop list \<Rightarrow> 'a list" where
  "inputs [] = []"
| "inputs (Enq x # ops) = x # inputs ops"
| "inputs (Deq # ops) = inputs ops"

text \<open>
  A schedule fits a queue of \<open>c\<close> places that holds \<open>n\<close> entries when it stores only
  admissible entries and never one too many.
\<close>

fun fits :: "('a \<Rightarrow> bool) \<Rightarrow> nat \<Rightarrow> nat \<Rightarrow> 'a qop list \<Rightarrow> bool" where
  "fits ok c n [] = True"
| "fits ok c n (Enq x # ops) = (ok x \<and> n < c \<and> fits ok c (Suc n) ops)"
| "fits ok c n (Deq # ops) = fits ok c (n - 1) ops"

locale bounded_fifo =
  fixes invar :: "'s \<Rightarrow> bool"
    and q :: "'s \<Rightarrow> 'a list"
    and cap :: "'s \<Rightarrow> nat"
    and ok :: "'a \<Rightarrow> bool"
    and enq :: "'a \<Rightarrow> 's \<Rightarrow> 's"
    and deq :: "'s \<Rightarrow> 'a option \<times> 's"
  assumes enq_room: "invar s \<Longrightarrow> ok x \<Longrightarrow> length (q s) < cap s \<Longrightarrow>
      invar (enq x s) \<and> q (enq x s) = q s @ [x] \<and> cap (enq x s) = cap s"
    and deq_out: "invar s \<Longrightarrow> fst (deq s) = (case q s of [] \<Rightarrow> None | x # _ \<Rightarrow> Some x)"
    and deq_state: "invar s \<Longrightarrow>
      invar (snd (deq s)) \<and> q (snd (deq s)) = tl (q s) \<and> cap (snd (deq s)) = cap s"
begin

lemma drive_fifo:
  assumes "invar s" "fits ok (cap s) (length (q s)) ops" "drive enq deq s ops = (out, s')"
  shows "out @ q s' = q s @ inputs ops \<and> invar s' \<and> cap s' = cap s"
  using assms
proof (induction ops arbitrary: s out)
  case Nil
  then show ?case by simp
next
  case (Cons op ops)
  show ?case
  proof (cases op)
    case (Enq x)
    then show ?thesis
      using Cons.IH [of "enq x s" out] Cons.prems enq_room [of s x] by auto
  next
    case Deq
    obtain x s1 where d: "deq s = (x, s1)" by (cases "deq s")
    obtain out1 where run: "drive enq deq s1 ops = (out1, s')"
        and out: "out = (case x of None \<Rightarrow> out1 | Some y \<Rightarrow> y # out1)"
      using Deq d Cons.prems(3) by (auto split: prod.splits)
    have s1: "invar s1" "q s1 = tl (q s)" "cap s1 = cap s" "x = (case q s of [] \<Rightarrow> None | x # _ \<Rightarrow> Some x)"
      using deq_state [OF Cons.prems(1)] deq_out [OF Cons.prems(1)] d by simp_all
    have "out1 @ q s' = tl (q s) @ inputs ops \<and> invar s' \<and> cap s' = cap s"
      using Cons.IH [OF s1(1) _ run] Cons.prems(2) Deq s1(2,3) by simp
    then show ?thesis
      using out s1(4) Deq by (auto split: list.splits)
  qed
qed

end

end
