(* ===== verification/Ws_Buffer.thy ===== *)
theory Ws_Buffer
  imports Ring
begin

text \<open>
  The outgoing message buffer, \<open>sdk/utility/ali_ws/wsc_buffer_mgmt.c\<close>: a ring of
  \<open>max_buf_cnt\<close> slots between the threads that send (\<open>client_buf_mgmt_push\<close>) and the
  network thread that writes to the socket (\<open>client_buf_mgmt_pop\<close>). Every operation runs
  under the one mutex of the module, so it is one step. A slot is in use while its
  \<open>buf_len\<close> is not 0; the payload lies \<open>LWS_PRE\<close> bytes into its block, a constant of
  libwebsockets that is the parameter \<open>lws_pre\<close> here.
\<close>

subsection \<open>State\<close>

record msg_buf_status =
  rd_index :: int
  wr_index :: int
  single_buf_size :: int
  max_buf_cnt :: int

record msg_buf_item =
  buf :: "string option"
  buf_len :: size_t
  mtype :: int

record wsbuf =
  g_ws_buf_state :: msg_buf_status
  g_ws_buf :: "msg_buf_item list option"

definition zero_status :: msg_buf_status where
  "zero_status = \<lparr>rd_index = 0, wr_index = 0, single_buf_size = 0, max_buf_cnt = 0\<rparr>"

definition zero_item :: msg_buf_item where
  "zero_item = \<lparr>buf = None, buf_len = 0, mtype = 0\<rparr>"

text \<open>The module's static data before \<open>client_buf_mgmt_init\<close>.\<close>

definition wsbuf0 :: wsbuf where
  "wsbuf0 = \<lparr>g_ws_buf_state = zero_status, g_ws_buf = None\<rparr>"

definition MAX_MSG_BUF_COUNT :: nat where
  "MAX_MSG_BUF_COUNT = 8"

subsection \<open>Operations\<close>

text \<open>The loop that allocates the slots' blocks, from slot \<open>i\<close> on, \<open>k\<close> of them left.\<close>

fun alloc_slots :: "nat \<Rightarrow> nat \<Rightarrow> nat \<Rightarrow> msg_buf_item list \<Rightarrow> mem \<Rightarrow> bool \<times> msg_buf_item list \<times> mem" where
  "alloc_slots sz i 0 items m = (True, items, m)"
| "alloc_slots sz i (Suc k) items m =
     (let (ok, m') = malloc m in
      if ok then alloc_slots sz (Suc i) k (items[i := (items ! i)\<lparr>buf := Some (replicate sz NUL)\<rparr>]) m'
      else (False, items, m'))"

text \<open>The \<open>_failed\<close> loop frees the slots in front of the first one without a block.\<close>

fun free_slots :: "msg_buf_item list \<Rightarrow> mem \<Rightarrow> mem" where
  "free_slots [] m = m"
| "free_slots (it # items) m =
     (case buf it of Some _ \<Rightarrow> free_slots items (c_free 1 m) | None \<Rightarrow> m)"

definition client_buf_mgmt_init :: "int \<Rightarrow> nat \<Rightarrow> nat \<Rightarrow> wsbuf \<Rightarrow> mem \<Rightarrow> int \<times> wsbuf \<times> mem" where
  \<comment> \<open>\<open>mutex_ret\<close> is what \<open>pthread_mutex_init\<close> returns\<close>
  "client_buf_mgmt_init mutex_ret single cnt s m =
     (let s0 = s\<lparr>g_ws_buf_state := zero_status\<rparr> in
      if mutex_ret \<noteq> 0 then (LE_ERROR_CREATING_MUTEX, s0, m)
      else
        (let st = zero_status\<lparr>single_buf_size := int single, max_buf_cnt := int cnt\<rparr>;
             (ok, m1) = malloc m in
         if \<not> ok then (LE_ERROR_ALLOCATING_MEM, \<lparr>g_ws_buf_state = st, g_ws_buf = None\<rparr>, m1)
         else
           (let (filled, items, m2) = alloc_slots single 0 cnt (replicate cnt zero_item) m1 in
            if filled then (LE_SUCCESS, \<lparr>g_ws_buf_state = st, g_ws_buf = Some items\<rparr>, m2)
            else (LE_ERROR_ALLOCATING_MEM, \<lparr>g_ws_buf_state = st, g_ws_buf = None\<rparr>,
                  c_free 1 (free_slots items m2)))))"

text \<open>
  Storing a message in the slot chosen: clear the bytes of the old message, copy the new one
  behind the \<open>lws_pre\<close> reserved bytes, terminate it. \<open>len\<close> already counts the terminator.
\<close>

definition store_msg :: "nat \<Rightarrow> string \<Rightarrow> size_t \<Rightarrow> int \<Rightarrow> msg_buf_item \<Rightarrow> msg_buf_item option" where
  "store_msg lws_pre src len msg_type it =
     do { b \<leftarrow> buf it;
          b1 \<leftarrow> blit 0 (replicate (unat (buf_len it)) NUL) b;
          _ \<leftarrow> (if unat (len - 1) \<le> length src then Some () else None);
          b2 \<leftarrow> blit lws_pre (take (unat (len - 1)) src) b1;
          b3 \<leftarrow> blit (lws_pre + unat (len - 1)) [NUL] b2;
          Some (it\<lparr>buf := Some b3, buf_len := len, mtype := msg_type\<rparr>) }"

definition client_buf_mgmt_push ::
    "nat \<Rightarrow> string option \<Rightarrow> size_t \<Rightarrow> int \<Rightarrow> wsbuf \<Rightarrow> mem \<Rightarrow> (int \<times> bool \<times> wsbuf \<times> mem) option" where
  \<comment> \<open>result: return code, whether the network thread was notified, the new state\<close>
  "client_buf_mgmt_push lws_pre msg len msg_type s m =
     (case (msg, g_ws_buf s) of
        (Some src, Some items) \<Rightarrow>
          (let st0 = g_ws_buf_state s;
               (st, windex) = (if max_buf_cnt st0 \<le> wr_index st0 then (st0\<lparr>wr_index := 0\<rparr>, 0)
                               else (st0, wr_index st0));
               len' = len + 1 in
           do { it \<leftarrow> rd items (nat windex);
                if size_of_int (single_buf_size st - int lws_pre) < len' then
                  (let (ok, m') = c_realloc m in
                   if \<not> ok then Some (LE_ERROR_ALLOCATING_MEM, False, s\<lparr>g_ws_buf_state := st\<rparr>, m')
                   else do { it' \<leftarrow> store_msg lws_pre src len' msg_type
                                     (it\<lparr>buf := Some (replicate (unat (len' + of_nat lws_pre)) NUL)\<rparr>);
                             Some (LE_SUCCESS, True,
                                   \<lparr>g_ws_buf_state = st\<lparr>wr_index := wr_index st + 1\<rparr>,
                                    g_ws_buf = Some (items[nat windex := it'])\<rparr>, m') })
                else do { it' \<leftarrow> store_msg lws_pre src len' msg_type it;
                          Some (LE_SUCCESS, True,
                                \<lparr>g_ws_buf_state = st\<lparr>wr_index := wr_index st + 1\<rparr>,
                                 g_ws_buf = Some (items[nat windex := it'])\<rparr>, m) } })
      | _ \<Rightarrow> Some (LE_ERROR_INVAILD_PARAM, False, s, m))"

text \<open>
  \<open>cb\<close> writes the payload to the socket and returns an \<open>int\<close>; the comparison
  \<open>ret < buf_len\<close> converts it to \<open>size_t\<close>.
\<close>

definition client_buf_mgmt_pop ::
    "nat \<Rightarrow> (string \<Rightarrow> size_t \<Rightarrow> int \<Rightarrow> int) \<Rightarrow> wsbuf \<Rightarrow> (int \<times> (string \<times> int) option \<times> bool \<times> wsbuf) option" where
  \<comment> \<open>result: return code, the message handed to \<open>cb\<close>, whether the network was notified\<close>
  "client_buf_mgmt_pop lws_pre cb s =
     do { items \<leftarrow> g_ws_buf s;
          let st0 = g_ws_buf_state s;
          let st = (if max_buf_cnt st0 \<le> rd_index st0 then st0\<lparr>rd_index := 0\<rparr> else st0);
          it \<leftarrow> rd items (nat (rd_index st));
          if buf_len it = 0 then Some (LE_SUCCESS, None, False, s\<lparr>g_ws_buf_state := st\<rparr>)
          else do {
            b \<leftarrow> buf it;
            _ \<leftarrow> (if lws_pre + unat (buf_len it) \<le> length b then Some () else None);
            let bytes = take (unat (buf_len it)) (drop lws_pre b);
            if size_of_int (cb bytes (buf_len it) (mtype it)) < buf_len it
            then Some (LE_ERROR_UNKNOWN, Some (bytes, mtype it), False, s\<lparr>g_ws_buf_state := st\<rparr>)
            else Some (LE_SUCCESS, Some (bytes, mtype it), True,
                       \<lparr>g_ws_buf_state = st\<lparr>rd_index := rd_index st + 1\<rparr>,
                        g_ws_buf = Some (items[nat (rd_index st) := it\<lparr>buf_len := 0\<rparr>])\<rparr>) } }"

definition buf_mgmt_client_clear_msg :: "wsbuf \<Rightarrow> wsbuf option" where
  "buf_mgmt_client_clear_msg s =
     do { items \<leftarrow> g_ws_buf s;
          if MAX_MSG_BUF_COUNT \<le> length items
          then Some \<lparr>g_ws_buf_state = (g_ws_buf_state s)\<lparr>wr_index := 0, rd_index := 0\<rparr>,
                     g_ws_buf = Some (map (\<lambda>it. it\<lparr>buf_len := 0\<rparr>) (take MAX_MSG_BUF_COUNT items)
                                      @ drop MAX_MSG_BUF_COUNT items)\<rparr>
          else None }"

definition client_buf_mgmt_destroy :: "wsbuf \<Rightarrow> mem \<Rightarrow> int \<times> wsbuf \<times> mem" where
  "client_buf_mgmt_destroy s m =
     (case g_ws_buf s of
        None \<Rightarrow> (0, s, m)
      | Some items \<Rightarrow>
          (LE_SUCCESS, \<lparr>g_ws_buf_state = zero_status, g_ws_buf = None\<rparr>,
           c_free 1 (c_free (length (filter (\<lambda>it. buf it \<noteq> None) items)) m)))"

subsection \<open>Abstraction and invariants\<close>

abbreviation slots :: "wsbuf \<Rightarrow> msg_buf_item list" where
  "slots s \<equiv> (case g_ws_buf s of None \<Rightarrow> [] | Some items \<Rightarrow> items)"

abbreviation rdi :: "wsbuf \<Rightarrow> nat" where
  "rdi s \<equiv> nat (rd_index (g_ws_buf_state s))"

abbreviation wri :: "wsbuf \<Rightarrow> nat" where
  "wri s \<equiv> nat (wr_index (g_ws_buf_state s))"

text \<open>A slot's block exists, has at least its initial size and holds a terminated message.\<close>

definition slot_ok :: "nat \<Rightarrow> nat \<Rightarrow> msg_buf_item \<Rightarrow> bool" where
  "slot_ok lws_pre single it =
     (case buf it of
        None \<Rightarrow> False
      | Some b \<Rightarrow> single \<le> length b \<and> lws_pre + unat (buf_len it) \<le> length b
                \<and> (buf_len it \<noteq> 0 \<longrightarrow> b ! (lws_pre + unat (buf_len it) - 1) = NUL))"

definition wsb_inv :: "nat \<Rightarrow> wsbuf \<Rightarrow> bool" where
  "wsb_inv lws_pre s =
     (let st = g_ws_buf_state s in
      slots s \<noteq> [] \<and> max_buf_cnt st = int (length (slots s)) \<and>
      0 \<le> rd_index st \<and> rd_index st \<le> max_buf_cnt st \<and>
      0 \<le> wr_index st \<and> wr_index st \<le> max_buf_cnt st \<and>
      int lws_pre \<le> single_buf_size st \<and> single_buf_size st \<le> INT_MAX \<and>
      list_all (slot_ok lws_pre (nat (single_buf_size st))) (slots s))"

definition slot_at :: "wsbuf \<Rightarrow> nat \<Rightarrow> msg_buf_item" where
  "slot_at s i = slots s ! ((rdi s + i) mod length (slots s))"

definition used :: "wsbuf \<Rightarrow> nat" where
  "used s = length (takeWhile (\<lambda>i. buf_len (slot_at s i) \<noteq> 0) [0..<length (slots s)])"

text \<open>
  The discipline of the two indices: the slots in use are exactly the ones from the read
  index on, and the write index is right behind them.
\<close>

definition ring_ok :: "wsbuf \<Rightarrow> bool" where
  "ring_ok s \<longleftrightarrow>
     wri s mod length (slots s) = (rdi s + used s) mod length (slots s) \<and>
     (\<forall>i \<in> {used s..<length (slots s)}. buf_len (slot_at s i) = 0)"

definition slot_msg :: "nat \<Rightarrow> msg_buf_item \<Rightarrow> string \<times> int" where
  "slot_msg lws_pre it =
     (case buf it of None \<Rightarrow> ([], mtype it)
      | Some b \<Rightarrow> (take (unat (buf_len it) - 1) (drop lws_pre b), mtype it))"

text \<open>The messages still to be sent, oldest first: what the module is a queue of.\<close>

definition pending :: "nat \<Rightarrow> wsbuf \<Rightarrow> (string \<times> int) list" where
  "pending lws_pre s = map (slot_msg lws_pre) (ring_list (slots s) (rdi s) (used s))"

lemma length_pending [simp]: "length (pending lws_pre s) = used s"
  by (simp add: pending_def)

lemma used_le: "used s \<le> length (slots s)"
  unfolding used_def by (rule order_trans [OF length_takeWhile_le]) simp

lemma used_nonempty: "i < used s \<Longrightarrow> buf_len (slot_at s i) \<noteq> 0"
proof -
  assume "i < used s"
  moreover from this have "i < length (slots s)" using used_le [of s] by simp
  ultimately show ?thesis
    using nth_mem [of i "takeWhile (\<lambda>i. buf_len (slot_at s i) \<noteq> 0) [0..<length (slots s)]"]
      takeWhile_nth [of i "\<lambda>i. buf_len (slot_at s i) \<noteq> 0" "[0..<length (slots s)]"]
    by (auto simp: used_def dest: set_takeWhileD)
qed

lemma used_eqI:
  assumes "k \<le> length (slots s)" "\<And>i. i < k \<Longrightarrow> buf_len (slot_at s i) \<noteq> 0"
    and "k < length (slots s) \<Longrightarrow> buf_len (slot_at s k) = 0"
  shows "used s = k"
proof -
  let ?P = "\<lambda>i. buf_len (slot_at s i) \<noteq> 0"
  have split: "[0..<length (slots s)] = [0..<k] @ [k..<length (slots s)]"
    using assms(1) upt_add_eq_append [of 0 k "length (slots s) - k"] by simp
  have "takeWhile ?P [k..<length (slots s)] = []"
    using assms(3) by (cases "k < length (slots s)") (simp_all add: upt_conv_Cons)
  then have "takeWhile ?P [0..<length (slots s)] = [0..<k]"
    unfolding split using assms(2) by (subst takeWhile_append2) simp_all
  then show ?thesis by (simp add: used_def)
qed

lemma wsb_invD:
  assumes "wsb_inv lws_pre s"
  obtains items where "g_ws_buf s = Some items" "items \<noteq> []" "slots s = items"
    "max_buf_cnt (g_ws_buf_state s) = int (length items)"
    "rdi s \<le> length items" "wri s \<le> length items"
    "0 \<le> rd_index (g_ws_buf_state s)" "0 \<le> wr_index (g_ws_buf_state s)"
    "int lws_pre \<le> single_buf_size (g_ws_buf_state s)" "single_buf_size (g_ws_buf_state s) \<le> INT_MAX"
    "list_all (slot_ok lws_pre (nat (single_buf_size (g_ws_buf_state s)))) items"
  using assms by (cases "g_ws_buf s") (auto simp: wsb_inv_def Let_def)

subsection \<open>What push and pop do to a slot\<close>

lemma unat_Suc64: "unat len + 1 < 2 ^ 64 \<Longrightarrow> unat (len + 1 :: size_t) = unat len + 1"
  by (simp add: unat_word_ariths)

lemma store_msg_ok:
  assumes "buf it = Some b" "unat (buf_len it) \<le> length b" "unat len \<le> length src"
    and "lws_pre + unat len + 1 \<le> length b"
  shows "\<exists>b3. store_msg lws_pre src (len + 1) t it
                = Some (it\<lparr>buf := Some b3, buf_len := len + 1, mtype := t\<rparr>) \<and>
              length b3 = length b \<and> take (unat len) (drop lws_pre b3) = take (unat len) src \<and>
              b3 ! (lws_pre + unat len) = NUL"
proof -
  define b1 where "b1 = replicate (unat (buf_len it)) NUL @ drop (unat (buf_len it)) b"
  define b2 where "b2 = take lws_pre b1 @ take (unat len) src @ drop (lws_pre + unat len) b1"
  define b3 where "b3 = take (lws_pre + unat len) b2 @ [NUL] @ drop (lws_pre + unat len + 1) b2"
  have l1: "length b1 = length b" using assms(2) by (simp add: b1_def)
  have l2: "length b2 = length b" using assms(3,4) l1 by (simp add: b2_def)
  have l3: "length b3 = length b" using assms(4) l2 by (simp add: b3_def)
  have "store_msg lws_pre src (len + 1) t it = Some (it\<lparr>buf := Some b3, buf_len := len + 1, mtype := t\<rparr>)"
    using assms l1 l2
    by (simp add: store_msg_def blit_Some b1_def [symmetric] b2_def [symmetric] b3_def)
  moreover have "take (unat len) (drop lws_pre b3) = take (unat len) src"
    using assms(3,4) l1 l2 by (simp add: b3_def b2_def)
  moreover have "b3 ! (lws_pre + unat len) = NUL"
    using assms(4) l2 by (simp add: b3_def nth_append)
  ultimately show ?thesis using l3 by blast
qed
definition grows :: "nat \<Rightarrow> size_t \<Rightarrow> wsbuf \<Rightarrow> bool" where
  "grows lws_pre len s \<longleftrightarrow> size_of_int (single_buf_size (g_ws_buf_state s) - int lws_pre) < len + 1"

lemma push_slot:
  assumes inv: "wsb_inv lws_pre s"
    and old: "grows lws_pre len s \<Longrightarrow>
        unat (buf_len (slots s ! (wri s mod length (slots s)))) \<le> unat len + 1 + lws_pre"
    and src: "unat len \<le> length src" and small: "unat len + 1 + lws_pre < 2 ^ 64"
    and alloc: "grows lws_pre len s \<Longrightarrow> fst (c_realloc m)"
  obtains it where
    "client_buf_mgmt_push lws_pre (Some src) len t s m =
       Some (LE_SUCCESS, True,
             \<lparr>g_ws_buf_state = (g_ws_buf_state s)\<lparr>wr_index := int (wri s mod length (slots s)) + 1\<rparr>,
              g_ws_buf = Some ((slots s)[wri s mod length (slots s) := it])\<rparr>,
             if grows lws_pre len s then snd (c_realloc m) else m)"
    "slot_ok lws_pre (nat (single_buf_size (g_ws_buf_state s))) it"
    "slot_msg lws_pre it = (take (unat len) src, t)" "buf_len it = len + 1"
proof -
  from inv obtain items where items: "g_ws_buf s = Some items" "items \<noteq> []" "slots s = items"
    and st: "max_buf_cnt (g_ws_buf_state s) = int (length items)"
      "wri s \<le> length items" "0 \<le> wr_index (g_ws_buf_state s)"
      "int lws_pre \<le> single_buf_size (g_ws_buf_state s)" "single_buf_size (g_ws_buf_state s) \<le> INT_MAX"
    and ok: "list_all (slot_ok lws_pre (nat (single_buf_size (g_ws_buf_state s)))) items"
    by (rule wsb_invD)
  define n w where "n = length items" and "w = wri s mod n"
  define st1 where "st1 = (if max_buf_cnt (g_ws_buf_state s) \<le> wr_index (g_ws_buf_state s)
                           then (g_ws_buf_state s)\<lparr>wr_index := 0\<rparr> else g_ws_buf_state s)"
  have w: "w < n" using items by (simp add: w_def n_def)
  have wr1: "wr_index st1 = int w"
  proof (cases "wri s = n")
    case True
    then have "int n = wr_index (g_ws_buf_state s)" using st by (metis int_nat_eq)
    then show ?thesis using True st by (simp add: st1_def w_def n_def)
  next
    case False
    then have "wri s < n" using st by (simp add: n_def)
    then show ?thesis using st by (simp add: st1_def w_def n_def)
  qed
  have pair: "(if max_buf_cnt (g_ws_buf_state s) \<le> wr_index (g_ws_buf_state s)
      then ((g_ws_buf_state s)\<lparr>wr_index := 0\<rparr>, 0) else (g_ws_buf_state s, wr_index (g_ws_buf_state s)))
      = (st1, int w)"
    using wr1 by (auto simp: st1_def split: if_splits)
  have upd: "st1\<lparr>wr_index := x\<rparr> = (g_ws_buf_state s)\<lparr>wr_index := x\<rparr>" for x
    by (simp add: st1_def)
  have single1: "single_buf_size st1 = single_buf_size (g_ws_buf_state s)"
    by (simp add: st1_def)
  define it where "it = items ! w"
  define it1 where "it1 = (if grows lws_pre len s
                           then it\<lparr>buf := Some (replicate (unat (len + 1 + of_nat lws_pre)) NUL)\<rparr> else it)"
  have lenS: "unat (len + 1) = unat len + 1"
    using small by (intro unat_Suc64) simp
  have lenpre: "unat (len + 1 + of_nat lws_pre) = unat len + 1 + lws_pre"
    using small lenS by (simp add: unat_word_ariths(1) [of "len + 1"] unat_of_nat)
  have "slot_ok lws_pre (nat (single_buf_size (g_ws_buf_state s))) it"
    using ok w by (simp add: it_def list_all_length n_def)
  then obtain b where b: "buf it = Some b" "nat (single_buf_size (g_ws_buf_state s)) \<le> length b"
    by (auto simp: slot_ok_def split: option.splits)
  have lim: "unat (size_of_int (single_buf_size (g_ws_buf_state s) - int lws_pre))
             = nat (single_buf_size (g_ws_buf_state s) - int lws_pre)"
    using st by (intro unat_size_of_int) auto
  obtain b1 where b1: "buf it1 = Some b1" "lws_pre + unat len + 1 \<le> length b1"
      "nat (single_buf_size (g_ws_buf_state s)) \<le> length b1"
  proof (cases "grows lws_pre len s")
    case True
    then have "nat (single_buf_size (g_ws_buf_state s) - int lws_pre) < unat len + 1"
      using lim lenS by (simp add: grows_def word_less_nat_alt)
    then have "nat (single_buf_size (g_ws_buf_state s)) \<le> unat len + 1 + lws_pre" by simp
    then show ?thesis using True lenpre by (intro that) (auto simp: it1_def)
  next
    case False
    then have "unat len + 1 \<le> nat (single_buf_size (g_ws_buf_state s) - int lws_pre)"
      using lim lenS by (simp add: grows_def word_less_nat_alt)
    then have "lws_pre + unat len + 1 \<le> nat (single_buf_size (g_ws_buf_state s))" by simp
    then show ?thesis using False b by (intro that) (auto simp: it1_def)
  qed
  have "lws_pre + unat (buf_len it) \<le> length b"
    using ok w b(1) by (auto simp: it_def list_all_length n_def slot_ok_def)
  then have old1: "unat (buf_len it1) \<le> length b1"
    using b1(1) b(1) old lenpre items by (auto simp: it1_def it_def w_def n_def split: if_splits)
  obtain b3 where b3: "store_msg lws_pre src (len + 1) t it1
        = Some (it1\<lparr>buf := Some b3, buf_len := len + 1, mtype := t\<rparr>)"
      "length b3 = length b1" "take (unat len) (drop lws_pre b3) = take (unat len) src"
      "b3 ! (lws_pre + unat len) = NUL"
    using store_msg_ok [OF b1(1) old1 src b1(2)] by auto
  define it' where "it' = it1\<lparr>buf := Some b3, buf_len := len + 1, mtype := t\<rparr>"
  have "client_buf_mgmt_push lws_pre (Some src) len t s m =
       Some (LE_SUCCESS, True,
             \<lparr>g_ws_buf_state = (g_ws_buf_state s)\<lparr>wr_index := int w + 1\<rparr>, g_ws_buf = Some (items[w := it'])\<rparr>,
             if grows lws_pre len s then snd (c_realloc m) else m)"
  proof (cases "grows lws_pre len s")
    case True
    then obtain m' where "c_realloc m = (True, m')" using alloc by (metis prod.collapse)
    then show ?thesis
      using True items w b3(1) wr1 upd single1
      by (simp add: client_buf_mgmt_push_def rd_Some grows_def [symmetric] it_def [symmetric] n_def [symmetric]
          it1_def it'_def Let_def pair)
  next
    case False
    then show ?thesis
      using items w b3(1) wr1 upd single1
      by (simp add: client_buf_mgmt_push_def rd_Some grows_def [symmetric] it_def [symmetric] n_def [symmetric]
          it1_def it'_def Let_def pair)
  qed
  moreover have "slot_ok lws_pre (nat (single_buf_size (g_ws_buf_state s))) it'"
    using b1 b3 lenS by (simp add: slot_ok_def it'_def)
  moreover have "slot_msg lws_pre it' = (take (unat len) src, t)"
    using b3 lenS by (simp add: slot_msg_def it'_def)
  ultimately show ?thesis
    using that [of it'] items by (simp add: w_def n_def it'_def)
qed

lemma pop_slot:
  assumes inv: "wsb_inv lws_pre s"
  defines "it \<equiv> slot_at s 0" and "st \<equiv> g_ws_buf_state s" and "r \<equiv> rdi s mod length (slots s)"
  defines "msg \<equiv> fst (slot_msg lws_pre it) @ [NUL]"
  shows "client_buf_mgmt_pop lws_pre cb s =
    (if buf_len it = 0 then Some (LE_SUCCESS, None, False, s\<lparr>g_ws_buf_state := st\<lparr>rd_index := int r\<rparr>\<rparr>)
     else if size_of_int (cb msg (buf_len it) (mtype it)) < buf_len it
     then Some (LE_ERROR_UNKNOWN, Some (msg, mtype it), False, s\<lparr>g_ws_buf_state := st\<lparr>rd_index := int r\<rparr>\<rparr>)
     else Some (LE_SUCCESS, Some (msg, mtype it), True,
                \<lparr>g_ws_buf_state = st\<lparr>rd_index := int r + 1\<rparr>,
                 g_ws_buf = Some ((slots s)[r := it\<lparr>buf_len := 0\<rparr>])\<rparr>))"
proof -
  from inv obtain items where items: "g_ws_buf s = Some items" "items \<noteq> []" "slots s = items"
    and bd: "max_buf_cnt st = int (length items)" "rdi s \<le> length items" "0 \<le> rd_index st"
    and ok: "list_all (slot_ok lws_pre (nat (single_buf_size st))) items"
    unfolding st_def by (rule wsb_invD)
  define st1 where "st1 = (if max_buf_cnt st \<le> rd_index st then st\<lparr>rd_index := 0\<rparr> else st)"
  have r: "r < length items" "it = items ! r" using items by (simp_all add: r_def it_def slot_at_def)
  have rd1: "rd_index st1 = int r"
  proof (cases "rdi s = length items")
    case True
    then have "int (length items) = rd_index st" using bd by (metis int_nat_eq st_def)
    then show ?thesis using True bd items by (simp add: st1_def r_def)
  next
    case False
    then have "rdi s < length items" using bd by simp
    then show ?thesis using bd items by (simp add: st1_def r_def st_def)
  qed
  have upd: "st1\<lparr>rd_index := x\<rparr> = st\<lparr>rd_index := x\<rparr>" for x by (simp add: st1_def)
  have st1: "st1 = st\<lparr>rd_index := int r\<rparr>" 
  proof -
    have "st1 = st1\<lparr>rd_index := rd_index st1\<rparr>" by simp
    then show ?thesis using upd rd1 by simp
  qed
  have "slot_ok lws_pre (nat (single_buf_size st)) it"
    using ok r by (simp add: list_all_length)
  then obtain b where b: "buf it = Some b" "lws_pre + unat (buf_len it) \<le> length b"
    and nul: "buf_len it \<noteq> 0 \<Longrightarrow> b ! (lws_pre + unat (buf_len it) - 1) = NUL"
    by (auto simp: slot_ok_def split: option.splits)
  have msg: "take (unat (buf_len it)) (drop lws_pre b) = msg" if "buf_len it \<noteq> 0"
  proof -
    have pos: "0 < unat (buf_len it)" using that by (simp add: unat_gt_0)
    then have "unat (buf_len it) = Suc (unat (buf_len it) - 1)" by simp
    then have "take (unat (buf_len it)) (drop lws_pre b)
        = take (unat (buf_len it) - 1) (drop lws_pre b) @ [drop lws_pre b ! (unat (buf_len it) - 1)]"
      using b(2) pos by (metis take_Suc_conv_app_nth length_drop less_le_trans add_le_imp_le_diff
          add.commute lessI)
    then show ?thesis using b pos nul [OF that] by (simp add: msg_def slot_msg_def add.commute)
  qed
  show ?thesis
    using items r b rd1 msg
    by (simp add: client_buf_mgmt_pop_def rd_Some Let_def st_def [symmetric] st1_def [symmetric] st1)
qed

subsection \<open>Refinement of a queue of messages\<close>

lemma push_refines:
  assumes inv: "wsb_inv lws_pre s" and ring: "ring_ok s" and room: "used s < length (slots s)"
    and src: "unat len \<le> length src" "unat len + 1 + lws_pre < 2 ^ 64"
    and alloc: "grows lws_pre len s \<Longrightarrow> fst (c_realloc m)"
  obtains s' m' where "client_buf_mgmt_push lws_pre (Some src) len t s m = Some (LE_SUCCESS, True, s', m')"
    "wsb_inv lws_pre s'" "ring_ok s'" "pending lws_pre s' = pending lws_pre s @ [(take (unat len) src, t)]"
    "length (slots s') = length (slots s)" "orc m' = orc m"
proof -
  define n w where "n = length (slots s)" and "w = wri s mod n"
  have w: "w = (rdi s + used s) mod n" using ring by (simp add: w_def n_def ring_ok_def)
  have "0 < n" using room unfolding n_def by linarith
  then have wn: "w < n" by (simp add: w_def)
  have free: "buf_len (slots s ! w) = 0"
    using ring room w by (auto simp: ring_ok_def slot_at_def n_def)
  obtain it where push: "client_buf_mgmt_push lws_pre (Some src) len t s m =
       Some (LE_SUCCESS, True,
             \<lparr>g_ws_buf_state = (g_ws_buf_state s)\<lparr>wr_index := int w + 1\<rparr>,
              g_ws_buf = Some ((slots s)[w := it])\<rparr>,
             if grows lws_pre len s then snd (c_realloc m) else m)"
    and it: "slot_ok lws_pre (nat (single_buf_size (g_ws_buf_state s))) it"
      "slot_msg lws_pre it = (take (unat len) src, t)" "buf_len it = len + 1"
    using push_slot [OF inv _ src, of m t] free alloc by (auto simp: w_def n_def)
  define s' where "s' = \<lparr>g_ws_buf_state = (g_ws_buf_state s)\<lparr>wr_index := int w + 1\<rparr>,
              g_ws_buf = Some ((slots s)[w := it])\<rparr>"
  have s': "slots s' = (slots s)[w := it]" "rdi s' = rdi s" "wri s' = Suc w" "length (slots s') = n"
    by (simp_all add: s'_def n_def)
  have pos: "buf_len it \<noteq> 0"
    using it(3) unat_Suc64 [of len] src(2) by (metis add_is_0 add_lessD1 unat_0 zero_neq_one)
  have at: "slot_at s' i = (if i = used s then it else slot_at s i)" if "i < n" for i
    using that room s' w ring_nth_update [of i "slots s" "used s" "rdi s" it]
    by (simp add: slot_at_def n_def)
  have used': "used s' = Suc (used s)"
    using room ring s' pos
    by (intro used_eqI) (auto simp: at n_def used_nonempty ring_ok_def less_Suc_eq)
  have "wsb_inv lws_pre s'"
    using inv it(1) wn by (auto simp: wsb_inv_def Let_def s'_def n_def list_all_upd)
  moreover have "ring_ok s'"
    using ring room w s' used' by (auto simp: ring_ok_def at n_def mod_Suc_eq)
  moreover have "pending lws_pre s' = pending lws_pre s @ [(take (unat len) src, t)]"
    using room w s' used' it(2) by (simp add: pending_def ring_list_enq n_def)
  ultimately show ?thesis
    using push s' unfolding s'_def [symmetric]
    by (intro that [of s' "if grows lws_pre len s then snd (c_realloc m) else m"]) (simp_all add: n_def)
qed

lemma ring_state_upd:
  assumes "slots s' = slots s" "rdi s' = rdi s mod length (slots s)" "wri s' = wri s"
  shows "pending lws_pre s' = pending lws_pre s" "used s' = used s" "ring_ok s' = ring_ok s"
proof -
  have at: "slot_at s' = slot_at s"
    using assms by (simp add: slot_at_def fun_eq_iff mod_add_left_eq)
  show u: "used s' = used s" using assms by (simp add: used_def at)
  show "pending lws_pre s' = pending lws_pre s" using assms u by (simp add: pending_def)
  show "ring_ok s' = ring_ok s"
    using assms u by (simp add: ring_ok_def at mod_add_left_eq)
qed

lemma used_pos_iff: "slots s \<noteq> [] \<Longrightarrow> used s = 0 \<longleftrightarrow> buf_len (slot_at s 0) = 0"
  using used_nonempty [of 0 s] by (auto simp: used_def upt_conv_Cons)

lemma pop_refines:
  assumes inv: "wsb_inv lws_pre s" and ring: "ring_ok s" and ne: "pending lws_pre s \<noteq> []"
    and cb: "buf_len (slot_at s 0) \<le> size_of_int
        (cb (fst (hd (pending lws_pre s)) @ [NUL]) (buf_len (slot_at s 0)) (snd (hd (pending lws_pre s))))"
  obtains s' where "client_buf_mgmt_pop lws_pre cb s =
      Some (LE_SUCCESS, Some (fst (hd (pending lws_pre s)) @ [NUL], snd (hd (pending lws_pre s))), True, s')"
    "wsb_inv lws_pre s'" "ring_ok s'" "pending lws_pre s' = tl (pending lws_pre s)"
    "length (slots s') = length (slots s)"
proof -
  define n r it where "n = length (slots s)" and "r = rdi s mod n" and "it = slot_at s 0"
  have n: "slots s \<noteq> []" using inv by (simp add: wsb_inv_def Let_def)
  have u: "0 < used s" using ne by (metis length_greater_0_conv length_pending)
  have it: "it = slots s ! r" "buf_len it \<noteq> 0"
    using u used_nonempty [of 0 s] by (simp_all add: it_def slot_at_def r_def n_def)
  have r: "r < n" using n by (simp add: r_def n_def)
  have pend: "pending lws_pre s = slot_msg lws_pre it # map (slot_msg lws_pre) (ring_list (slots s) (Suc (rdi s)) (used s - 1))"
    using u by (simp add: pending_def ring_list_deq it(1) r_def n_def)
  have ty: "snd (slot_msg lws_pre it) = mtype it" by (simp add: slot_msg_def split: option.splits)
  define s' where "s' = \<lparr>g_ws_buf_state = (g_ws_buf_state s)\<lparr>rd_index := int r + 1\<rparr>,
                 g_ws_buf = Some ((slots s)[r := it\<lparr>buf_len := 0\<rparr>])\<rparr>"
  have pop: "client_buf_mgmt_pop lws_pre cb s =
      Some (LE_SUCCESS, Some (fst (hd (pending lws_pre s)) @ [NUL], snd (hd (pending lws_pre s))), True, s')"
    using pop_slot [OF inv, of cb] cb it(2) pend ty
    by (simp add: it_def [symmetric] r_def [symmetric] n_def [symmetric] s'_def not_less)
  have s': "slots s' = (slots s)[r := it\<lparr>buf_len := 0\<rparr>]" "rdi s' = Suc r" "wri s' = wri s"
      "length (slots s') = n"
    by (simp_all add: s'_def n_def)
  have at: "slot_at s' i = (if i = n - 1 then it\<lparr>buf_len := 0\<rparr> else slot_at s (Suc i))" if "i < n" for i
  proof -
    have pos: "(rdi s' + i) mod n = (rdi s + Suc i) mod n"
      using ring_mod_shift [of "rdi s" n i] by (simp add: s'(2) r_def)
    have slot': "slot_at s' i = (slots s)[r := it\<lparr>buf_len := 0\<rparr>] ! ((rdi s + Suc i) mod n)"
      unfolding slot_at_def s'(1) length_list_update n_def [symmetric] pos ..
    show ?thesis
    proof (cases "i = n - 1")
      case True
      then have "(rdi s + Suc i) mod n = r" using r ring_mod_last [of n "rdi s"] by (simp add: r_def)
      then show ?thesis using True slot' r by (simp add: n_def)
    next
      case False
      with that have "Suc i < n" by simp
      then show ?thesis
        using False slot' ring_nth_update [of "Suc i" "slots s" 0 "rdi s" "it\<lparr>buf_len := 0\<rparr>"]
          n by (simp add: r_def n_def slot_at_def)
    qed
  qed
  have usedn: "used s \<le> n" using used_le [of s] by (simp add: n_def)
  have used': "used s' = used s - 1"
    using u usedn ring s' r used_nonempty [of "Suc _" s]
    by (intro used_eqI) (auto simp: at n_def ring_ok_def)
  have inv': "wsb_inv lws_pre s'"
  proof -
    have "slot_ok lws_pre (nat (single_buf_size (g_ws_buf_state s))) it"
      using inv r it(1) by (auto simp: wsb_inv_def Let_def list_all_length n_def)
    then have "slot_ok lws_pre (nat (single_buf_size (g_ws_buf_state s))) (it\<lparr>buf_len := 0\<rparr>)"
      by (auto simp: slot_ok_def split: option.splits)
    then show ?thesis
      using inv r by (auto simp: wsb_inv_def Let_def s'_def n_def list_all_upd)
  qed
  have ring': "ring_ok s'"
  proof -
    have "(Suc r + (used s - 1)) mod n = (rdi s + used s) mod n"
      using u by (simp add: r_def mod_add_left_eq)
    moreover have "buf_len (slot_at s' i) = 0" if "i \<in> {used s - 1..<n}" for i
    proof (cases "i = n - 1")
      case False
      with that u have "Suc i \<in> {used s..<n}" by auto
      then show ?thesis using ring that False by (simp add: at ring_ok_def n_def)
    qed (use that at in simp)
    ultimately show ?thesis
      using ring s' used' by (auto simp: ring_ok_def n_def)
  qed
  have "pending lws_pre s' = tl (pending lws_pre s)"
  proof -
    have "ring_list (slots s') (Suc r) (used s - 1) = ring_list (slots s) (Suc r) (used s - 1)"
      unfolding s'(1)
    proof (rule ring_list_outside)
      fix i assume i: "i < used s - 1"
      then have "(rdi s + Suc i) mod n \<noteq> (rdi s + 0) mod n"
        using ring_mod_inj [of "rdi s" "Suc i" n 0] usedn by linarith
      then show "(Suc r + i) mod length (slots s) \<noteq> r"
        by (metis (no_types) add.right_neutral add_Suc add_Suc_right mod_add_left_eq n_def r_def)
    qed
    moreover have "ring_list (slots s) (Suc r) (used s - 1) = ring_list (slots s) (Suc (rdi s)) (used s - 1)"
      by (metis mod_Suc_eq ring_list_mod r_def n_def)
    ultimately show ?thesis
      using pend used' s' by (simp add: pending_def)
  qed
  then show ?thesis
    using pop inv' ring' s' by (intro that [of s']) (simp_all add: n_def)
qed

subsection \<open>Initialisation\<close>

abbreviation fresh_item :: "nat \<Rightarrow> msg_buf_item" where
  "fresh_item sz \<equiv> zero_item\<lparr>buf := Some (replicate sz NUL)\<rparr>"

lemma alloc_slots_spec:
  "alloc_slots sz i k (replicate i (fresh_item sz) @ replicate k zero_item) m = (ok, items, m') \<Longrightarrow>
   \<exists>j \<le> k. items = replicate (i + j) (fresh_item sz) @ replicate (k - j) zero_item \<and>
           live m' = live m + int j \<and> orc m' = orc m \<and> (ok \<longleftrightarrow> j = k)"
proof (induction k arbitrary: i m)
  case 0
  then show ?case by simp
next
  case (Suc k)
  have upd: "(replicate i (fresh_item sz) @ replicate (Suc k) zero_item)
        [i := ((replicate i (fresh_item sz) @ replicate (Suc k) zero_item) ! i)\<lparr>buf := Some (replicate sz NUL)\<rparr>]
      = replicate (Suc i) (fresh_item sz) @ replicate k zero_item"
    using replicate_append_same [of i "fresh_item sz"] by (simp add: nth_append list_update_append)
  show ?case
  proof (cases m rule: malloc_cases)
    case 1
    then have "alloc_slots sz (Suc i) k (replicate (Suc i) (fresh_item sz) @ replicate k zero_item)
        (m\<lparr>calls := Suc (calls m), live := live m + 1\<rparr>) = (ok, items, m')"
      using Suc.prems upd by (simp del: replicate_Suc)
    from Suc.IH [OF this] obtain j where "j \<le> k" "items = replicate (Suc i + j) (fresh_item sz) @ replicate (k - j) zero_item"
      "live m' = live m + int (Suc j)" "orc m' = orc m" "ok \<longleftrightarrow> j = k"
      by auto
    then show ?thesis by (intro exI [of _ "Suc j"]) simp
  next
    case 2
    then show ?thesis using Suc.prems by (intro exI [of _ 0]) auto
  qed
qed

lemma free_slots_spec:
  "free_slots (replicate j (fresh_item sz) @ replicate k zero_item) m = c_free j m"
proof (induction j arbitrary: m)
  case 0
  then show ?case by (cases k) (simp_all add: zero_item_def c_free_def)
next
  case (Suc j)
  then show ?case by (simp add: c_free_def algebra_simps)
qed

lemma init_spec:
  assumes "client_buf_mgmt_init mret single cnt s m = (ret, s', m')" "g_ws_buf s = None"
  shows "ret = LE_SUCCESS \<and> mret = 0 \<and> g_ws_buf s' = Some (replicate cnt (fresh_item single)) \<and>
         g_ws_buf_state s' = zero_status\<lparr>single_buf_size := int single, max_buf_cnt := int cnt\<rparr> \<and>
         live m' = live m + int cnt + 1 \<and> orc m' = orc m
       \<or> ret \<in> {LE_ERROR_CREATING_MUTEX, LE_ERROR_ALLOCATING_MEM} \<and> g_ws_buf s' = None \<and> live m' = live m \<and>
         orc m' = orc m \<and> \<not> (mret = 0 \<and> reliable m)"
proof (cases "mret = 0")
  case False
  then show ?thesis using assms by (auto simp: client_buf_mgmt_init_def)
next
  case True
  show ?thesis
  proof (cases m rule: malloc_cases)
    case 1
    define m1 where "m1 = m\<lparr>calls := Suc (calls m), live := live m + 1\<rparr>"
    obtain ok items m2 where al: "alloc_slots single 0 cnt (replicate cnt zero_item) m1 = (ok, items, m2)"
      by (cases "alloc_slots single 0 cnt (replicate cnt zero_item) m1")
    then obtain j where j: "j \<le> cnt" "items = replicate j (fresh_item single) @ replicate (cnt - j) zero_item"
      "live m2 = live m1 + int j" "orc m2 = orc m1" "ok \<longleftrightarrow> j = cnt"
      using alloc_slots_spec [of single 0 cnt m1 ok items m2] by auto
    have "reliable m \<Longrightarrow> ok"
    proof -
      have "reliable x \<Longrightarrow> fst (alloc_slots sz i k its x)" for x sz i k its
        by (induction k arbitrary: x i its) (simp_all add: malloc_def reliable_def)
      from this [of m1 single 0 cnt "replicate cnt zero_item"] show "reliable m \<Longrightarrow> ok"
        using al by (simp add: m1_def reliable_def)
    qed
    then show ?thesis
      using True 1 al j assms
      by (auto simp: client_buf_mgmt_init_def m1_def [symmetric] free_slots_spec c_free_def le_error_defs)
         (auto simp: m1_def)
  next
    case 2
    then show ?thesis using True assms by (auto simp: client_buf_mgmt_init_def reliable_def)
  qed
qed

lemma init_inv:
  assumes "client_buf_mgmt_init mret single cnt s m = (LE_SUCCESS, s', m')" "g_ws_buf s = None"
    and "0 < cnt" "lws_pre \<le> single" "single < 2 ^ 31"
  shows "wsb_inv lws_pre s'" "ring_ok s'" "used s' = 0" "pending lws_pre s' = []" "length (slots s') = cnt"
proof -
  have s': "g_ws_buf s' = Some (replicate cnt (fresh_item single))"
    "g_ws_buf_state s' = zero_status\<lparr>single_buf_size := int single, max_buf_cnt := int cnt\<rparr>"
    using init_spec [OF assms(1,2)] by (auto simp: le_error_defs)
  then have at: "buf_len (slot_at s' i) = 0" for i
    using assms(3) by (simp add: slot_at_def zero_item_def)
  then show u: "used s' = 0" by (intro used_eqI) simp_all
  show "wsb_inv lws_pre s'"
    using assms(3-5) s' by (simp add: wsb_inv_def Let_def zero_status_def list_all_iff slot_ok_def zero_item_def)
  show "ring_ok s'" using u at s' by (simp add: ring_ok_def zero_status_def)
  show "pending lws_pre s' = []" using u by (simp add: pending_def)
  show "length (slots s') = cnt" using s' by simp
qed

subsection \<open>The queue contract\<close>

lemma slot_msg_length:
  assumes "slot_ok lws_pre k it" "buf_len it \<noteq> 0"
  shows "length (fst (slot_msg lws_pre it)) + 1 = unat (buf_len it)"
proof -
  have "0 < unat (buf_len it)" using assms(2) by (simp add: unat_gt_0)
  then show ?thesis
    using assms(1) by (auto simp: slot_ok_def slot_msg_def split: option.splits)
qed

lemma hd_pending:
  assumes "wsb_inv lws_pre s" "pending lws_pre s \<noteq> []"
  shows "hd (pending lws_pre s) = slot_msg lws_pre (slot_at s 0)" "buf_len (slot_at s 0) \<noteq> 0"
    "length (fst (hd (pending lws_pre s))) + 1 = unat (buf_len (slot_at s 0))"
proof -
  have u: "0 < used s" using assms(2) by (metis length_greater_0_conv length_pending)
  then show h: "hd (pending lws_pre s) = slot_msg lws_pre (slot_at s 0)"
    by (simp add: pending_def ring_list_deq slot_at_def)
  show ne: "buf_len (slot_at s 0) \<noteq> 0" using u by (rule used_nonempty)
  have "slots s \<noteq> []" using assms(1) by (simp add: wsb_inv_def Let_def)
  then have "slot_ok lws_pre (nat (single_buf_size (g_ws_buf_state s))) (slot_at s 0)"
    using assms(1) by (auto simp: wsb_inv_def Let_def slot_at_def list_all_length)
  then show "length (fst (hd (pending lws_pre s))) + 1 = unat (buf_len (slot_at s 0))"
    using slot_msg_length [OF _ ne] h by simp
qed

text \<open>
  Push and pop as the operations of the contract, for a client whose allocator works and a
  socket that takes every message whole; the entries are payload and message type.
\<close>

definition enq_msg :: "nat \<Rightarrow> string \<times> int \<Rightarrow> wsbuf \<times> mem \<Rightarrow> wsbuf \<times> mem" where
  "enq_msg lws_pre x sm =
     (case client_buf_mgmt_push lws_pre (Some (fst x)) (of_nat (length (fst x))) (snd x) (fst sm) (snd sm) of
        Some (_, _, s', m') \<Rightarrow> (s', m') | None \<Rightarrow> sm)"

definition full_write :: "string \<Rightarrow> size_t \<Rightarrow> int \<Rightarrow> int" where
  "full_write bytes len t = int (length bytes)"

definition deq_msg :: "nat \<Rightarrow> wsbuf \<times> mem \<Rightarrow> (string \<times> int) option \<times> (wsbuf \<times> mem)" where
  "deq_msg lws_pre sm =
     (case client_buf_mgmt_pop lws_pre full_write (fst sm) of
        Some (_, handed, _, s') \<Rightarrow> (map_option (\<lambda>(bytes, t). (butlast bytes, t)) handed, (s', snd sm))
      | None \<Rightarrow> (None, sm))"

definition msg_fits :: "nat \<Rightarrow> string \<times> int \<Rightarrow> bool" where
  "msg_fits lws_pre x \<longleftrightarrow> length (fst x) + 1 + lws_pre < 2 ^ 64"

definition wsq_inv :: "nat \<Rightarrow> wsbuf \<times> mem \<Rightarrow> bool" where
  "wsq_inv lws_pre sm \<longleftrightarrow> wsb_inv lws_pre (fst sm) \<and> ring_ok (fst sm) \<and> reliable (snd sm)"

lemma enq_msg_spec:
  assumes "wsq_inv lws_pre sm" "msg_fits lws_pre x" "length (pending lws_pre (fst sm)) < length (slots (fst sm))"
  shows "wsq_inv lws_pre (enq_msg lws_pre x sm) \<and>
         pending lws_pre (fst (enq_msg lws_pre x sm)) = pending lws_pre (fst sm) @ [x] \<and>
         length (slots (fst (enq_msg lws_pre x sm))) = length (slots (fst sm))"
proof -
  have len: "unat (of_nat (length (fst x)) :: size_t) = length (fst x)"
    using assms(2) by (simp add: unat_of_nat msg_fits_def)
  obtain s' m' where "client_buf_mgmt_push lws_pre (Some (fst x)) (of_nat (length (fst x))) (snd x) (fst sm) (snd sm)
      = Some (LE_SUCCESS, True, s', m')"
    "wsb_inv lws_pre s'" "ring_ok s'"
    "pending lws_pre s' = pending lws_pre (fst sm) @ [(take (unat (of_nat (length (fst x)) :: size_t)) (fst x), snd x)]"
    "length (slots s') = length (slots (fst sm))" "orc m' = orc (snd sm)"
    using push_refines [of lws_pre "fst sm" "of_nat (length (fst x))" "fst x" "snd sm" "snd x"] assms len
    by (auto simp: wsq_inv_def msg_fits_def)
  then show ?thesis
    using assms(1) len by (simp add: enq_msg_def wsq_inv_def reliable_def)
qed

lemma deq_msg_spec:
  assumes "wsq_inv lws_pre sm"
  shows "fst (deq_msg lws_pre sm) = (case pending lws_pre (fst sm) of [] \<Rightarrow> None | x # _ \<Rightarrow> Some x)"
    and "wsq_inv lws_pre (snd (deq_msg lws_pre sm)) \<and>
         pending lws_pre (fst (snd (deq_msg lws_pre sm))) = tl (pending lws_pre (fst sm)) \<and>
         length (slots (fst (snd (deq_msg lws_pre sm)))) = length (slots (fst sm))"
proof -
  have inv: "wsb_inv lws_pre (fst sm)" "ring_ok (fst sm)" using assms by (simp_all add: wsq_inv_def)
  then have ne: "slots (fst sm) \<noteq> []" by (simp add: wsb_inv_def Let_def)
  have "fst (deq_msg lws_pre sm) = (case pending lws_pre (fst sm) of [] \<Rightarrow> None | x # _ \<Rightarrow> Some x) \<and>
         wsq_inv lws_pre (snd (deq_msg lws_pre sm)) \<and>
         pending lws_pre (fst (snd (deq_msg lws_pre sm))) = tl (pending lws_pre (fst sm)) \<and>
         length (slots (fst (snd (deq_msg lws_pre sm)))) = length (slots (fst sm))"
  proof (cases "pending lws_pre (fst sm) = []")
    case True
    then have "used (fst sm) = 0" by (metis length_0_conv length_pending)
    then have e: "buf_len (slot_at (fst sm) 0) = 0" using used_pos_iff [OF ne] by simp
    define s' where "s' = (fst sm)\<lparr>g_ws_buf_state := (g_ws_buf_state (fst sm))
        \<lparr>rd_index := int (rdi (fst sm) mod length (slots (fst sm)))\<rparr>\<rparr>"
    have pop: "client_buf_mgmt_pop lws_pre full_write (fst sm) = Some (LE_SUCCESS, None, False, s')"
      using pop_slot [OF inv(1), of full_write] e by (simp add: s'_def)
    have s': "slots s' = slots (fst sm)" "rdi s' = rdi (fst sm) mod length (slots (fst sm))" "wri s' = wri (fst sm)"
      by (simp_all add: s'_def)
    have "rdi (fst sm) mod length (slots (fst sm)) < length (slots (fst sm))" using ne by simp
    then have "wsb_inv lws_pre s'"
      using inv(1) by (auto simp: wsb_inv_def Let_def s'_def)
    then show ?thesis
      using True pop assms ring_state_upd [OF s'] inv s' by (simp add: deq_msg_def wsq_inv_def)
  next
    case False
    let ?h = "hd (pending lws_pre (fst sm))"
    have "full_write (fst ?h @ [NUL]) (buf_len (slot_at (fst sm) 0)) (snd ?h) = int (unat (buf_len (slot_at (fst sm) 0)))"
      using hd_pending(3) [OF inv(1) False] by (simp add: full_write_def)
    then have cb: "buf_len (slot_at (fst sm) 0)
        \<le> size_of_int (full_write (fst ?h @ [NUL]) (buf_len (slot_at (fst sm) 0)) (snd ?h))"
      by (simp add: size_of_int_def)
    obtain s' where "client_buf_mgmt_pop lws_pre full_write (fst sm) = Some (LE_SUCCESS, Some (fst ?h @ [NUL], snd ?h), True, s')"
      "wsb_inv lws_pre s'" "ring_ok s'" "pending lws_pre s' = tl (pending lws_pre (fst sm))"
      "length (slots s') = length (slots (fst sm))"
      by (rule pop_refines [where cb = full_write, OF inv False cb])
    then show ?thesis
      using assms False by (cases "pending lws_pre (fst sm)") (simp_all add: deq_msg_def wsq_inv_def)
  qed
  then show "fst (deq_msg lws_pre sm) = (case pending lws_pre (fst sm) of [] \<Rightarrow> None | x # _ \<Rightarrow> Some x)"
    and "wsq_inv lws_pre (snd (deq_msg lws_pre sm)) \<and>
         pending lws_pre (fst (snd (deq_msg lws_pre sm))) = tl (pending lws_pre (fst sm)) \<and>
         length (slots (fst (snd (deq_msg lws_pre sm)))) = length (slots (fst sm))"
    by blast+
qed

interpretation wsq: bounded_fifo "wsq_inv lws_pre" "\<lambda>sm. pending lws_pre (fst sm)"
    "\<lambda>sm. length (slots (fst sm))" "msg_fits lws_pre" "enq_msg lws_pre" "deq_msg lws_pre" for lws_pre
  by unfold_locales (simp_all add: enq_msg_spec deq_msg_spec)

subsection \<open>Properties\<close>

text \<open>A small buffer for the concrete instances: two slots of 32 bytes, 16 bytes reserved.\<close>

definition ex_buf :: wsbuf where
  "ex_buf = fst (snd (client_buf_mgmt_init 0 32 2 wsbuf0 always))"

lemma ex_buf_init: "client_buf_mgmt_init 0 32 2 wsbuf0 always
    = (LE_SUCCESS, ex_buf, snd (snd (client_buf_mgmt_init 0 32 2 wsbuf0 always)))"
  by (simp add: ex_buf_def client_buf_mgmt_init_def malloc_def always_def numeral_2_eq_2 Let_def)

lemma ex_buf_ok: "wsb_inv 16 ex_buf" "ring_ok ex_buf" "used ex_buf = 0" "length (slots ex_buf) = 2" 
  using init_inv [OF ex_buf_init, of 16] by (simp_all add: wsbuf0_def)

text \<open>Pushing a message while a slot is free appends exactly this message to the queue.\<close>

theorem push_appends:
  assumes "wsb_inv lws_pre s" "ring_ok s" "length (pending lws_pre s) < length (slots s)"
    and "unat len \<le> length src" "unat len + 1 + lws_pre < 2 ^ 64" "reliable m"
  shows "\<exists>s' m'. client_buf_mgmt_push lws_pre (Some src) len t s m = Some (LE_SUCCESS, True, s', m') \<and>
           wsb_inv lws_pre s' \<and> ring_ok s' \<and>
           pending lws_pre s' = pending lws_pre s @ [(take (unat len) src, t)]"
proof -
  have "grows lws_pre len s \<Longrightarrow> fst (c_realloc m)" using assms(6) by simp
  from push_refines [OF assms(1,2) _ assms(4,5) this, of t] assms(3) show ?thesis
    unfolding length_pending by metis
qed

theorem push_appends_witness:
  "\<exists>s' m'. client_buf_mgmt_push 16 (Some ''hello'') 5 0 ex_buf always = Some (LE_SUCCESS, True, s', m') \<and>
     wsb_inv 16 s' \<and> ring_ok s' \<and> pending 16 s' = pending 16 ex_buf @ [(''hello'', 0)]"
  using push_appends [of 16 ex_buf 5 "''hello''" always 0] ex_buf_ok by simp



definition ex_full :: wsbuf where
  "ex_full = fst (enq_msg 16 (''b'', 0) (enq_msg 16 (''a'', 0) (ex_buf, always)))"

lemma ex_full_ok: "wsb_inv 16 ex_full" "ring_ok ex_full" "pending 16 ex_full = [(''a'', 0), (''b'', 0)]"
  "length (slots ex_full) = 2"
  "single_buf_size (g_ws_buf_state ex_full) = 32"
proof -
  have 0: "wsq_inv 16 (ex_buf, always)" "pending 16 ex_buf = []"
    using ex_buf_ok by (simp_all add: wsq_inv_def length_0_conv [symmetric] del: length_0_conv)
  note 1 = enq_msg_spec [of 16 "(ex_buf, always)" "(''a'', 0)"]
  note 2 = enq_msg_spec [of 16 "enq_msg 16 (''a'', 0) (ex_buf, always)" "(''b'', 0)"]
  show "wsb_inv 16 ex_full" "ring_ok ex_full" "pending 16 ex_full = [(''a'', 0), (''b'', 0)]" "length (slots ex_full) = 2"
    using 0 1 2 ex_buf_ok by (simp_all add: ex_full_def msg_fits_def wsq_inv_def)
  show "single_buf_size (g_ws_buf_state ex_full) = 32" by code_simp
qed

text \<open>A socket write that takes only part of the message leaves it at the head of the queue.\<close>

theorem pop_short_write_keeps:
  assumes "wsb_inv lws_pre s" "ring_ok s" "pending lws_pre s = x # xs"
    and "0 \<le> cb (fst x @ [NUL]) (buf_len (slot_at s 0)) (snd x)"
    and "cb (fst x @ [NUL]) (buf_len (slot_at s 0)) (snd x) \<le> int (length (fst x))"
  shows "\<exists>s'. client_buf_mgmt_pop lws_pre cb s = Some (LE_ERROR_UNKNOWN, Some (fst x @ [NUL], snd x), False, s') \<and>
           ring_ok s' \<and> pending lws_pre s' = x # xs"
proof -
  have hd: "slot_msg lws_pre (slot_at s 0) = x" "buf_len (slot_at s 0) \<noteq> 0"
     "length (fst x) + 1 = unat (buf_len (slot_at s 0))"
    using hd_pending [OF assms(1)] assms(3) by simp_all
  have ty: "mtype (slot_at s 0) = snd x" 
    using hd(1) by (auto simp: slot_msg_def split: option.splits)
  define r where "r = cb (fst x @ [NUL]) (buf_len (slot_at s 0)) (snd x)"
  have r: "nat r < unat (buf_len (slot_at s 0))" "0 \<le> r" using assms(4,5) hd(3) by (auto simp: r_def)
  have "r < 2 ^ 64" using r unsigned_less [of "buf_len (slot_at s 0)", where ?'a = nat] by simp
  then have "size_of_int r < buf_len (slot_at s 0)"
    using r by (simp add: word_less_nat_alt unat_size_of_int)
  then have pop: "client_buf_mgmt_pop lws_pre cb s = Some (LE_ERROR_UNKNOWN, Some (fst x @ [NUL], snd x), False,
      s\<lparr>g_ws_buf_state := (g_ws_buf_state s)\<lparr>rd_index := int (rdi s mod length (slots s))\<rparr>\<rparr>)"
    using pop_slot [OF assms(1), of cb] hd ty by (simp add: r_def)
  show ?thesis
    using pop assms(2,3) ring_state_upd [of "s\<lparr>g_ws_buf_state := (g_ws_buf_state s)
        \<lparr>rd_index := int (rdi s mod length (slots s))\<rparr>\<rparr>" s] by simp
qed

text \<open>A socket write that fails with a negative return drops the message and is reported as success.\<close>

theorem pop_failed_write_drops:
  assumes "wsb_inv lws_pre s" "ring_ok s" "pending lws_pre s = x # xs" "length (fst x) < 2 ^ 31"
    and "cb (fst x @ [NUL]) (buf_len (slot_at s 0)) (snd x) = - 1"
  shows "\<exists>s'. client_buf_mgmt_pop lws_pre cb s = Some (LE_SUCCESS, Some (fst x @ [NUL], snd x), True, s') \<and>
           ring_ok s' \<and> pending lws_pre s' = xs"
proof -
  have "buf_len (slot_at s 0) \<le> size_of_int (- 1)" by (simp add: size_of_int_neg1)
  then show ?thesis
    using pop_refines [OF assms(1,2), of cb] assms(3,5) by (metis list.distinct(1) list.sel(1,3))
qed


lemma not_grows:
  assumes "wsb_inv lws_pre s" "unat len + 1 + lws_pre \<le> nat (single_buf_size (g_ws_buf_state s))"
  shows "\<not> grows lws_pre len s"
proof -
  have sz: "int lws_pre \<le> single_buf_size (g_ws_buf_state s)" "single_buf_size (g_ws_buf_state s) \<le> INT_MAX"
    using assms(1) by (simp_all add: wsb_inv_def Let_def)
  have "unat (len + 1) = unat len + 1"
    using assms(2) sz by (intro unat_Suc64) simp
  moreover have "unat (size_of_int (single_buf_size (g_ws_buf_state s) - int lws_pre))
             = nat (single_buf_size (g_ws_buf_state s) - int lws_pre)"
    using sz by (intro unat_size_of_int) auto
  ultimately show ?thesis using assms(2) sz by (simp add: grows_def word_less_nat_alt)
qed

theorem pop_short_write_keeps_witness:
  "\<exists>s'. client_buf_mgmt_pop 16 (\<lambda>_ _ _. 1) ex_full = Some (LE_ERROR_UNKNOWN, Some (''a'' @ [NUL], 0), False, s') \<and>
     ring_ok s' \<and> pending 16 s' = [(''a'', 0), (''b'', 0)]"
  using pop_short_write_keeps [OF ex_full_ok(1,2,3), of "\<lambda>_ _ _. 1"] by simp

theorem pop_failed_write_drops_witness:
  "\<exists>s'. client_buf_mgmt_pop 16 (\<lambda>_ _ _. - 1) ex_full = Some (LE_SUCCESS, Some (''a'' @ [NUL], 0), True, s') \<and>
     ring_ok s' \<and> pending 16 s' = [(''b'', 0)]"
  using pop_failed_write_drops [OF ex_full_ok(1,2,3), of "\<lambda>_ _ _. - 1"] by simp

text \<open>A push into a full buffer is not refused: it overwrites the oldest pending message, and
  the new message takes its place at the head of the queue.\<close>

theorem push_overrun:
  assumes "wsb_inv lws_pre s" "ring_ok s" "pending lws_pre s = x # xs"
    and "length (pending lws_pre s) = length (slots s)"
    and "unat len \<le> length src" "unat len + 1 + lws_pre \<le> nat (single_buf_size (g_ws_buf_state s))"
  shows "\<exists>s' m'. client_buf_mgmt_push lws_pre (Some src) len t s m = Some (LE_SUCCESS, True, s', m') \<and>
           pending lws_pre s' = (take (unat len) src, t) # xs"
proof -
  define n r where "n = length (slots s)" and "r = rdi s mod n"
  have full: "used s = n" using assms(4) by (simp add: n_def)
  have n: "0 < n" using assms(3,4) by (cases "slots s") (simp_all add: n_def)
  have r: "r < n" "wri s mod n = r" using n assms(2) full by (simp_all add: r_def ring_ok_def n_def)
  have "single_buf_size (g_ws_buf_state s) \<le> INT_MAX" using assms(1) by (simp add: wsb_inv_def Let_def)
  then have small: "unat len + 1 + lws_pre < 2 ^ 64" using assms(6) by simp
  have ng: "\<not> grows lws_pre len s" using not_grows [OF assms(1,6)] .
  obtain it where push: "client_buf_mgmt_push lws_pre (Some src) len t s m =
       Some (LE_SUCCESS, True, \<lparr>g_ws_buf_state = (g_ws_buf_state s)\<lparr>wr_index := int r + 1\<rparr>,
              g_ws_buf = Some ((slots s)[r := it])\<rparr>, m)"
    and it: "slot_msg lws_pre it = (take (unat len) src, t)" "buf_len it = len + 1"
    using push_slot [OF assms(1) _ assms(5) small, of m t] ng r by (auto simp: n_def)
  define s' where "s' = \<lparr>g_ws_buf_state = (g_ws_buf_state s)\<lparr>wr_index := int r + 1\<rparr>, g_ws_buf = Some ((slots s)[r := it])\<rparr>"
  have s': "slots s' = (slots s)[r := it]" "rdi s' = rdi s" by (simp_all add: s'_def)
  have pos: "buf_len it \<noteq> 0"
    using it(2) unat_Suc64 [of len] small by (metis add_is_0 add_lessD1 unat_0 zero_neq_one)
  have "buf_len (slot_at s' i) \<noteq> 0" if "i < n" for i
    using that full pos used_nonempty [of i s] ring_nth_update [of i "slots s" 0 "rdi s" it] n
    by (auto simp: slot_at_def s' r_def n_def)
  then have used': "used s' = n" by (intro used_eqI) (simp_all add: s' n_def)
  have "ring_list (slots s') (Suc r) (n - 1) = ring_list (slots s) (Suc r) (n - 1)"
    unfolding s'(1)
  proof (rule ring_list_outside)
    fix i assume "i < n - 1"
    then have "(rdi s + Suc i) mod n \<noteq> (rdi s + 0) mod n"
      using ring_mod_inj [of "rdi s" "Suc i" n 0] by linarith
    then show "(Suc r + i) mod length (slots s) \<noteq> r"
      using ring_mod_shift [of "rdi s" n i] by (simp add: r_def n_def)
  qed
  moreover have "ring_list xs (Suc (rdi s)) k = ring_list xs (Suc r) k" if "length xs = n" for k and xs :: "msg_buf_item list"
    using that by (metis mod_Suc_eq ring_list_mod r_def)
  ultimately have "pending lws_pre s' = slot_msg lws_pre it # tl (pending lws_pre s)"
    using n r full used' by (simp add: pending_def ring_list_deq s' n_def r_def)
  then show ?thesis using push it assms(3) by (auto simp: s'_def)
qed

theorem push_overrun_witness:
  "\<exists>s' m'. client_buf_mgmt_push 16 (Some ''new'') 3 0 ex_full always = Some (LE_SUCCESS, True, s', m') \<and>
     pending 16 s' = [(''new'', 0), (''b'', 0)]"
  using push_overrun [OF ex_full_ok(1,2,3), of 3 "''new''" 0 always] ex_full_ok by simp

text \<open>On a slot whose old message was never taken out and is longer than the enlarged block for
  the new one, clearing the old message writes past the end of the block.\<close>

theorem push_stale_slot_overflows:
  assumes "wsb_inv lws_pre s" "grows lws_pre len s" "reliable m"
    and "unat len + 1 + lws_pre < unat (buf_len (slots s ! (wri s mod length (slots s))))"
  shows "client_buf_mgmt_push lws_pre (Some src) len t s m = None"
proof -
  from assms(1) obtain items where items: "g_ws_buf s = Some items" "items \<noteq> []" "slots s = items"
    and st: "max_buf_cnt (g_ws_buf_state s) = int (length items)"
      "wri s \<le> length items" "0 \<le> wr_index (g_ws_buf_state s)"
    by (rule wsb_invD)
  define w where "w = wri s mod length items"
  have w: "w < length items" using items by (simp add: w_def)
  have wr: "nat (if max_buf_cnt (g_ws_buf_state s) \<le> wr_index (g_ws_buf_state s) then 0 else wr_index (g_ws_buf_state s)) = w"
    using st by (cases "wri s = length items") (auto simp: w_def le_less nat_less_iff)
  obtain m' where re: "c_realloc m = (True, m')" using assms(3) reliable_realloc [of m] by (metis prod.collapse)
  have len: "unat (len + 1) = unat len + 1"
    using assms(4) unsigned_less [of "buf_len (slots s ! (wri s mod length (slots s)))", where ?'a = nat]
    by (intro unat_Suc64) simp
  have lenpre: "unat (len + 1 + of_nat lws_pre) = unat len + 1 + lws_pre"
    using assms(4) unsigned_less [of "buf_len (slots s ! (wri s mod length (slots s)))", where ?'a = nat] len
    by (simp add: unat_word_ariths(1) [of "len + 1"] unat_of_nat)
  have "store_msg lws_pre src (len + 1) t
          ((items ! w)\<lparr>buf := Some (replicate (unat (len + 1 + of_nat lws_pre)) NUL)\<rparr>) = None"
    using assms(4) items lenpre by (simp add: store_msg_def blit_def w_def)
  then show ?thesis
    using items w wr assms(2) re
    by (auto simp: client_buf_mgmt_push_def rd_Some grows_def Let_def split: if_splits)
qed

definition ex_stale :: wsbuf where
  "ex_stale = fst (enq_msg 16 (replicate 50 (CHR ''x''), 0)
                     (fst (snd (client_buf_mgmt_init 0 32 1 wsbuf0 always)), always))"

theorem push_stale_slot_overflows_witness:
  "client_buf_mgmt_push 16 (Some (replicate 20 (CHR ''y''))) 20 0 ex_stale always = None"
proof (rule push_stale_slot_overflows)
  show "wsb_inv 16 ex_stale" by code_simp
  show "grows 16 20 ex_stale" by code_simp
  show "reliable always" by simp
  show "unat (20 :: size_t) + 1 + 16 < unat (buf_len (slots ex_stale ! (wri ex_stale mod length (slots ex_stale))))"
    by code_simp
qed

text \<open>Closing the connection resets both indices but clears only the first eight slots: the
  buffer keeps its discipline only when nothing was stored behind them.\<close>

theorem clear_keeps_later_slots:
  assumes "wsb_inv lws_pre s" "MAX_MSG_BUF_COUNT \<le> length (slots s)"
  shows "\<exists>s'. buf_mgmt_client_clear_msg s = Some s' \<and> wsb_inv lws_pre s' \<and> pending lws_pre s' = [] \<and>
           (ring_ok s' \<longleftrightarrow> (\<forall>i \<in> {MAX_MSG_BUF_COUNT..<length (slots s)}. buf_len (slots s ! i) = 0))"
proof -
  from assms(1) obtain items where items: "g_ws_buf s = Some items" "slots s = items"
    by (rule wsb_invD) auto
  define s' where "s' = \<lparr>g_ws_buf_state = (g_ws_buf_state s)\<lparr>wr_index := 0, rd_index := 0\<rparr>,
      g_ws_buf = Some (map (\<lambda>it. it\<lparr>buf_len := 0\<rparr>) (take MAX_MSG_BUF_COUNT items) @ drop MAX_MSG_BUF_COUNT items)\<rparr>"
  have at: "buf_len (slot_at s' i) = (if i < MAX_MSG_BUF_COUNT then 0 else buf_len (items ! i))" if "i < length items" for i
    using that assms(2) items by (auto simp: slot_at_def s'_def nth_append)
  have len: "length (slots s') = length items" using assms(2) items by (simp add: s'_def)
  have "used s' = 0" using at [of 0] assms(2) items len
    by (intro used_eqI) (auto simp: MAX_MSG_BUF_COUNT_def)
  moreover have "ring_ok s' \<longleftrightarrow> (\<forall>i \<in> {MAX_MSG_BUF_COUNT..<length items}. buf_len (items ! i) = 0)"
    using \<open>used s' = 0\<close> at len by (auto simp: ring_ok_def s'_def)
  moreover have "slot_ok p k it \<Longrightarrow> slot_ok p k (it\<lparr>buf_len := 0\<rparr>)" for p k it
    by (auto simp: slot_ok_def split: option.splits)
  then have "list_all (slot_ok p k) items \<Longrightarrow> list_all (slot_ok p k) (slots s')" for p k
    by (auto simp: list_all_iff s'_def dest: in_set_takeD in_set_dropD)
  then have "wsb_inv lws_pre s'"
    using assms items len by (auto simp: wsb_inv_def Let_def) (auto simp: s'_def)
  ultimately show ?thesis
    using assms(2) items by (intro exI [of _ s']) (simp add: buf_mgmt_client_clear_msg_def s'_def pending_def)
qed


definition ex_nine :: wsbuf where
  "ex_nine = fst (foldl (\<lambda>sm c. enq_msg 16 ([c], 0) sm)
                   (fst (snd (client_buf_mgmt_init 0 32 9 wsbuf0 always)), always) ''ABCDEFGHI'')"

theorem clear_keeps_later_slots_witness:
  "\<exists>s'. buf_mgmt_client_clear_msg ex_nine = Some s' \<and> \<not> ring_ok s'"
proof -
  have "wsb_inv 16 ex_nine" by code_simp
  moreover have n: "length (slots ex_nine) = 9" by code_simp
  moreover have "buf_len (slots ex_nine ! 8) \<noteq> 0" by code_simp
  ultimately show ?thesis
    using clear_keeps_later_slots [of 16 ex_nine] by (force simp: MAX_MSG_BUF_COUNT_def)
qed

text \<open>A message of the closed connection that was stored behind the eighth slot is sent on the
  next connection: nine messages, a close, then eight new messages, and the ninth pop hands out
  the ninth message of the old connection.\<close>

theorem stale_message_resent:
  "\<exists>s. buf_mgmt_client_clear_msg ex_nine = Some s \<and> pending 16 s = [] \<and>
       fst (drive (enq_msg 16) (deq_msg 16) (s, always)
              (concat (replicate 8 [Enq (''n'', 0), Deq]) @ [Deq]))
       = replicate 8 (''n'', 0) @ [(''I'', 0)]"
proof -
  have "(case buf_mgmt_client_clear_msg ex_nine of None \<Rightarrow> False | Some s \<Rightarrow> pending 16 s = [] \<and>
       fst (drive (enq_msg 16) (deq_msg 16) (s, always)
              (concat (replicate 8 [Enq (''n'', 0), Deq]) @ [Deq]))
       = replicate 8 (''n'', 0) @ [(''I'', 0)])"
    by code_simp
  then show ?thesis by (auto split: option.splits)
qed

text \<open>Initialisation leaks nothing when it fails, and destroying the buffer gives back every
  block it allocated.\<close>

theorem init_destroy_balanced:
  assumes "g_ws_buf s = None" "client_buf_mgmt_init mret single cnt s m = (ret, s1, m1)"
    and "client_buf_mgmt_destroy s1 m1 = (ret', s2, m2)"
  shows "live m2 = live m \<and> g_ws_buf s2 = None"
  using init_spec [OF assms(2,1)] assms(3)
  by (auto simp: client_buf_mgmt_destroy_def c_free_def zero_item_def)

theorem init_destroy_balanced_witness:
  "live (snd (snd (client_buf_mgmt_destroy ex_buf (snd (snd (client_buf_mgmt_init 0 32 2 wsbuf0 always)))))) = live always"
  using init_destroy_balanced [OF _ ex_buf_init, of "fst (client_buf_mgmt_destroy ex_buf (snd (snd (client_buf_mgmt_init 0 32 2 wsbuf0 always))))"]
  by (simp add: wsbuf0_def prod_eq_iff)

end
