(* ===== verification/Ws_Client.thy ===== *)
theory Ws_Client
  imports Ws_Buffer
begin

text \<open>
  The websocket client, \<open>sdk/utility/ali_ws/ws_client.c\<close>, \<open>ws_client_callback.c\<close> and
  \<open>ws_client_network.c\<close>: initialisation and shutdown, the callback that libwebsockets calls from the
  network thread, and the loop of that thread. What libwebsockets does (the reason it calls with, the
  bytes it delivers, the results of its functions) is an argument. A block from \<open>malloc\<close> is a list of bytes,
  \<open>None\<close> for one never written.
\<close>

subsection \<open>State\<close>

record wsc_param_conn =
  url :: "string option"
  conn_timeout :: int
  ca_path :: "string option"
  cert_path :: "string option"
  key_path :: "string option"
  protocol :: "string option"

text \<open>Which of the callbacks are not \<open>NULL\<close>.\<close>

record wsc_param_cb =
  p_cb_establish :: bool
  p_cb_close :: bool
  p_cb_recv :: bool

record wsc_recv_tmpInfo =
  appendBuffer :: "char option list option"
  totalLen :: size_t

record wsc =
  g_cbs :: "wsc_param_cb option"
  recv_tmp :: wsc_recv_tmpInfo
  gwc_recv_tmpInfo :: wsc_recv_tmpInfo
  g_wsi :: bool
  force_exit :: bool
  out_msgs :: wsbuf

text \<open>\<open>recv_tmp\<close> is the memory of the connection that libwebsockets passes as \<open>user\<close>: zeroed when a connection is
  made (\<open>per_session_data_size\<close>), and released when it ends. The thread itself initialises and clears the
  static \<open>gwc_recv_tmpInfo\<close>.\<close>

definition no_fragment :: wsc_recv_tmpInfo where
  "no_fragment = \<lparr>appendBuffer = None, totalLen = 0\<rparr>"

text \<open>What the client does to the outside: the callbacks it makes, the messages it writes to the socket and the
  calls of \<open>lws_callback_on_writable\<close>.\<close>

datatype wsc_event =
  Estab | Closed | Recv "char option list option" size_t | Written string int | Want_write

definition notify_network :: "wsc \<Rightarrow> wsc_event list" where
  "notify_network s = (if g_wsi s then [Want_write] else [])"

subsection \<open>Initialisation, sending, shutdown (ws\_client.c)\<close>

definition wsc_init ::
    "int \<Rightarrow> int \<Rightarrow> wsc_param_conn option \<Rightarrow> wsc_param_cb option \<Rightarrow> wsc \<Rightarrow> mem \<Rightarrow> int \<times> wsc \<times> mem" where
  \<comment> \<open>\<open>mutex_ret\<close>, \<open>create_ret\<close>: the results of \<open>pthread_mutex_init\<close> and \<open>pthread_create\<close>\<close>
  "wsc_init mutex_ret create_ret pc cb s m =
     (case (pc, cb) of
        (Some c, Some cbs) \<Rightarrow>
          if url c = None then (LE_ERROR_INVAILD_PARAM, s, m)
          else
            (let (ok, m1) = malloc m in
             if \<not> ok then (LE_ERROR_ALLOCATING_MEM, s\<lparr>g_cbs := None\<rparr>, m1)
             else
               (let s1 = s\<lparr>g_cbs := Some cbs, force_exit := False\<rparr>;
                    (ret, b, m2) = client_buf_mgmt_init mutex_ret (1024 * 2) 1024 (out_msgs s1) m1;
                    s2 = s1\<lparr>out_msgs := b\<rparr> in
                if ret \<noteq> LE_SUCCESS then (ret, s2\<lparr>g_cbs := None\<rparr>, c_free 1 m2)
                else if create_ret = 0 then (LE_SUCCESS, s2, m2)
                else
                  (let (_, b', m3) = client_buf_mgmt_destroy b (c_free 1 m2) in
                   (LE_ERROR_UNKNOWN, s2\<lparr>g_cbs := None, out_msgs := b'\<rparr>, m3))))
      | _ \<Rightarrow> (LE_ERROR_INVAILD_PARAM, s, m))"

definition wsc_add_msg ::
    "nat \<Rightarrow> string option \<Rightarrow> size_t \<Rightarrow> int \<Rightarrow> wsc \<Rightarrow> mem \<Rightarrow> (int \<times> wsc_event list \<times> wsc \<times> mem) option" where
  "wsc_add_msg lws_pre msg len msg_type s m =
     (if msg = None \<or> len = 0 \<or> 1 < msg_type \<or> msg_type < 0 then Some (LE_ERROR_INVAILD_PARAM, [], s, m)
      else
        do { (ret, notified, b, m') \<leftarrow> client_buf_mgmt_push lws_pre msg len msg_type (out_msgs s) m;
             Some (ret, if notified then notify_network s else [], s\<lparr>out_msgs := b\<rparr>, m') })"

definition ws_client_destroy :: "wsc \<Rightarrow> mem \<Rightarrow> int \<times> wsc \<times> mem" where
  "ws_client_destroy s m =
     (let s1 = s\<lparr>force_exit := True\<rparr>;
          (s2, m1) = (if g_cbs s1 \<noteq> None then (s1\<lparr>g_cbs := None\<rparr>, c_free 1 m) else (s1, m));
          (ret, b, m2) = client_buf_mgmt_destroy (out_msgs s2) m1 in
      (ret, s2\<lparr>out_msgs := b\<rparr>, m2))"

subsection \<open>The callback (ws\_client\_callback.c)\<close>

text \<open>\<open>write\<close> is \<open>lws_write\<close>; \<open>usr\<close> tells whether the connection is not \<open>NULL\<close>.\<close>

definition cb_pop_msg :: "(string \<Rightarrow> size_t \<Rightarrow> int \<Rightarrow> int) \<Rightarrow> bool \<Rightarrow> string \<Rightarrow> size_t \<Rightarrow> int \<Rightarrow> int" where
  "cb_pop_msg write usr bf bf_len msg_type = (if \<not> usr then - 1 else write bf bf_len msg_type)"

definition resize_to :: "nat \<Rightarrow> 'a option list \<Rightarrow> 'a option list" where
  "resize_to n b = take n b @ replicate (n - length b) None"

definition recvframeAppend ::
    "char option list option \<Rightarrow> string \<Rightarrow> size_t \<Rightarrow> size_t \<Rightarrow> mem \<Rightarrow> (int \<times> char option list option \<times> mem) option" where
  \<comment> \<open>result: return value, \<open>*appendBuffer\<close>\<close>
  "recvframeAppend append_buffer input preLen len m =
     (let n = unat (preLen + len + 1);
          (ok, m1) = (if append_buffer = None then malloc m else c_realloc m);
          tmp = (case append_buffer of None \<Rightarrow> replicate n None | Some b \<Rightarrow> resize_to n b) in
      if \<not> ok then Some (0, append_buffer, m1)
      else
        do { _ \<leftarrow> (if unat len \<le> length input then Some () else None);
             tmp1 \<leftarrow> blit (unat preLen) (map Some (take (unat len) input)) tmp;
             tmp2 \<leftarrow> blit (unat preLen + unat len) [Some NUL] tmp1;
             Some (signed_take_bit 31 (int (unat len)), Some tmp2, m1) })"

datatype lws_reason =
  Client_established | Client_writeable "string \<Rightarrow> size_t \<Rightarrow> int \<Rightarrow> int" | Client_receive bool string
  | Client_connection_error | Client_closed | Other_reason

abbreviation has_cb :: "(wsc_param_cb \<Rightarrow> bool) \<Rightarrow> wsc \<Rightarrow> bool" where
  "has_cb f s \<equiv> (case g_cbs s of None \<Rightarrow> False | Some c \<Rightarrow> f c)"

text \<open>The fragment is appended; for the final one the message is delivered and the buffer given back.\<close>

definition append_fragment :: "string \<Rightarrow> wsc \<Rightarrow> mem \<Rightarrow> (wsc \<times> mem) option" where
  "append_fragment input s m =
     (let t = recv_tmp s in
      do { (n, b, m1) \<leftarrow> recvframeAppend (appendBuffer t) input (totalLen t) (of_nat (length input)) m;
           Some (s\<lparr>recv_tmp := \<lparr>appendBuffer = b, totalLen = totalLen t + size_of_int n\<rparr>\<rparr>, m1) })"

definition callback_dumb_increment ::
    "nat \<Rightarrow> lws_reason \<Rightarrow> wsc \<Rightarrow> mem \<Rightarrow> (int \<times> wsc_event list \<times> wsc \<times> mem) option" where
  "callback_dumb_increment lws_pre reason s m =
     (case reason of
        Client_established \<Rightarrow> Some (0, if has_cb p_cb_establish s then [Estab] else [], s, m)
      | Client_writeable write \<Rightarrow>
          do { (_, msg, notified, b) \<leftarrow> client_buf_mgmt_pop lws_pre (cb_pop_msg write True) (out_msgs s);
               Some (0, (case msg of None \<Rightarrow> [] | Some (bytes, t) \<Rightarrow> [Written bytes t])
                        @ (if notified then notify_network s else []), s\<lparr>out_msgs := b\<rparr>, m) }
      | Client_receive is_final input \<Rightarrow>
          do { (s1, m1) \<leftarrow> append_fragment input s m;
               if \<not> is_final then Some (0, [], s1, m1)
               else
                 (let t = recv_tmp s1;
                      ev = (if has_cb p_cb_recv s1 then [Recv (appendBuffer t) (totalLen t)] else []);
                      m2 = (if appendBuffer t \<noteq> None then c_free 1 m1 else m1) in
                  Some (0, ev, s1\<lparr>recv_tmp := no_fragment\<rparr>, m2)) }
      | Client_connection_error \<Rightarrow>
          Some (0, if has_cb p_cb_close s then [Closed] else [], s\<lparr>g_wsi := False\<rparr>, m)
      | Client_closed \<Rightarrow>
          do { b \<leftarrow> buf_mgmt_client_clear_msg (out_msgs s);
               Some (- 1, if has_cb p_cb_close s then [Closed] else [], s\<lparr>g_wsi := False, out_msgs := b\<rparr>, m) }
      | Other_reason \<Rightarrow> Some (0, [], s, m))"

text \<open>A sequence of such calls, with the events of all of them.\<close>

fun callbacks :: "nat \<Rightarrow> lws_reason list \<Rightarrow> wsc \<Rightarrow> mem \<Rightarrow> (wsc_event list \<times> wsc \<times> mem) option" where
  "callbacks lws_pre [] s m = Some ([], s, m)"
| "callbacks lws_pre (r # rs) s m =
     do { (_, ev, s1, m1) \<leftarrow> callback_dumb_increment lws_pre r s m;
          (evs, s2, m2) \<leftarrow> callbacks lws_pre rs s1 m1;
          Some (ev @ evs, s2, m2) }"

subsection \<open>The network thread (ws\_client\_network.c)\<close>

text \<open>The part of \<open>thread_wsc_network\<close> before its loop: what it passes to libwebsockets, or the end of the process.
  \<open>parse_uri\<close> is \<open>lws_parse_uri\<close> (scheme, address, port), \<open>None\<close> when it fails.\<close>

record net_config =
  use_ssl :: bool
  client_ssl_ca :: "string option"
  client_ssl_cert :: "string option"
  client_ssl_key :: "string option"
  timeout_secs :: int
  ws_ping_pong_interval :: int
  net_address :: string
  net_port :: int
  net_protocol :: string

datatype net_start = Exit_process | Serve net_config

definition DEFAULT_LWS_PROTOCOL :: string where
  "DEFAULT_LWS_PROTOCOL = ''alibaba-iot-linkedge-protocol''"

definition thread_setup ::
    "(string \<Rightarrow> (string \<times> string \<times> int) option) \<Rightarrow> (net_config \<Rightarrow> bool) \<Rightarrow> wsc_param_conn option \<Rightarrow> wsc \<Rightarrow> mem \<Rightarrow>
     (net_start \<times> wsc \<times> mem) option" where
  \<comment> \<open>\<open>context_ok\<close>: whether \<open>lws_create_context\<close> succeeds\<close>
  "thread_setup parse_uri context_ok param s m =
     (case param of
        None \<Rightarrow> Some (Exit_process, s, m)
      | Some p \<Rightarrow>
          do { u \<leftarrow> url p;
               let (ok, m1) = malloc m;
               _ \<leftarrow> (if ok then Some () else None);
               case parse_uri u of
                 None \<Rightarrow> Some (Exit_process, s, m1)
               | Some (prot, address, port) \<Rightarrow>
                   (let ssl = (prot = ''wss'') in
                    do { ca \<leftarrow> (if \<not> ssl then Some None
                               else case ca_path p of None \<Rightarrow> None | Some c \<Rightarrow> Some (if c = [] then None else Some c));
                         let cfg = \<lparr>use_ssl = ssl, client_ssl_ca = ca,
                                    client_ssl_cert = (if ssl then cert_path p else None),
                                    client_ssl_key = (if ssl then key_path p else None),
                                    timeout_secs = (if 1 < conn_timeout p then conn_timeout p - 1 else 1),
                                    ws_ping_pong_interval = (if 1 \<le> conn_timeout p then conn_timeout p else 1),
                                    net_address = address, net_port = port,
                                    net_protocol = (case protocol p of None \<Rightarrow> DEFAULT_LWS_PROTOCOL | Some q \<Rightarrow> q)\<rparr>;
                         let s1 = s\<lparr>gwc_recv_tmpInfo := no_fragment\<rparr>;
                         Some (if context_ok cfg then (Serve cfg, s1, m1) else (Exit_process, s1, c_free 1 m1)) }) })"

text \<open>
  One round of the loop: what the environment does in it. \<open>forced\<close>: \<open>force_exit\<close> is set when the condition is
  tested; \<open>reasons\<close>: the callbacks made inside the call of libwebsockets; \<open>connected\<close>: what
  \<open>lws_client_connect_via_info\<close> leaves in \<open>g_wsi\<close>; \<open>service_ret\<close>: the result of \<open>lws_service\<close>.
\<close>

record net_round =
  forced :: bool
  reasons :: "lws_reason list"
  connected :: bool
  service_ret :: int

text \<open>The loop, along a list of rounds; the result tells whether it was left.\<close>

fun net_loop :: "nat \<Rightarrow> net_round list \<Rightarrow> int \<Rightarrow> wsc \<Rightarrow> mem \<Rightarrow> (bool \<times> wsc_event list \<times> wsc \<times> mem) option" where
  "net_loop lws_pre [] n s m = Some (n < 0 \<or> force_exit s, [], s, m)"
| "net_loop lws_pre (r # rs) n s m =
     (let s0 = (if forced r then s\<lparr>force_exit := True\<rparr> else s) in
      if n < 0 \<or> force_exit s0 then Some (True, [], s0, m)
      else
        do { (ev, s1, m1) \<leftarrow> callbacks lws_pre (reasons r) s0 m;
             (left, evs, s2, m2) \<leftarrow>
               (if \<not> g_wsi s0 then net_loop lws_pre rs n (s1\<lparr>g_wsi := connected r, recv_tmp := no_fragment\<rparr>) m1
                else net_loop lws_pre rs (service_ret r) s1 m1);
             Some (left, ev @ evs, s2, m2) })"

text \<open>Behind the loop.\<close>

definition thread_cleanup :: "wsc \<Rightarrow> mem \<Rightarrow> wsc \<times> mem" where
  "thread_cleanup s m =
     (let m1 = (if appendBuffer (gwc_recv_tmpInfo s) \<noteq> None then c_free 1 m else m) in
      (s\<lparr>g_wsi := False, gwc_recv_tmpInfo := (gwc_recv_tmpInfo s)\<lparr>appendBuffer := None\<rparr>\<rparr>, c_free 1 m1))"

subsection \<open>Reassembly\<close>

text \<open>What was received of the current message.\<close>

definition holds_prefix :: "wsc_recv_tmpInfo \<Rightarrow> string \<Rightarrow> bool" where
  "holds_prefix t xs \<longleftrightarrow> totalLen t = of_nat (length xs) \<and> length xs + 1 < 2 ^ 64 \<and>
     appendBuffer t = (if appendBuffer t = None \<and> xs = [] then None else Some (map Some xs @ [Some NUL]))"

lemma holds_nothing [simp]: "holds_prefix no_fragment []"
  by (simp add: holds_prefix_def no_fragment_def)

lemma no_block [simp]: "appendBuffer no_fragment = None" "totalLen no_fragment = 0"
  by (simp_all add: no_fragment_def)

lemma unat_small: "n < 2 ^ 64 \<Longrightarrow> unat (of_nat n :: size_t) = n"
  by (simp add: unat_of_nat take_bit_nat_eq_self)

lemma size_of_int_of_nat: "size_of_int (int n) = of_nat n"
  by (simp add: size_of_int_def)

text \<open>Writing behind the prefix, in a block that is as long as needed.\<close>

lemma append_blits:
  assumes "tmp = map Some xs @ rest" "length tmp = length xs + length ys + 1"
  shows "do { t1 \<leftarrow> blit (length xs) (map Some ys) tmp; blit (length xs + length ys) [Some NUL] t1 }
    = Some (map Some (xs @ ys) @ [Some NUL])"
proof -
  have "length rest = length ys + 1" using assms by simp
  then obtain rest1 r where "rest = rest1 @ [r]" "length rest1 = length ys" by (metis append_butlast_last_id length_butlast diff_add_inverse2 list.size(3) add_is_0 one_neq_zero)
  then show ?thesis using assms by (simp add: blit_def)
qed

lemma recvframe_ok:
  assumes "holds_prefix t xs" "length xs + length ys + 1 < 2 ^ 64" "length ys < 2 ^ 31"
    and "alloc = (if appendBuffer t = None then malloc m else c_realloc m)"
  shows "recvframeAppend (appendBuffer t) ys (totalLen t) (of_nat (length ys)) m =
    (if fst alloc then Some (int (length ys), Some (map Some (xs @ ys) @ [Some NUL]), snd alloc)
     else Some (0, appendBuffer t, snd alloc))"
proof -
  obtain ok m1 where al: "(if appendBuffer t = None then malloc m else c_realloc m) = (ok, m1)" "alloc = (ok, m1)"
    using assms(4) by (metis surj_pair)
  have len: "totalLen t = of_nat (length xs)" using assms(1) by (simp add: holds_prefix_def)
  have n: "unat (totalLen t + of_nat (length ys) + 1) = length xs + length ys + 1" "unat (totalLen t) = length xs"
    "unat (of_nat (length ys) :: size_t) = length ys"
    using unat_small [of "length xs + length ys + 1"] unat_small [of "length xs"] unat_small [of "length ys"] assms(2) len
    by (simp_all add: add_ac)
  define tmp where "tmp = (case appendBuffer t of None \<Rightarrow> replicate (length xs + length ys + 1) None
     | Some b \<Rightarrow> resize_to (length xs + length ys + 1) b)"
  have "\<exists>rest. tmp = map Some xs @ rest \<and> length tmp = length xs + length ys + 1"
  proof (cases "appendBuffer t")
    case None
    then have "xs = []" using assms(1) by (auto simp: holds_prefix_def split: if_splits)
    then show ?thesis using None by (simp add: tmp_def)
  next
    case (Some b)
    then have "b = map Some xs @ [Some NUL]" using assms(1) by (auto simp: holds_prefix_def)
    then show ?thesis using Some by (cases "length ys") (simp_all add: tmp_def resize_to_def)
  qed
  then obtain rest where "tmp = map Some xs @ rest" "length tmp = length xs + length ys + 1" by blast
  from append_blits [OF this] obtain t1 where "blit (length xs) (map Some ys) tmp = Some t1"
    "blit (length xs + length ys) [Some NUL] t1 = Some (map Some (xs @ ys) @ [Some NUL])"
    by (auto split: bind_splits)
  moreover have "signed_take_bit 31 (int (length ys)) = int (length ys)"
    using assms(3) by (intro signed_take_bit_int_eq_self) simp_all
  ultimately show ?thesis
    unfolding recvframeAppend_def Let_def n al prod.case by (simp add: tmp_def)
qed

lemma append_fragment_ok:
  assumes "holds_prefix (recv_tmp s) xs" "length xs + length ys + 1 < 2 ^ 64" "length ys < 2 ^ 31" "reliable m"
  obtains t m' where "append_fragment ys s m = Some (s\<lparr>recv_tmp := t\<rparr>, m')" "holds_prefix t (xs @ ys)" "appendBuffer t \<noteq> None"
    "reliable m'" "live m' = live m + (if appendBuffer (recv_tmp s) = None then 1 else 0)"
proof -
  define alloc where "alloc = (if appendBuffer (recv_tmp s) = None then malloc m else c_realloc m)"
  have al: "fst alloc" "reliable (snd alloc)" "live (snd alloc) = live m + (if appendBuffer (recv_tmp s) = None then 1 else 0)"
    using assms(4) malloc_live [of m True "snd (malloc m)"] prod.collapse [of "malloc m"] by (simp_all add: alloc_def)
  define t where "t = \<lparr>appendBuffer = Some (map Some (xs @ ys) @ [Some NUL]), totalLen = totalLen (recv_tmp s) + of_nat (length ys)\<rparr>"
  have "append_fragment ys s m = Some (s\<lparr>recv_tmp := t\<rparr>, snd alloc)"
    using recvframe_ok [OF assms(1-3) alloc_def] al(1) by (simp add: append_fragment_def t_def size_of_int_of_nat)
  moreover have "holds_prefix t (xs @ ys)" using assms(1,2) by (simp add: holds_prefix_def t_def)
  moreover have "appendBuffer t \<noteq> None" by (simp add: t_def)
  ultimately show thesis using that al by blast
qed

lemma callbacks_append:
  "callbacks l (rs @ rs') s m = do { (ev, s1, m1) \<leftarrow> callbacks l rs s m; (ev', s2, m2) \<leftarrow> callbacks l rs' s1 m1; Some (ev @ ev', s2, m2) }"
  by (induction rs arbitrary: s m) (auto simp: Option.bind_assoc split: bind_splits)

text \<open>A message is its fragments, the last one apart.\<close>

type_synonym fragments = "string list \<times> string"

definition whole_msg :: "fragments \<Rightarrow> string" where
  "whole_msg f = concat (fst f) @ snd f"

definition deliveries :: "fragments \<Rightarrow> lws_reason list" where
  "deliveries f = map (Client_receive False) (fst f) @ [Client_receive True (snd f)]"

definition fragments_ok :: "fragments \<Rightarrow> bool" where
  "fragments_ok f \<longleftrightarrow> list_all (\<lambda>x. length x < 2 ^ 31) (snd f # fst f) \<and> length (whole_msg f) + 1 < 2 ^ 64"

definition delivered :: "fragments \<Rightarrow> wsc_event" where
  "delivered f = Recv (Some (map Some (whole_msg f) @ [Some NUL])) (of_nat (length (whole_msg f)))"

lemma receive_message:
  assumes "holds_prefix (recv_tmp s) xs" "has_cb p_cb_recv s" "reliable m" "list_all (\<lambda>x. length x < 2 ^ 31) (lst # frs)"
    and "length (xs @ concat frs @ lst) + 1 < 2 ^ 64"
  shows "\<exists>m'. callbacks l (deliveries (frs, lst)) s m = Some ([Recv (Some (map Some (xs @ concat frs @ lst) @ [Some NUL]))
       (of_nat (length (xs @ concat frs @ lst)))], s\<lparr>recv_tmp := no_fragment\<rparr>, m') \<and> reliable m' \<and>
     live m' = live m - (if appendBuffer (recv_tmp s) = None then 0 else 1)"
  using assms
proof (induction frs arbitrary: xs s m)
  case Nil
  obtain t m1 where 1: "append_fragment lst s m = Some (s\<lparr>recv_tmp := t\<rparr>, m1)" "holds_prefix t (xs @ lst)" "appendBuffer t \<noteq> None"
    "reliable m1" "live m1 = live m + (if appendBuffer (recv_tmp s) = None then 1 else 0)"
    using append_fragment_ok [OF Nil.prems(1) _ _ Nil.prems(3), of lst] Nil.prems(4,5) by auto
  then have "appendBuffer t = Some (map Some (xs @ lst) @ [Some NUL])" "totalLen t = of_nat (length (xs @ lst))"
    by (auto simp: holds_prefix_def)
  then show ?case using 1 Nil.prems(2) by (simp add: deliveries_def callback_dumb_increment_def)
next
  case (Cons f frs)
  obtain t m1 where 1: "append_fragment f s m = Some (s\<lparr>recv_tmp := t\<rparr>, m1)" "holds_prefix t (xs @ f)" "appendBuffer t \<noteq> None"
    "reliable m1" "live m1 = live m + (if appendBuffer (recv_tmp s) = None then 1 else 0)"
    using append_fragment_ok [OF Cons.prems(1) _ _ Cons.prems(3), of f] Cons.prems(4,5) by auto
  have "\<exists>m'. callbacks l (deliveries (frs, lst)) (s\<lparr>recv_tmp := t\<rparr>) m1 =
      Some ([Recv (Some (map Some ((xs @ f) @ concat frs @ lst) @ [Some NUL])) (of_nat (length ((xs @ f) @ concat frs @ lst)))],
        s\<lparr>recv_tmp := t, recv_tmp := no_fragment\<rparr>, m') \<and> reliable m' \<and>
      live m' = live m1 - (if appendBuffer (recv_tmp (s\<lparr>recv_tmp := t\<rparr>)) = None then 0 else 1)"
    by (rule Cons.IH) (use 1 Cons.prems in auto)
  then show ?case using 1 by (auto simp: deliveries_def callback_dumb_increment_def)
qed

lemma receive_messages:
  assumes "list_all fragments_ok fs" "recv_tmp s = no_fragment" "has_cb p_cb_recv s" "reliable m"
  shows "\<exists>m'. callbacks l (concat (map deliveries fs)) s m = Some (map delivered fs, s, m') \<and> reliable m' \<and> live m' = live m"
  using assms
proof (induction fs arbitrary: m)
  case (Cons f fs)
  obtain m1 where 1: "callbacks l (deliveries f) s m = Some ([delivered f], s\<lparr>recv_tmp := no_fragment\<rparr>, m1)" "reliable m1" "live m1 = live m"
    using receive_message [of s "[]" m "snd f" "fst f" l] Cons.prems
    by (auto simp: fragments_ok_def whole_msg_def delivered_def)
  have same: "s\<lparr>recv_tmp := no_fragment\<rparr> = s" using Cons.prems(2) by simp
  obtain m2 where "callbacks l (concat (map deliveries fs)) s m1 = Some (map delivered fs, s, m2)" "reliable m2" "live m2 = live m1"
    using Cons.IH [of m1] Cons.prems 1(2) by auto
  then show ?case using 1 by (simp add: callbacks_append same)
qed simp

subsection \<open>Properties\<close>

text \<open>C24: Reassembly: for every sequence of messages, each cut into any number of fragments in any way (an empty
  fragment included), the receive callback is called once for each message, with exactly its bytes, terminated, and
  its length; afterwards the connection holds no fragment and no block.\<close>

theorem fragments_reassembled:
  assumes "list_all fragments_ok fs" "recv_tmp s = no_fragment" "has_cb p_cb_recv s" "reliable m"
  shows "\<exists>m'. callbacks lws_pre (concat (map deliveries fs)) s m = Some (map delivered fs, s, m') \<and> live m' = live m"
  using receive_messages [OF assms] by blast

definition all_cbs :: wsc_param_cb where
  "all_cbs = \<lparr>p_cb_establish = True, p_cb_close = True, p_cb_recv = True\<rparr>"

definition idle_client :: wsc where
  "idle_client = \<lparr>g_cbs = Some all_cbs, recv_tmp = no_fragment, gwc_recv_tmpInfo = no_fragment, g_wsi = True,
     force_exit = False, out_msgs = wsbuf0\<rparr>"

lemma fragments_reassembled_witness:
  "\<exists>m'. callbacks 16 [Client_receive False ''ab'', Client_receive False '''', Client_receive True ''c'', Client_receive True ''[]''] idle_client always =
     Some ([Recv (Some (map Some ''abc'' @ [Some NUL])) 3, Recv (Some (map Some ''[]'' @ [Some NUL])) 2], idle_client, m')"
proof -
  have "list_all fragments_ok [([''ab'', ''''], ''c''), ([], ''[]'')]" by (simp add: fragments_ok_def whole_msg_def)
  moreover have "recv_tmp idle_client = no_fragment" "has_cb p_cb_recv idle_client" by (simp_all add: idle_client_def all_cbs_def)
  ultimately show ?thesis
    using fragments_reassembled [of _ idle_client always 16]
    by (fastforce simp: deliveries_def delivered_def whole_msg_def)
qed

text \<open>A fragment for which there is no memory is dropped, and nobody is told: when the allocation for a fragment in
  the middle of a message fails, the message is delivered without these bytes.\<close>

theorem lost_fragment_leaves_hole:
  assumes "recv_tmp s = no_fragment" "has_cb p_cb_recv s"
    and "orc m (calls m)" "\<not> orc m (Suc (calls m))" "orc m (Suc (Suc (calls m)))"
    and "length a + length c + 1 < 2 ^ 64" "length a + length b + 1 < 2 ^ 64" "length a < 2 ^ 31" "length b < 2 ^ 31" "length c < 2 ^ 31"
  shows "\<exists>m'. callbacks lws_pre [Client_receive False a, Client_receive False b, Client_receive True c] s m =
     Some ([Recv (Some (map Some (a @ c) @ [Some NUL])) (of_nat (length a + length c))], s, m')"
proof -
  define m1 where "m1 = m\<lparr>calls := Suc (calls m), live := live m + 1\<rparr>"
  define t where "t = \<lparr>appendBuffer = Some (map Some a @ [Some NUL]), totalLen = of_nat (length a)\<rparr>"
  have "malloc m = (True, m1)" using assms(3) by (simp add: malloc_def m1_def)
  then have 1: "append_fragment a s m = Some (s\<lparr>recv_tmp := t\<rparr>, m1)"
    using recvframe_ok [OF holds_nothing _ assms(8), of "malloc m" m] assms(1,6)
    by (simp add: append_fragment_def size_of_int_of_nat t_def)
  have t: "holds_prefix t a" "appendBuffer t \<noteq> None" using assms(6) by (simp_all add: holds_prefix_def t_def)
  define m2 where "m2 = m1\<lparr>calls := Suc (calls m1)\<rparr>"
  have "c_realloc m1 = (False, m2)" using assms(4) by (simp add: c_realloc_def m1_def m2_def)
  then have 2: "append_fragment b (s\<lparr>recv_tmp := t\<rparr>) m1 = Some (s\<lparr>recv_tmp := t\<rparr>, m2)"
    using recvframe_ok [OF t(1) _ assms(9), of "c_realloc m1" m1] assms(7) t(2)
    by (simp add: append_fragment_def size_of_int_def)
  define m3 where "m3 = m2\<lparr>calls := Suc (calls m2)\<rparr>"
  have "c_realloc m2 = (True, m3)" using assms(5) by (simp add: c_realloc_def m1_def m2_def m3_def)
  then have 3: "append_fragment c (s\<lparr>recv_tmp := t\<rparr>) m2 =
      Some (s\<lparr>recv_tmp := \<lparr>appendBuffer = Some (map Some (a @ c) @ [Some NUL]), totalLen = of_nat (length a + length c)\<rparr>\<rparr>, m3)"
    using recvframe_ok [OF t(1) _ assms(10), of "c_realloc m2" m2] assms(6) t(2)
    by (simp add: append_fragment_def size_of_int_of_nat) (simp add: t_def)
  have "s\<lparr>recv_tmp := no_fragment\<rparr> = s" using assms(1) by simp
  then show ?thesis using 1 2 3 assms(2) by (simp add: callback_dumb_increment_def)
qed

definition fails_second_alloc :: mem where
  "fails_second_alloc = \<lparr>orc = (\<lambda>k. k \<noteq> 1), calls = 0, live = 0\<rparr>"

lemma lost_fragment_leaves_hole_witness:
  "\<exists>m'. callbacks 16 [Client_receive False ''ab'', Client_receive False ''cd'', Client_receive True ''ef''] idle_client fails_second_alloc =
     Some ([Recv (Some (map Some ''abef'' @ [Some NUL])) 4], idle_client, m')"
  using lost_fragment_leaves_hole [of idle_client fails_second_alloc "''ab''" "''ef''" "''cd''" 16]
  by (simp add: idle_client_def all_cbs_def fails_second_alloc_def)

text \<open>The client gives back what it takes: \<open>wsc_init\<close> either fails, and then it leaves nothing allocated and no
  callbacks, or succeeds with its 1026 blocks and an empty buffer of 1024 slots, and then \<open>ws_client_destroy\<close>
  frees all of them, forgets the callbacks and tells the network thread to stop.\<close>

theorem client_init_destroy_balanced:
  assumes "wsc_init mutex_ret create_ret (Some pc) (Some cb) s m = (ret, s1, m1)" "g_ws_buf (out_msgs s) = None" "g_cbs s = None"
    and "ws_client_destroy s1 m1 = (ret', s2, m2)" "lws_pre \<le> 2048"
  shows "(if ret = LE_SUCCESS
          then live m1 = live m + 1026 \<and> g_cbs s1 = Some cb \<and> \<not> force_exit s1 \<and>
            wsb_inv lws_pre (out_msgs s1) \<and> length (slots (out_msgs s1)) = 1024 \<and> pending lws_pre (out_msgs s1) = []
          else live m1 = live m \<and> g_cbs s1 = None \<and> g_ws_buf (out_msgs s1) = None) \<and>
     live m2 = live m \<and> g_cbs s2 = None \<and> force_exit s2"
proof -
  have gone: "live m2 = live m1 - (if g_cbs s1 = None then 0 else 1) -
      (case g_ws_buf (out_msgs s1) of None \<Rightarrow> 0 | Some its \<Rightarrow> 1 + int (length (filter (\<lambda>it. buf it \<noteq> None) its)))"
    "g_cbs s2 = None" "force_exit s2"
    using assms(4) by (auto simp: ws_client_destroy_def client_buf_mgmt_destroy_def c_free_def Let_def split: option.splits prod.splits if_splits)
  have fresh: "filter (\<lambda>it. buf it \<noteq> None) (replicate n (fresh_item k)) = replicate n (fresh_item k)" for n k
    by (simp add: filter_replicate)
  show ?thesis
  proof (cases "url pc")
    case None
    then show ?thesis using assms(1-3) gone by (simp add: wsc_init_def le_error_defs)
  next
    case (Some u)
    show ?thesis
    proof (cases rule: malloc_split [of m])
      case (2 mm)
      then have "ret \<noteq> LE_SUCCESS" "s1 = s\<lparr>g_cbs := None\<rparr>" "m1 = mm"
        using assms(1) Some by (auto simp: wsc_init_def le_error_defs)
      then show ?thesis using 2 assms(2) gone by simp
    next
      case (1 mm)
      obtain r b mb where i: "client_buf_mgmt_init mutex_ret 2048 1024 (out_msgs s) mm = (r, b, mb)" by (metis prod_cases3)
      note spec = init_spec [OF i assms(2)]
      show ?thesis
      proof (cases "r = LE_SUCCESS")
        case False
        then have "ret \<noteq> LE_SUCCESS" "s1 = s\<lparr>g_cbs := None, force_exit := False, out_msgs := b\<rparr>" "m1 = c_free 1 mb"
          using assms(1) Some 1 i by (auto simp: wsc_init_def)
        moreover have "g_ws_buf b = None" "live mb = live mm" using spec False by (auto simp: le_error_defs)
        ultimately show ?thesis using gone 1 by simp
      next
        case True
        have b: "g_ws_buf b = Some (replicate 1024 (fresh_item 2048))" "live mb = live mm + 1025"
          using spec True by (auto simp: le_error_defs)
        show ?thesis
        proof (cases "create_ret = 0")
          case create: True
          then have "ret = LE_SUCCESS" "s1 = s\<lparr>g_cbs := Some cb, force_exit := False, out_msgs := b\<rparr>" "m1 = mb"
            using assms(1) Some 1 i True by (auto simp: wsc_init_def)
          moreover have "wsb_inv lws_pre b" "length (slots b) = 1024" "pending lws_pre b = []"
            using init_inv [OF i [unfolded True] assms(2)] assms(5) by simp_all
          ultimately show ?thesis using gone b 1 by (simp add: fresh)
        next
          case create: False
          then have "ret \<noteq> LE_SUCCESS" "g_cbs s1 = None" "g_ws_buf (out_msgs s1) = None"
            "m1 = snd (snd (client_buf_mgmt_destroy b (c_free 1 mb)))"
            using assms(1) Some 1 i True b(1)
            by (auto simp: wsc_init_def client_buf_mgmt_destroy_def Let_def le_error_defs)
          moreover from this(4) have "live m1 = live m"
            using b 1 by (simp add: client_buf_mgmt_destroy_def c_free_def fresh)
          ultimately show ?thesis using gone by simp
        qed
      qed
    qed
  qed
qed

definition ex_conn :: wsc_param_conn where
  "ex_conn = \<lparr>url = Some ''wss://10.0.0.1:5432'', conn_timeout = 10, ca_path = None, cert_path = None, key_path = None, protocol = None\<rparr>"

definition new_client :: wsc where
  "new_client = \<lparr>g_cbs = None, recv_tmp = no_fragment, gwc_recv_tmpInfo = no_fragment, g_wsi = False,
     force_exit = False, out_msgs = wsbuf0\<rparr>"

lemma client_init_destroy_balanced_witness:
  "\<exists>ret s1 m1 ret' s2 m2. wsc_init 0 0 (Some ex_conn) (Some all_cbs) new_client always = (ret, s1, m1) \<and>
     ws_client_destroy s1 m1 = (ret', s2, m2) \<and> live m2 = 0 \<and> force_exit s2"
proof -
  obtain ret s1 m1 where i: "wsc_init 0 0 (Some ex_conn) (Some all_cbs) new_client always = (ret, s1, m1)" by (metis prod_cases3)
  obtain ret' s2 m2 where d: "ws_client_destroy s1 m1 = (ret', s2, m2)" by (metis prod_cases3)
  have "g_ws_buf (out_msgs new_client) = None" "g_cbs new_client = None" by (simp_all add: new_client_def wsbuf0_def)
  from client_init_destroy_balanced [OF i this d, of 16] i d show ?thesis by (auto simp: always_def)
qed

text \<open>A secure connection without a CA path: \<open>wsc_init\<close> only prints that it must not be missing and starts the
  network thread, which reads the first character of the path: NULL is dereferenced.\<close>

theorem missing_ca_crashes_thread:
  assumes "url pc = Some u" "take 3 u = ''wss''" "parse_uri u = Some (''wss'', address, port)" "ca_path pc = None"
    and "reliable m" "g_ws_buf (out_msgs s) = None"
  shows "\<exists>s1 m1. wsc_init 0 0 (Some pc) (Some cb) s m = (LE_SUCCESS, s1, m1) \<and>
     thread_setup parse_uri context_ok (Some pc) s1 m1 = None"
proof -
  obtain mm where mm: "malloc m = (True, mm)" "reliable mm" using malloc_split [of m] assms(5) by metis
  obtain r b mb where i: "client_buf_mgmt_init 0 2048 1024 (out_msgs s) mm = (r, b, mb)" by (metis prod_cases3)
  have r: "r = LE_SUCCESS" "orc mb = orc mm" using init_spec [OF i assms(6)] mm(2) by auto
  have "wsc_init 0 0 (Some pc) (Some cb) s m = (LE_SUCCESS, s\<lparr>g_cbs := Some cb, force_exit := False, out_msgs := b\<rparr>, mb)"
    using mm(1) i r(1) assms(1) by (simp add: wsc_init_def)
  moreover have "thread_setup parse_uri context_ok (Some pc) s' m' = None" for s' m'
    using assms(1,3,4) by (simp add: thread_setup_def Let_def split: prod.splits bind_splits)
  ultimately show ?thesis by blast
qed

definition ex_uri :: "string \<Rightarrow> (string \<times> string \<times> int) option" where
  "ex_uri u = (if u = ''wss://10.0.0.1:5432'' then Some (''wss'', ''10.0.0.1'', 5432) else None)"

lemma missing_ca_crashes_thread_witness:
  "\<exists>s1 m1. wsc_init 0 0 (Some ex_conn) (Some all_cbs) new_client always = (LE_SUCCESS, s1, m1) \<and>
     thread_setup ex_uri (\<lambda>_. True) (Some ex_conn) s1 m1 = None"
  by (rule missing_ca_crashes_thread [where u = "''wss://10.0.0.1:5432''" and address = "''10.0.0.1''" and port = 5432])
    (simp_all add: ex_conn_def ex_uri_def new_client_def wsbuf0_def)

text \<open>C0: A connection that closes in the middle of a message takes the received part with it: the close callback
  does not free it, and the next connection starts with new memory, so the block is leaked.\<close>

theorem partial_message_leaks:
  assumes "recv_tmp s = no_fragment" "reliable m" "length x < 2 ^ 31" "g_wsi s" "\<not> force_exit s"
    and "g_ws_buf (out_msgs s) = Some items" "8 \<le> length items"
  shows "\<exists>ev s' m'. net_loop lws_pre
       [\<lparr>forced = False, reasons = [Client_receive False x, Client_closed], connected = False, service_ret = 0\<rparr>,
        \<lparr>forced = False, reasons = [Client_established], connected = True, service_ret = 0\<rparr>] 0 s m = Some (False, ev, s', m') \<and>
     recv_tmp s' = no_fragment \<and> g_wsi s' \<and> live m' = live m + 1"
proof -
  obtain t m1 where 1: "append_fragment x s m = Some (s\<lparr>recv_tmp := t\<rparr>, m1)" "live m1 = live m + 1"
    by (rule append_fragment_ok [of s "[]" x m]) (use assms(1-3) in auto)
  obtain b where b: "buf_mgmt_client_clear_msg (out_msgs s) = Some b"
    using assms(6,7) by (simp add: buf_mgmt_client_clear_msg_def MAX_MSG_BUF_COUNT_def)
  show ?thesis using 1 b assms(4,5) by (simp add: callback_dumb_increment_def)
qed

lemma partial_message_leaks_witness:
  "\<exists>ev s' m'. net_loop 16 [\<lparr>forced = False, reasons = [Client_receive False ''{'', Client_closed], connected = False, service_ret = 0\<rparr>,
        \<lparr>forced = False, reasons = [Client_established], connected = True, service_ret = 0\<rparr>] 0
        (idle_client\<lparr>out_msgs := wsbuf0\<lparr>g_ws_buf := Some (replicate 8 zero_item)\<rparr>\<rparr>) always = Some (False, ev, s', m') \<and> live m' = 1"
  using partial_message_leaks [of "idle_client\<lparr>out_msgs := wsbuf0\<lparr>g_ws_buf := Some (replicate 8 zero_item)\<rparr>\<rparr>" always "''{''" _ 16]
  by (fastforce simp: idle_client_def always_def)

end
