(* ===== verification/Threadpool.thy ===== *)
theory Threadpool
  imports Ring
begin

text \<open>
  The thread pool, \<open>sdk/utility/threadpool/threadpool.c\<close>: a bounded circular queue of tasks,
  producers that add (\<open>threadpool_add\<close>), worker threads that take (\<open>threadpool_thread\<close>) and a
  shutdown that is either immediate or graceful. The fields of the pool are read and written
  under its one mutex, so each critical section is one function of the pool; the workers, the
  condition variable and the callers of the pool are a step relation whose steps are these
  critical sections. A task (function and argument) is a value of type \<open>'a\<close>.
\<close>

subsection \<open>State\<close>

definition MAX_THREADS :: int where "MAX_THREADS = 64"
definition MAX_QUEUE :: int where "MAX_QUEUE = 65536"

definition threadpool_invalid :: int where "threadpool_invalid = - 1"
definition threadpool_lock_failure :: int where "threadpool_lock_failure = - 2"
definition threadpool_queue_full :: int where "threadpool_queue_full = - 3"
definition threadpool_shutdown :: int where "threadpool_shutdown = - 4"
definition threadpool_thread_failure :: int where "threadpool_thread_failure = - 5"
definition immediate_shutdown :: int where "immediate_shutdown = 1"
definition graceful_shutdown :: int where "graceful_shutdown = 2"

lemmas tp_code_defs =
  threadpool_invalid_def threadpool_lock_failure_def threadpool_queue_full_def
  threadpool_shutdown_def threadpool_thread_failure_def immediate_shutdown_def
  graceful_shutdown_def

text \<open>
  \<open>threads\<close> tells whether the block of thread ids was allocated. An entry \<open>None\<close> of the queue
  is a place of the block that was never written.
\<close>

record 'a pool =
  threads :: bool
  queue :: "'a option list option"
  thread_count :: int
  queue_size :: int
  head :: int
  tail :: int
  count :: int
  shutdown :: int
  started :: int

subsection \<open>Adding a task\<close>

text \<open>
  \<open>lock_ret\<close>, \<open>signal_ret\<close> and \<open>unlock_ret\<close> are the results of the calls to pthread; the result
  is the return code, whether a waiting worker was signalled, and the pool.
\<close>

definition add_section :: "int \<Rightarrow> 'a \<Rightarrow> 'a pool \<Rightarrow> (int \<times> bool \<times> 'a pool) option" where
  "add_section signal_ret t p =
     (let next = (tail p + 1) mod queue_size p in
      if count p = queue_size p then Some (threadpool_queue_full, False, p)
      else if shutdown p \<noteq> 0 then Some (threadpool_shutdown, False, p)
      else do {
        qs \<leftarrow> queue p;
        _ \<leftarrow> rd qs (nat (tail p));
        let p' = p\<lparr>queue := Some (qs[nat (tail p) := Some t]), tail := next, count := count p + 1\<rparr>;
        Some (if signal_ret \<noteq> 0 then (threadpool_lock_failure, False, p') else (0, True, p')) })"

definition threadpool_add ::
    "int \<Rightarrow> int \<Rightarrow> int \<Rightarrow> 'a pool option \<Rightarrow> 'a option \<Rightarrow> (int \<times> bool \<times> 'a pool option) option" where
  "threadpool_add lock_ret signal_ret unlock_ret pool function =
     (case (pool, function) of
        (Some p, Some t) \<Rightarrow>
          if lock_ret \<noteq> 0 then Some (threadpool_lock_failure, False, pool)
          else do { (err, sig, p') \<leftarrow> add_section signal_ret t p;
                    Some (if unlock_ret \<noteq> 0 then threadpool_lock_failure else err, sig, Some p') }
      | _ \<Rightarrow> Some (threadpool_invalid, False, pool))"

subsection \<open>The worker\<close>

text \<open>
  \<open>Ready\<close>: at \<open>pthread_mutex_lock\<close>, or woken inside \<open>pthread_cond_wait\<close> and taking the lock
  again (both are followed by the test of the \<open>while\<close> loop). \<open>Waiting\<close>: blocked on the
  condition variable. \<open>Running t\<close>: executing the task outside the lock.
\<close>

datatype 'a wstate = Ready | Waiting | Running 'a | Exited

definition grab_task :: "'a pool \<Rightarrow> ('a \<times> 'a pool) option" where
  "grab_task p =
     do { qs \<leftarrow> queue p;
          e \<leftarrow> rd qs (nat (head p));
          t \<leftarrow> e;
          Some (t, p\<lparr>head := (head p + 1) mod queue_size p, count := count p - 1\<rparr>) }"

definition worker_section :: "'a pool \<Rightarrow> ('a wstate \<times> 'a pool) option" where
  "worker_section p =
     (if count p = 0 \<and> shutdown p = 0 then Some (Waiting, p)
      else if shutdown p = immediate_shutdown \<or> (shutdown p = graceful_shutdown \<and> count p = 0)
      then Some (Exited, p\<lparr>started := started p - 1\<rparr>)
      else do { (t, p') \<leftarrow> grab_task p; Some (Running t, p') })"

subsection \<open>Creation, shutdown and release\<close>

definition threadpool_free :: "'a pool option \<Rightarrow> mem \<Rightarrow> int \<times> mem" where
  "threadpool_free pool m =
     (case pool of
        None \<Rightarrow> (- 1, m)
      | Some p \<Rightarrow>
          if 0 < started p then (- 1, m)
          else (0, c_free 1 (if threads p
                             then c_free (if queue p = None then 0 else 1) (c_free 1 m) else m)))"

text \<open>
  The critical section of \<open>threadpool_destroy\<close>: the flag is set and all waiting workers are
  woken; \<open>None\<close> in the second component means the joins are skipped.
\<close>

definition destroy_section :: "int \<Rightarrow> bool \<Rightarrow> 'a pool \<Rightarrow> int \<times> bool \<times> 'a pool" where
  \<comment> \<open>result: err, whether the workers were woken and are joined next, the pool\<close>
  "destroy_section broadcast_ret graceful p =
     (if shutdown p \<noteq> 0 then (threadpool_shutdown, False, p)
      else
        (let p' = p\<lparr>shutdown := (if graceful then graceful_shutdown else immediate_shutdown)\<rparr> in
         if broadcast_ret \<noteq> 0 then (threadpool_lock_failure, False, p') else (0, True, p')))"

definition join_workers :: "(nat \<Rightarrow> int) \<Rightarrow> 'a pool \<Rightarrow> int" where
  "join_workers join_ret p =
     (if list_all (\<lambda>i. join_ret i = 0) [0..<nat (thread_count p)] then 0 else threadpool_thread_failure)"

text \<open>
  \<open>others p\<close> is the pool when all threads have been joined: what the workers do to it between
  the broadcast and the end of the last join.
\<close>

definition threadpool_destroy ::
    "int \<Rightarrow> int \<Rightarrow> (nat \<Rightarrow> int) \<Rightarrow> ('a pool \<Rightarrow> 'a pool) \<Rightarrow> 'a pool option \<Rightarrow> bool \<Rightarrow> mem
     \<Rightarrow> int \<times> 'a pool option \<times> mem" where
  \<comment> \<open>result: err, the pool if it still exists, the memory\<close>
  "threadpool_destroy lock_ret broadcast_ret join_ret others pool graceful m =
     (case pool of
        None \<Rightarrow> (threadpool_invalid, None, m)
      | Some p \<Rightarrow>
          if lock_ret \<noteq> 0 then (threadpool_lock_failure, pool, m)
          else
            (let (err, woken, p1) = destroy_section broadcast_ret graceful p;
                 p2 = (if woken then others p1 else p1);
                 err2 = (if woken then join_workers join_ret p2 else err) in
             if err2 \<noteq> 0 then (err2, Some p2, m)
             else
               (let (freed, m') = threadpool_free (Some p2) m in
                (0, if freed = 0 then None else Some p2, m'))))"

text \<open>
  During the creation no task can be queued, so a worker that finds the shutdown flag set
  leaves; \<open>leave_all\<close> runs the critical section of \<open>n\<close> such workers.
\<close>

fun leave_all :: "nat \<Rightarrow> 'a pool \<Rightarrow> 'a pool" where
  "leave_all 0 p = p"
| "leave_all (Suc n) p = (case worker_section p of Some (_, p') \<Rightarrow> leave_all n p' | None \<Rightarrow> p)"

text \<open>The loop that starts the workers: \<open>i\<close> started, \<open>k\<close> to go.\<close>

fun start_workers :: "(nat \<Rightarrow> int) \<Rightarrow> nat \<Rightarrow> nat \<Rightarrow> 'a pool \<Rightarrow> mem \<Rightarrow> 'a pool option \<times> mem" where
  "start_workers create_ret i 0 p m = (Some p, m)"
| "start_workers create_ret i (Suc k) p m =
     (if create_ret i \<noteq> 0
      then (let (err, p', m') = threadpool_destroy 0 0 (\<lambda>_. 0) (leave_all i) (Some p) False m in (None, m'))
      else start_workers create_ret (Suc i) k
             (p\<lparr>thread_count := thread_count p + 1, started := started p + 1\<rparr>) m)"

definition threadpool_create ::
    "int \<Rightarrow> int \<Rightarrow> (nat \<Rightarrow> int) \<Rightarrow> int \<Rightarrow> int \<Rightarrow> mem \<Rightarrow> 'a pool option \<times> mem" where
  "threadpool_create mutex_ret cond_ret create_ret n_threads n_queue m =
     (if n_threads \<le> 0 \<or> MAX_THREADS < n_threads \<or> n_queue \<le> 0 \<or> MAX_QUEUE < n_queue then (None, m)
      else
        (let (ok, m1) = malloc m in
         if \<not> ok then (None, m1)
         else
           (let (ok_t, m2) = malloc m1;
                (ok_q, m3) = malloc m2;
                p = \<lparr>threads = ok_t, queue = (if ok_q then Some (replicate (nat n_queue) None) else None),
                     thread_count = 0, queue_size = n_queue, head = 0, tail = 0, count = 0,
                     shutdown = 0, started = 0\<rparr> in
            if mutex_ret \<noteq> 0 \<or> cond_ret \<noteq> 0 \<or> \<not> ok_t \<or> \<not> ok_q
            then (let (r, m4) = threadpool_free (Some p) m3 in (None, m4))
            else start_workers create_ret 0 (nat n_threads) p m3)))"

subsection \<open>The pool as a concurrent system\<close>

record 'a sys =
  tp :: "'a pool"
  workers :: "'a wstate list"

datatype 'a event = Added 'a | Taken 'a | Finished 'a | Internal

definition wake_all :: "'a wstate list \<Rightarrow> 'a wstate list" where
  "wake_all ws = map (\<lambda>w. if w = Waiting then Ready else w) ws"

text \<open>
  \<open>pthread_cond_signal\<close> wakes one of the waiting workers, if there is one; a worker may also
  wake for no reason.
\<close>

inductive worker_step :: "'a sys \<Rightarrow> 'a event \<Rightarrow> 'a sys \<Rightarrow> bool" where
  step_section:
    "i < length (workers s) \<Longrightarrow> workers s ! i = Ready \<Longrightarrow> worker_section (tp s) = Some (w, p) \<Longrightarrow>
     worker_step s (case w of Running t \<Rightarrow> Taken t | _ \<Rightarrow> Internal) \<lparr>tp = p, workers = (workers s)[i := w]\<rparr>"
| step_spurious:
    "i < length (workers s) \<Longrightarrow> workers s ! i = Waiting \<Longrightarrow>
     worker_step s Internal (s\<lparr>workers := (workers s)[i := Ready]\<rparr>)"
| step_finish:
    "i < length (workers s) \<Longrightarrow> workers s ! i = Running t \<Longrightarrow>
     worker_step s (Finished t) (s\<lparr>workers := (workers s)[i := Ready]\<rparr>)"

inductive tp_step :: "'a sys \<Rightarrow> 'a event \<Rightarrow> 'a sys \<Rightarrow> bool" where
  step_worker: "worker_step s e s' \<Longrightarrow> tp_step s e s'"
| step_add_wake:
    "threadpool_add 0 0 0 (Some (tp s)) (Some t) = Some (0, True, Some p) \<Longrightarrow>
     i < length (workers s) \<Longrightarrow> workers s ! i = Waiting \<Longrightarrow>
     tp_step s (Added t) \<lparr>tp = p, workers = (workers s)[i := Ready]\<rparr>"
| step_add_nobody:
    "threadpool_add 0 0 0 (Some (tp s)) (Some t) = Some (0, True, Some p) \<Longrightarrow>
     Waiting \<notin> set (workers s) \<Longrightarrow>
     tp_step s (Added t) \<lparr>tp = p, workers = workers s\<rparr>"
| step_add_refused:
    "threadpool_add 0 0 0 (Some (tp s)) (Some t) = Some (err, False, Some p) \<Longrightarrow>
     tp_step s Internal (s\<lparr>tp := p\<rparr>)"
| step_destroy:
    "destroy_section 0 graceful (tp s) = (0, True, p) \<Longrightarrow>
     tp_step s Internal \<lparr>tp = p, workers = wake_all (workers s)\<rparr>"
| step_destroy_again:
    "destroy_section 0 graceful (tp s) = (err, False, p) \<Longrightarrow>
     tp_step s Internal (s\<lparr>tp := p\<rparr>)"

inductive tp_run :: "'a sys \<Rightarrow> 'a event list \<Rightarrow> 'a sys \<Rightarrow> bool" where
  run_nil: "tp_run s [] s"
| run_step: "tp_run s es s1 \<Longrightarrow> tp_step s1 e s2 \<Longrightarrow> tp_run s (es @ [e]) s2"

definition tp_initial :: "'a sys \<Rightarrow> bool" where
  "tp_initial s \<longleftrightarrow>
     (\<exists>create_ret n sz m m'. threadpool_create 0 0 create_ret n sz m = (Some (tp s), m') \<and>
        workers s = replicate (nat n) Ready)"

subsection \<open>The queue of the pool\<close>

definition tasks :: "'a pool \<Rightarrow> 'a list" where
  "tasks p = (case queue p of None \<Rightarrow> []
              | Some qs \<Rightarrow> map the (ring_list qs (nat (head p)) (nat (count p))))"

definition pool_ok :: "'a pool \<Rightarrow> bool" where
  "pool_ok p \<longleftrightarrow>
     (case queue p of None \<Rightarrow> False
      | Some qs \<Rightarrow> length qs = nat (queue_size p) \<and> None \<notin> set (ring_list qs (nat (head p)) (nat (count p)))) \<and>
     0 < queue_size p \<and> 0 \<le> count p \<and> count p \<le> queue_size p \<and> 0 \<le> head p \<and> head p < queue_size p \<and>
     tail p = (head p + count p) mod queue_size p"

lemma pool_okD:
  assumes "pool_ok p"
  obtains qs where "queue p = Some qs" "length qs = nat (queue_size p)"
    "None \<notin> set (ring_list qs (nat (head p)) (nat (count p)))"
    "0 < queue_size p" "0 \<le> count p" "count p \<le> queue_size p" "0 \<le> head p" "head p < queue_size p"
    "tail p = (head p + count p) mod queue_size p"
  using assms by (auto simp: pool_ok_def split: option.splits)

lemma length_tasks: "pool_ok p \<Longrightarrow> length (tasks p) = nat (count p)"
  by (auto simp: tasks_def pool_ok_def split: option.splits)

lemma tasks_empty: "pool_ok p \<Longrightarrow> tasks p = [] \<longleftrightarrow> count p = 0"
  using length_tasks [of p] by (auto simp: pool_ok_def)

lemma add_section_refines:
  assumes "pool_ok p" "count p < queue_size p" "shutdown p = 0"
  shows "\<exists>p'. add_section sg t p = Some (if sg \<noteq> 0 then (threadpool_lock_failure, False, p') else (0, True, p')) \<and>
           pool_ok p' \<and> tasks p' = tasks p @ [t] \<and> shutdown p' = 0 \<and> started p' = started p \<and>
           thread_count p' = thread_count p \<and> queue_size p' = queue_size p \<and> threads p' = threads p"
proof -
  from assms(1) obtain qs where qs: "queue p = Some qs" "length qs = nat (queue_size p)"
    "None \<notin> set (ring_list qs (nat (head p)) (nat (count p)))"
    and ix: "0 < queue_size p" "0 \<le> count p" "0 \<le> head p" "head p < queue_size p"
      "tail p = (head p + count p) mod queue_size p"
    by (rule pool_okD)
  define p' where "p' = p\<lparr>queue := Some (qs[nat (tail p) := Some t]), tail := (tail p + 1) mod queue_size p,
      count := count p + 1\<rparr>"
  have tl: "nat (tail p) = (nat (head p) + nat (count p)) mod length qs"
    using ix qs(2) by (simp add: nat_mod_distrib nat_add_distrib)
  have "0 < length qs" using ix qs(2) by simp
  then have "nat (tail p) < length qs" unfolding tl by (rule mod_less_divisor)
  then have add: "add_section sg t p = Some (if sg \<noteq> 0 then (threadpool_lock_failure, False, p') else (0, True, p'))"
    using assms(2,3) qs(1) by (simp add: add_section_def rd_Some p'_def)
  have sc: "nat (count p + 1) = Suc (nat (count p))" using ix by simp
  have room: "nat (count p) < length qs" using assms(2) qs(2) ix by simp
  have ring: "ring_list (qs[nat (tail p) := Some t]) (nat (head p)) (nat (count p + 1))
                = ring_list qs (nat (head p)) (nat (count p)) @ [Some t]"
    unfolding sc tl by (rule ring_list_enq [OF room])
  have "(head p + count p + 1) mod queue_size p = (head p + (count p + 1)) mod queue_size p" by (simp add: add.assoc)
  then have "pool_ok p'"
    using qs ix ring assms(2) by (auto simp: pool_ok_def p'_def mod_add_left_eq)
  moreover have "tasks p' = tasks p @ [t]"
    using qs(1) ring by (simp add: tasks_def p'_def)
  ultimately show ?thesis using add assms(3) by (auto simp: p'_def)
qed

lemma grab_task_refines:
  assumes "pool_ok p" "count p \<noteq> 0"
  shows "\<exists>t p'. grab_task p = Some (t, p') \<and> tasks p = t # tasks p' \<and> pool_ok p' \<and> shutdown p' = shutdown p \<and>
           started p' = started p \<and> thread_count p' = thread_count p \<and> queue_size p' = queue_size p \<and>
           count p' = count p - 1 \<and> threads p' = threads p"
proof -
  from assms(1) obtain qs where qs: "queue p = Some qs" "length qs = nat (queue_size p)"
    "None \<notin> set (ring_list qs (nat (head p)) (nat (count p)))"
    and ix: "0 < queue_size p" "0 \<le> count p" "0 \<le> head p" "head p < queue_size p" "count p \<le> queue_size p"
      "tail p = (head p + count p) mod queue_size p"
    by (rule pool_okD)
  define p' where "p' = p\<lparr>head := (head p + 1) mod queue_size p, count := count p - 1\<rparr>"
  have hd: "nat (head p) < length qs" using ix qs(2) by simp
  have "0 < nat (count p)" using assms(2) ix by simp
  then have ring: "ring_list qs (nat (head p)) (nat (count p)) =
      qs ! nat (head p) # ring_list qs (nat ((head p + 1) mod queue_size p)) (nat (count p - 1))"
    using hd ix qs(2) ring_list_mod [of qs "Suc (nat (head p))"]
    by (simp add: ring_list_deq nat_mod_distrib nat_add_distrib nat_diff_distrib)
  then obtain t where t: "qs ! nat (head p) = Some t" using qs(3) by (cases "qs ! nat (head p)") auto
  have grab: "grab_task p = Some (t, p')"
    using qs(1) hd t by (simp add: grab_task_def rd_Some p'_def)
  have "((head p + 1) mod queue_size p + (count p - 1)) mod queue_size p = (head p + count p) mod queue_size p"
    by (simp add: mod_add_left_eq)
  then have "pool_ok p'"
    using qs ix ring assms(2) by (auto simp: pool_ok_def p'_def)
  moreover have "tasks p = t # tasks p'"
    using qs(1) ring t by (simp add: tasks_def p'_def)
  ultimately show ?thesis using grab by (auto simp: p'_def)
qed

subsection \<open>The workers\<close>

lemma count_list_upd:
  "i < length xs \<Longrightarrow>
   int (count_list (xs[i := y]) a) = int (count_list xs a) - of_bool (xs ! i = a) + of_bool (y = a)"
proof (induction xs arbitrary: i)
  case (Cons x xs)
  then show ?case by (cases i) auto
qed simp

lemma count_list_wake_all:
  "count_list (wake_all ws) Waiting = 0" "count_list (wake_all ws) Exited = count_list ws Exited"
  "count_list (wake_all ws) Ready = count_list ws Ready + count_list ws Waiting"
  "length (wake_all ws) = length ws"
  by (induction ws) (auto simp: wake_all_def)

text \<open>
  The invariant of the running system. Its third line is the absence of lost wakeups: while a
  worker waits, every queued task has a worker of its own on the way to the queue.
\<close>

definition sys_inv :: "'a sys \<Rightarrow> bool" where
  "sys_inv s \<longleftrightarrow>
     (let ws = workers s; p = tp s in
      pool_ok p \<and> started p = int (length ws) - int (count_list ws Exited) \<and>
      thread_count p = int (length ws) \<and> threads p \<and> shutdown p \<in> {0, immediate_shutdown, graceful_shutdown} \<and>
      (shutdown p = 0 \<longrightarrow> count_list ws Exited = 0 \<and>
          (count_list ws Waiting = 0 \<or> count p \<le> int (count_list ws Ready))) \<and>
      (shutdown p \<noteq> 0 \<longrightarrow> count_list ws Waiting = 0) \<and>
      (shutdown p = graceful_shutdown \<and> count_list ws Exited \<noteq> 0 \<longrightarrow> count p = 0))"

lemma worker_section_cases:
  assumes "pool_ok p" "shutdown p \<in> {0, immediate_shutdown, graceful_shutdown}"
  obtains (waits) "worker_section p = Some (Waiting, p)" "count p = 0" "shutdown p = 0"
    | (exits) "worker_section p = Some (Exited, p\<lparr>started := started p - 1\<rparr>)" "shutdown p \<noteq> 0"
        "shutdown p = graceful_shutdown \<longrightarrow> count p = 0"
    | (takes) t p' where "worker_section p = Some (Running t, p')" "tasks p = t # tasks p'" "pool_ok p'"
        "shutdown p' = shutdown p" "started p' = started p" "thread_count p' = thread_count p"
        "count p' = count p - 1" "count p \<noteq> 0" "shutdown p \<noteq> immediate_shutdown" "threads p' = threads p"
proof (cases "count p = 0 \<and> shutdown p = 0")
  case True
  then show thesis using waits by (simp add: worker_section_def)
next
  case no_wait: False
  show thesis
  proof (cases "shutdown p = immediate_shutdown \<or> (shutdown p = graceful_shutdown \<and> count p = 0)")
    case True
    then show thesis using exits no_wait by (auto simp: worker_section_def tp_code_defs)
  next
    case False
    then have n: "count p \<noteq> 0" "shutdown p \<noteq> immediate_shutdown" using no_wait assms(2) by auto
    with grab_task_refines [OF assms(1)] obtain t p' where "grab_task p = Some (t, p')" "tasks p = t # tasks p'"
      "pool_ok p'" "shutdown p' = shutdown p" "started p' = started p" "thread_count p' = thread_count p"
      "count p' = count p - 1" "threads p' = threads p" by blast
    then show thesis using takes [of t p'] n False no_wait by (simp add: worker_section_def)
  qed
qed

lemma pool_ok_frame [simp]:
  "pool_ok (p\<lparr>started := n\<rparr>) = pool_ok p" "pool_ok (p\<lparr>shutdown := k\<rparr>) = pool_ok p"
  "tasks (p\<lparr>started := n\<rparr>) = tasks p" "tasks (p\<lparr>shutdown := k\<rparr>) = tasks p"
  by (cases "queue p"; simp add: pool_ok_def tasks_def)+

lemma add_sectionD:
  assumes "threadpool_add 0 0 0 (Some p) (Some t) = Some (err, sg, Some p')" "pool_ok p"
  shows "(sg \<and> err = 0 \<and> pool_ok p' \<and> tasks p' = tasks p @ [t] \<and> shutdown p = 0 \<and> shutdown p' = 0 \<and>
           started p' = started p \<and> thread_count p' = thread_count p \<and> threads p' = threads p \<and>
           count p' = count p + 1)
       \<or> (\<not> sg \<and> err \<noteq> 0 \<and> p' = p)"
proof (cases "count p < queue_size p \<and> shutdown p = 0")
  case True
  with add_section_refines [OF assms(2), of 0 t] obtain q where
    "add_section 0 t p = Some (0, True, q)" "pool_ok q" "tasks q = tasks p @ [t]" "shutdown q = 0"
    "started q = started p" "thread_count q = thread_count p" "threads q = threads p" by auto
  moreover from this have "count q = count p + 1"
    using length_tasks [of q] length_tasks [OF assms(2)] assms(2) by (auto simp: pool_ok_def)
  ultimately show ?thesis using assms(1) True by (auto simp: threadpool_add_def)
next
  case False
  then have "count p = queue_size p \<or> shutdown p \<noteq> 0" using assms(2) by (auto simp: pool_ok_def)
  then have "add_section 0 t p = Some (if count p = queue_size p then threadpool_queue_full else threadpool_shutdown, False, p)"
    by (auto simp: add_section_def Let_def)
  then show ?thesis using assms(1) by (auto simp: threadpool_add_def tp_code_defs split: if_splits)
qed

lemma sys_inv_section:
  assumes "sys_inv s" "i < length (workers s)" "workers s ! i = Ready" "worker_section (tp s) = Some (w, p)"
  shows "sys_inv \<lparr>tp = p, workers = (workers s)[i := w]\<rparr>"
proof -
  have inv: "pool_ok (tp s)" "shutdown (tp s) \<in> {0, immediate_shutdown, graceful_shutdown}"
    using assms(1) by (auto simp: sys_inv_def Let_def)
  note upd = count_list_upd [OF assms(2), of w]
  show ?thesis
    using inv
  proof (cases rule: worker_section_cases)
    case waits
    then show ?thesis
      using assms upd [of Exited] upd [of Ready] by (auto simp: sys_inv_def Let_def)
  next
    case exits
    then show ?thesis
      using assms upd [of Exited] upd [of Waiting] by (auto simp: sys_inv_def Let_def)
  next
    case (takes t p')
    then show ?thesis
      using assms upd [of Exited] upd [of Waiting] upd [of Ready] by (auto simp: sys_inv_def Let_def)
  qed
qed

lemma sys_inv_worker:
  assumes "worker_step s e s'" "sys_inv s"
  shows "sys_inv s'"
  using assms
proof cases
  case (step_section i w p)
  then show ?thesis using sys_inv_section assms(2) by blast
next
  case (step_spurious i)
  then show ?thesis
    using assms(2) count_list_upd [OF step_spurious(3), of Ready Exited]
      count_list_upd [OF step_spurious(3), of Ready Waiting] count_list_upd [OF step_spurious(3), of Ready Ready]
    by (auto simp: sys_inv_def Let_def)
next
  case (step_finish i t)
  then show ?thesis
    using assms(2) count_list_upd [OF step_finish(3), of Ready Exited]
      count_list_upd [OF step_finish(3), of Ready Waiting] count_list_upd [OF step_finish(3), of Ready Ready]
    by (auto simp: sys_inv_def Let_def)
qed

lemma sys_inv_step:
  assumes "tp_step s e s'" "sys_inv s"
  shows "sys_inv s'"
  using assms
proof cases
  case step_worker
  then show ?thesis using sys_inv_worker assms(2) by blast
next
  case (step_add_wake t p i)
  have "pool_ok (tp s)" using assms(2) by (simp add: sys_inv_def Let_def)
  then show ?thesis
    using assms(2) step_add_wake(2) step_add_wake(5) add_sectionD [OF step_add_wake(3)]
      count_list_upd [OF step_add_wake(4), of Ready Exited] count_list_upd [OF step_add_wake(4), of Ready Waiting]
      count_list_upd [OF step_add_wake(4), of Ready Ready]
    by (auto simp: sys_inv_def Let_def)
next
  case (step_add_nobody t p)
  have "pool_ok (tp s)" using assms(2) by (simp add: sys_inv_def Let_def)
  then show ?thesis
    using assms(2) step_add_nobody(2) step_add_nobody(4) add_sectionD [OF step_add_nobody(3)]
    by (auto simp: sys_inv_def Let_def count_list_0_iff)
next
  case (step_add_refused t err p)
  have "pool_ok (tp s)" using assms(2) by (simp add: sys_inv_def Let_def)
  then have "p = tp s" using add_sectionD [OF step_add_refused(3)] by auto
  then show ?thesis using assms(2) step_add_refused by simp
next
  case (step_destroy graceful p)
  then show ?thesis
    using assms(2)
    by (auto simp: sys_inv_def Let_def destroy_section_def count_list_wake_all tp_code_defs split: if_splits)
next
  case (step_destroy_again graceful err p)
  then have "p = tp s" by (auto simp: destroy_section_def Let_def split: if_splits)
  then show ?thesis using assms(2) step_destroy_again by simp
qed

fun added :: "'a event list \<Rightarrow> 'a list" where
  "added [] = []"
| "added (Added t # es) = t # added es"
| "added (_ # es) = added es"

fun taken :: "'a event list \<Rightarrow> 'a list" where
  "taken [] = []"
| "taken (Taken t # es) = t # taken es"
| "taken (_ # es) = taken es"

lemma added_append [simp]: "added (es @ fs) = added es @ added fs"
  by (induction es rule: added.induct) auto

lemma taken_append [simp]: "taken (es @ fs) = taken es @ taken fs"
  by (induction es rule: taken.induct) auto

lemma tasks_worker:
  assumes "worker_step s e s'" "sys_inv s"
  shows "tasks (tp s) @ added [e] = taken [e] @ tasks (tp s')"
  using assms(1)
proof cases
  case (step_section i w p)
  have inv: "pool_ok (tp s)" "shutdown (tp s) \<in> {0, immediate_shutdown, graceful_shutdown}"
    using assms(2) by (auto simp: sys_inv_def Let_def)
  from inv show ?thesis
    by (cases rule: worker_section_cases) (use step_section in auto)
qed simp_all

lemma tasks_step:
  assumes "tp_step s e s'" "sys_inv s"
  shows "tasks (tp s) @ added [e] = taken [e] @ tasks (tp s')"
  using assms(1)
proof cases
  case step_worker
  then show ?thesis using tasks_worker assms(2) by blast
next
  case (step_add_wake t p i)
  then show ?thesis
    using add_sectionD [OF step_add_wake(3)] assms(2) by (simp add: sys_inv_def Let_def)
next
  case (step_add_nobody t p)
  then show ?thesis
    using add_sectionD [OF step_add_nobody(3)] assms(2) by (simp add: sys_inv_def Let_def)
next
  case (step_add_refused t err p)
  then show ?thesis
    using add_sectionD [OF step_add_refused(3)] assms(2) by (simp add: sys_inv_def Let_def)
next
  case (step_destroy graceful p)
  then show ?thesis by (auto simp: destroy_section_def Let_def split: if_splits)
next
  case (step_destroy_again graceful err p)
  then show ?thesis by (auto simp: destroy_section_def Let_def split: if_splits)
qed

lemma run_inv: "tp_run s es s' \<Longrightarrow> sys_inv s \<Longrightarrow> sys_inv s'"
  by (induction rule: tp_run.induct) (auto dest: sys_inv_step)

lemma run_tasks:
  assumes "tp_run s es s'" "sys_inv s"
  shows "tasks (tp s) @ added es = taken es @ tasks (tp s')"
  using assms
proof (induction rule: tp_run.induct)
  case (run_step s es s1 e s2)
  then show ?case
    using tasks_step [OF run_step.hyps(2) run_inv [OF run_step.hyps(1)]]
    by (metis added_append append_assoc taken_append)
qed simp

subsection \<open>Creation\<close>

lemma leave_all_shutdown:
  assumes "shutdown p = immediate_shutdown" "count p = 0"
  shows "leave_all n p = p\<lparr>started := started p - int n\<rparr>"
  using assms
proof (induction n arbitrary: p)
  case (Suc n)
  have "leave_all n (p\<lparr>started := started p - 1\<rparr>) = p\<lparr>started := started p - 1 - int n\<rparr>"
    using Suc.IH [of "p\<lparr>started := started p - 1\<rparr>"] Suc.prems by simp
  then show ?case
    using Suc.prems by (simp add: worker_section_def tp_code_defs algebra_simps)
qed simp

lemma start_workers_spec:
  assumes "start_workers create_ret i k p m = (r, m')"
    and "pool_ok p" "tasks p = []" "shutdown p = 0" "started p = int i" "thread_count p = int i"
    and "threads p"
  shows "(r = None \<longrightarrow> (\<exists>j\<in>{i..<i + k}. create_ret j \<noteq> 0) \<and> live m' = live m - 3) \<and>
         (\<forall>q. r = Some q \<longrightarrow> pool_ok q \<and> tasks q = [] \<and> shutdown q = 0 \<and> started q = int (i + k) \<and>
            thread_count q = int (i + k) \<and> threads q \<and> queue_size q = queue_size p \<and> m' = m)"
  using assms
proof (induction create_ret i k p m rule: start_workers.induct)
  case (1 create_ret i p m)
  then show ?case by auto
next
  case (2 create_ret i k p m)
  show ?case
  proof (cases "create_ret i = 0")
    case True
    let ?p = "p\<lparr>thread_count := thread_count p + 1, started := started p + 1\<rparr>"
    have "pool_ok ?p" "tasks ?p = []" using "2.prems" by (auto simp: pool_ok_def tasks_def split: option.splits)
    then show ?thesis using "2.IH" [OF _ _] True "2.prems" by force
  next
    case False
    have "count p = 0" using tasks_empty "2.prems" by blast
    moreover obtain qs where "queue p = Some qs" using "2.prems"(2) by (rule pool_okD)
    ultimately have "r = None" "live m' = live m - 3"
      using False "2.prems"
      by (auto simp: threadpool_destroy_def destroy_section_def tp_code_defs join_workers_def Let_def
          leave_all_shutdown threadpool_free_def c_free_def list_all_iff)
    then show ?thesis using False by force
  qed
qed

lemma create_spec:
  assumes "threadpool_create mutex_ret cond_ret create_ret n size0 m = (r, m')"
  shows "(r = None \<longrightarrow> live m' = live m \<or>
            (live m' = live m + 1 \<and> orc m (calls m) \<and> \<not> orc m (calls m + 1) \<and> orc m (calls m + 2))) \<and>
         (\<forall>p. r = Some p \<longrightarrow> live m' = live m + 3 \<and> pool_ok p \<and> tasks p = [] \<and> shutdown p = 0 \<and>
            started p = n \<and> thread_count p = n \<and> queue_size p = size0 \<and> threads p)"
proof (cases "(n \<le> 0 \<or> MAX_THREADS < n \<or> size0 \<le> 0 \<or> MAX_QUEUE < size0) \<or> \<not> orc m (calls m)")
  case True
  then have "r = None \<and> live m' = live m"
  proof
    assume "\<not> orc m (calls m)"
    then have "malloc m = (False, m\<lparr>calls := Suc (calls m)\<rparr>)" by (simp add: malloc_def)
    then show ?thesis using assms by (auto simp: threadpool_create_def split: if_splits)
  qed (use assms in \<open>simp add: threadpool_create_def\<close>)
  then show ?thesis by simp
next
  case False
  then have args: "\<not> (n \<le> 0 \<or> MAX_THREADS < n \<or> size0 \<le> 0 \<or> MAX_QUEUE < size0)" and o0: "orc m (calls m)" by blast+
  define m1 where "m1 = m\<lparr>calls := Suc (calls m), live := live m + 1\<rparr>"
  have a1: "malloc m = (True, m1)" using o0 by (simp add: malloc_def m1_def)
  obtain ok_t m2 where a2: "malloc m1 = (ok_t, m2)" by (cases "malloc m1")
  obtain ok_q m3 where a3: "malloc m2 = (ok_q, m3)" by (cases "malloc m2")
  note orcs = malloc_live [OF a2] malloc_live [OF a3]
  have ot: "ok_t = orc m (calls m + 1)" "ok_q = orc m (calls m + 2)"
    using a2 a3 by (auto simp: malloc_def m1_def split: if_splits)
  define p :: "'a pool" where "p = \<lparr>threads = ok_t, queue = (if ok_q then Some (replicate (nat size0) None) else None),
      thread_count = 0, queue_size = size0, head = 0, tail = 0, count = 0, shutdown = 0, started = 0\<rparr>"
  have create: "(r, m') =
     (if mutex_ret \<noteq> 0 \<or> cond_ret \<noteq> 0 \<or> \<not> ok_t \<or> \<not> ok_q
      then (let (r, m4) = threadpool_free (Some p) m3 in (None, m4))
      else start_workers create_ret 0 (nat n) p m3)"
    unfolding assms [symmetric] using args by (simp add: threadpool_create_def a1 a2 a3 p_def)
  have l1: "live m1 = live m + 1" by (simp add: m1_def)
  show ?thesis
  proof (cases "mutex_ret \<noteq> 0 \<or> cond_ret \<noteq> 0 \<or> \<not> ok_t \<or> \<not> ok_q")
    case True
    then have "r = None" "m' = snd (threadpool_free (Some p) m3)"
      using create by (auto split: prod.splits)
    then show ?thesis using orcs l1 ot o0 by (auto simp: threadpool_free_def p_def)
  next
    case False
    then have run: "start_workers create_ret 0 (nat n) p m3 = (r, m')" using create by simp
    have p: "pool_ok p" "tasks p = []" "shutdown p = 0" "started p = int 0" "thread_count p = int 0" "threads p"
      "queue_size p = size0"
      using False args by (simp_all add: pool_ok_def tasks_def p_def)
    show ?thesis
      using start_workers_spec [OF run p(1-6)] False orcs l1 args p(7) by auto
  qed
qed

lemma initial_inv:
  assumes "tp_initial s"
  shows "sys_inv s" "tasks (tp s) = []"
proof -
  obtain create_ret n sz m m' where c: "threadpool_create 0 0 create_ret n sz m = (Some (tp s), m')"
    and ws: "workers s = replicate (nat n) Ready"
    using assms by (auto simp: tp_initial_def)
  note spec = create_spec [OF c]
  have "0 \<le> n" using c by (auto simp: threadpool_create_def split: if_splits)
  have no: "count_list (replicate k Ready) Exited = 0" "count_list (replicate k Ready) Waiting = 0" for k
    by (simp_all add: count_list_0_iff)
  show "sys_inv s" "tasks (tp s) = []"
    using spec ws no \<open>0 \<le> n\<close> by (auto simp: sys_inv_def Let_def tp_code_defs)
qed

subsection \<open>After the shutdown flag is set\<close>

fun wstate_work :: "'a wstate \<Rightarrow> nat" where
  "wstate_work Ready = 1"
| "wstate_work Waiting = 2"
| "wstate_work (Running _) = 2"
| "wstate_work Exited = 0"

text \<open>An upper bound of the steps the workers still make.\<close>

definition work :: "'a sys \<Rightarrow> nat" where
  "work s = 2 * nat (count (tp s)) + sum_list (map wstate_work (workers s))"

lemma sum_list_upd:
  "i < length xs \<Longrightarrow> sum_list (map f (xs[i := y])) + f (xs ! i) = sum_list (map f xs) + (f y :: nat)"
proof (induction xs arbitrary: i)
  case (Cons x xs)
  then show ?case by (cases i) (auto simp: add_ac)
qed simp

lemma work_decreases:
  assumes "worker_step s e s'" "sys_inv s" "shutdown (tp s) \<noteq> 0"
  shows "work s' < work s \<and> shutdown (tp s') = shutdown (tp s)"
  using assms(1)
proof cases
  case (step_section i w p)
  have inv: "pool_ok (tp s)" "shutdown (tp s) \<in> {0, immediate_shutdown, graceful_shutdown}" "0 \<le> count (tp s)"
    using assms(2) by (auto simp: sys_inv_def pool_ok_def Let_def)
  note upd = sum_list_upd [OF step_section(3), of wstate_work w]
  from inv(1,2) show ?thesis
  proof (cases rule: worker_section_cases)
    case waits
    then show ?thesis using assms(3) by simp
  next
    case exits
    then show ?thesis using step_section upd by (auto simp: work_def)
  next
    case (takes t p')
    then show ?thesis using step_section upd inv(3) by (auto simp: work_def)
  qed
next
  case (step_spurious i)
  then have "Waiting \<in> set (workers s)" by (metis nth_mem)
  then have "count_list (workers s) Waiting \<noteq> 0" by (simp add: count_list_0_iff)
  then show ?thesis using assms(2,3) by (auto simp: sys_inv_def Let_def)
next
  case (step_finish i t)
  then show ?thesis using sum_list_upd [OF step_finish(3), of wstate_work Ready] by (simp add: work_def)
qed

lemma worker_progress:
  assumes "sys_inv s" "shutdown (tp s) \<noteq> 0" "w \<in> set (workers s)" "w \<noteq> Exited"
  shows "\<exists>e s'. worker_step s e s'"
proof -
  from assms(3) obtain i where i: "i < length (workers s)" "workers s ! i = w" by (auto simp: in_set_conv_nth)
  have inv: "pool_ok (tp s)" "shutdown (tp s) \<in> {0, immediate_shutdown, graceful_shutdown}"
    using assms(1) by (auto simp: sys_inv_def Let_def)
  show ?thesis
  proof (cases w)
    case Ready
    have "\<exists>w p. worker_section (tp s) = Some (w, p)"
      using inv by (cases rule: worker_section_cases) auto
    then show ?thesis using step_section [of i s] i Ready by blast
  next
    case Waiting
    then show ?thesis using step_spurious [of i s] i by blast
  next
    case (Running t)
    then show ?thesis using step_finish [of i s t] i by blast
  next
    case Exited
    then show ?thesis using assms(4) by simp
  qed
qed

abbreviation worker_move :: "'a sys \<Rightarrow> 'a sys \<Rightarrow> bool" where
  "worker_move s s' \<equiv> (\<exists>e. worker_step s e s')"

lemma moves_bounded:
  assumes "(worker_move ^^ k) s s'" "sys_inv s" "shutdown (tp s) \<noteq> 0"
  shows "k + work s' \<le> work s \<and> sys_inv s' \<and> shutdown (tp s') = shutdown (tp s)"
  using assms
proof (induction k arbitrary: s')
  case (Suc k)
  then obtain s1 e where "(worker_move ^^ k) s s1" "worker_step s1 e s'" by auto
  then show ?case using Suc.IH [of s1] Suc.prems work_decreases [of s1 e s'] sys_inv_worker [of s1 e s'] by fastforce
qed simp

lemma free_when_exited:
  assumes "sys_inv s" "set (workers s) \<subseteq> {Exited}"
  shows "started (tp s) = 0" "threadpool_free (Some (tp s)) m = (0, c_free 1 (c_free 1 (c_free 1 m)))"
proof -
  have "count_list ws Exited = length ws" if "set ws \<subseteq> {Exited}" for ws :: "'a wstate list"
    using that by (induction ws) auto
  then show z: "started (tp s) = 0" using assms(1,2) by (simp add: sys_inv_def Let_def)
  have "pool_ok (tp s)" using assms(1) by (simp add: sys_inv_def Let_def)
  then obtain qs where "queue (tp s) = Some qs" by (rule pool_okD)
  then show "threadpool_free (Some (tp s)) m = (0, c_free 1 (c_free 1 (c_free 1 m)))"
    using z assms(1) by (simp add: threadpool_free_def sys_inv_def Let_def)
qed

subsection \<open>The contract of the queue\<close>

definition enq_task :: "'a \<Rightarrow> 'a pool \<Rightarrow> 'a pool" where
  "enq_task t p = (case threadpool_add 0 0 0 (Some p) (Some t) of Some (_, _, Some p') \<Rightarrow> p' | _ \<Rightarrow> p)"

definition deq_task :: "'a pool \<Rightarrow> 'a option \<times> 'a pool" where
  "deq_task p = (case worker_section p of Some (Running t, p') \<Rightarrow> (Some t, p') | _ \<Rightarrow> (None, p))"

definition open_pool :: "'a pool \<Rightarrow> bool" where
  "open_pool p \<longleftrightarrow> pool_ok p \<and> shutdown p = 0"

lemma enq_task_room:
  assumes "open_pool p" "length (tasks p) < nat (queue_size p)"
  shows "open_pool (enq_task t p) \<and> tasks (enq_task t p) = tasks p @ [t] \<and> queue_size (enq_task t p) = queue_size p"
proof -
  have "count p < queue_size p" using assms length_tasks [of p] by (auto simp: open_pool_def pool_ok_def)
  then obtain p' where "add_section 0 t p = Some (0, True, p')" "pool_ok p'" "tasks p' = tasks p @ [t]"
    "shutdown p' = 0" "queue_size p' = queue_size p"
    using add_section_refines [of p 0 t] assms(1) by (auto simp: open_pool_def)
  then show ?thesis by (simp add: enq_task_def threadpool_add_def open_pool_def)
qed

lemma deq_task_spec:
  assumes "open_pool p"
  shows "fst (deq_task p) = (case tasks p of [] \<Rightarrow> None | t # _ \<Rightarrow> Some t)"
    and "open_pool (snd (deq_task p)) \<and> tasks (snd (deq_task p)) = tl (tasks p) \<and>
         queue_size (snd (deq_task p)) = queue_size p"
proof -
  have p: "pool_ok p" "shutdown p = 0" using assms by (simp_all add: open_pool_def)
  have "fst (deq_task p) = (case tasks p of [] \<Rightarrow> None | t # _ \<Rightarrow> Some t) \<and>
     open_pool (snd (deq_task p)) \<and> tasks (snd (deq_task p)) = tl (tasks p) \<and>
         queue_size (snd (deq_task p)) = queue_size p"
  proof (cases "count p = 0")
    case True
    then show ?thesis using assms p tasks_empty [OF p(1)] by (simp add: deq_task_def worker_section_def)
  next
    case False
    with grab_task_refines [OF p(1)] obtain t p' where "grab_task p = Some (t, p')" "tasks p = t # tasks p'"
      "pool_ok p'" "shutdown p' = shutdown p" "queue_size p' = queue_size p" by blast
    then show ?thesis using False p(2)
      by (simp add: deq_task_def worker_section_def tp_code_defs open_pool_def)
  qed
  then show "fst (deq_task p) = (case tasks p of [] \<Rightarrow> None | t # _ \<Rightarrow> Some t)"
    and "open_pool (snd (deq_task p)) \<and> tasks (snd (deq_task p)) = tl (tasks p) \<and>
         queue_size (snd (deq_task p)) = queue_size p" by blast+
qed

interpretation tpq: bounded_fifo open_pool tasks "\<lambda>p. nat (queue_size p)" "\<lambda>_. True" enq_task deq_task
  by unfold_locales (simp_all add: enq_task_room deq_task_spec)

subsection \<open>A scheduler for concrete runs\<close>

datatype 'a act = Sect nat | Fin nat | Add_wake nat 'a | Add_nobody 'a | Destroy bool

fun act_step :: "'a act \<Rightarrow> 'a sys \<Rightarrow> ('a event \<times> 'a sys) option" where
  "act_step (Sect i) s =
     (if i < length (workers s) \<and> (case workers s ! i of Ready \<Rightarrow> True | _ \<Rightarrow> False) then
        do { (w, p) \<leftarrow> worker_section (tp s);
             Some (case w of Running t \<Rightarrow> Taken t | _ \<Rightarrow> Internal, \<lparr>tp = p, workers = (workers s)[i := w]\<rparr>) }
      else None)"
| "act_step (Fin i) s =
     (if i < length (workers s) then
        (case workers s ! i of Running t \<Rightarrow> Some (Finished t, s\<lparr>workers := (workers s)[i := Ready]\<rparr>) | _ \<Rightarrow> None)
      else None)"
| "act_step (Add_wake i t) s =
     (if i < length (workers s) \<and> (case workers s ! i of Waiting \<Rightarrow> True | _ \<Rightarrow> False) then
        (case threadpool_add 0 0 0 (Some (tp s)) (Some t) of
           Some (err, True, Some p) \<Rightarrow> if err = 0 then Some (Added t, \<lparr>tp = p, workers = (workers s)[i := Ready]\<rparr>) else None
         | _ \<Rightarrow> None)
      else None)"
| "act_step (Add_nobody t) s =
     (if list_all (\<lambda>w. case w of Waiting \<Rightarrow> False | _ \<Rightarrow> True) (workers s) then
        (case threadpool_add 0 0 0 (Some (tp s)) (Some t) of
           Some (err, True, Some p) \<Rightarrow> if err = 0 then Some (Added t, \<lparr>tp = p, workers = workers s\<rparr>) else None
         | _ \<Rightarrow> None)
      else None)"
| "act_step (Destroy g) s =
     (case destroy_section 0 g (tp s) of
        (err, True, p) \<Rightarrow> if err = 0 then Some (Internal, \<lparr>tp = p, workers = wake_all (workers s)\<rparr>) else None
      | _ \<Rightarrow> None)"

lemma act_step_sound:
  assumes "act_step a s = Some (e, s')"
  shows "tp_step s e s'"
proof (cases a)
  case (Sect i)
  then show ?thesis
    using assms by (auto split: if_splits wstate.splits bind_splits intro!: step_worker worker_step.intros)
next
  case (Fin i)
  then show ?thesis
    using assms by (auto split: if_splits wstate.splits intro!: step_worker worker_step.intros)
next
  case (Add_wake i t)
  then show ?thesis
    using assms by (auto split: if_splits wstate.splits option.splits bool.splits intro: step_add_wake)
next
  case (Add_nobody t)
  then have "Waiting \<notin> set (workers s)" using assms by (auto simp: list_all_iff split: if_splits)
  then show ?thesis
    using assms Add_nobody by (auto split: if_splits option.splits bool.splits intro: step_add_nobody)
next
  case (Destroy g)
  then show ?thesis
    using assms by (auto split: if_splits prod.splits bool.splits intro: step_destroy)
qed

fun schedule :: "'a act list \<Rightarrow> 'a sys \<Rightarrow> ('a event list \<times> 'a sys) option" where
  "schedule [] s = Some ([], s)"
| "schedule (a # as) s =
     do { (e, s1) \<leftarrow> act_step a s; (es, s') \<leftarrow> schedule as s1; Some (e # es, s') }"

lemma run_prepend: "tp_run s1 es s' \<Longrightarrow> tp_step s e s1 \<Longrightarrow> tp_run s (e # es) s'"
proof (induction rule: tp_run.induct)
  case (run_nil s1)
  then show ?case using tp_run.run_step [OF tp_run.run_nil] by fastforce
next
  case (run_step s1 es s2 e' s3)
  then show ?case using tp_run.run_step [of s "e # es" s2 e' s3] by simp
qed

lemma schedule_sound: "schedule as s = Some (es, s') \<Longrightarrow> tp_run s es s'"
  by (induction as arbitrary: s es)
    (auto split: bind_splits intro: run_nil, metis run_prepend act_step_sound)

subsection \<open>Properties\<close>

text \<open>C8: in every run of the pool, whatever the interleaving of producers, workers and shutdown, the
  tasks are taken in the order they were added, and every added task is either taken exactly once or
  still queued.\<close>

theorem tasks_in_order:
  assumes "tp_initial s0" "tp_run s0 es s"
  shows "added es = taken es @ tasks (tp s)"
  using run_tasks [OF assms(2) initial_inv(1) [OF assms(1)]] initial_inv(2) [OF assms(1)] by simp

text \<open>C25: no wakeup is lost: while the pool is open and a worker waits on the condition variable, each
  queued task has a worker of its own that is awake and on its way to the queue.\<close>

theorem no_lost_wakeup:
  assumes "tp_initial s0" "tp_run s0 es s" "shutdown (tp s) = 0" "Waiting \<in> set (workers s)"
  shows "length (tasks (tp s)) \<le> count_list (workers s) Ready"
proof -
  have inv: "sys_inv s" using run_inv assms(1,2) initial_inv(1) by blast
  then have "pool_ok (tp s)" by (simp add: sys_inv_def Let_def)
  moreover have "count_list (workers s) Waiting \<noteq> 0" using assms(4) by (simp add: count_list_0_iff)
  ultimately show ?thesis using inv assms(3) length_tasks [of "tp s"] by (auto simp: sys_inv_def Let_def)
qed

text \<open>C31: a graceful shutdown loses nothing: from the moment a worker leaves, every task that was
  ever accepted has been taken.\<close>

theorem graceful_drains:
  assumes "tp_initial s0" "tp_run s0 es s" "shutdown (tp s) = graceful_shutdown"
    and "Exited \<in> set (workers s)"
  shows "taken es = added es"
proof -
  have inv: "sys_inv s" using run_inv assms(1,2) initial_inv(1) by blast
  have "count_list (workers s) Exited \<noteq> 0" using assms(4) by (simp add: count_list_0_iff)
  then have "count (tp s) = 0" using inv assms(3) by (simp add: sys_inv_def Let_def)
  moreover have "pool_ok (tp s)" using inv by (simp add: sys_inv_def Let_def)
  ultimately have "tasks (tp s) = []" using tasks_empty by blast
  then show ?thesis
    using run_tasks [OF assms(2) initial_inv(1) [OF assms(1)]] initial_inv(2) [OF assms(1)] by simp
qed

text \<open>C32: the joins of \<open>threadpool_destroy\<close> come back when the tasks do: once the shutdown flag is set
  the workers make at most \<open>work s\<close> further steps, they cannot get stuck before all of them have
  left, and then the pool is released with all its blocks.\<close>

theorem shutdown_completes:
  assumes "tp_initial s0" "tp_run s0 es s" "shutdown (tp s) \<noteq> 0" "(worker_move ^^ k) s s'"
  shows "k \<le> work s \<and>
         ((\<exists>s''. worker_move s' s'') \<or>
          (set (workers s') \<subseteq> {Exited} \<and> threadpool_free (Some (tp s')) m = (0, c_free 1 (c_free 1 (c_free 1 m)))))"
proof -
  have inv: "sys_inv s" using run_inv assms(1,2) initial_inv(1) by blast
  have s': "k \<le> work s" "sys_inv s'" "shutdown (tp s') \<noteq> 0"
    using moves_bounded [OF assms(4) inv assms(3)] assms(3) by simp_all
  show ?thesis
  proof (cases "set (workers s') \<subseteq> {Exited}")
    case True
    then show ?thesis using s' free_when_exited by blast
  next
    case False
    then obtain w where "w \<in> set (workers s')" "w \<noteq> Exited" by blast
    then show ?thesis using s' worker_progress by blast
  qed
qed

text \<open>Creating a pool either returns an empty, well-formed pool with all its workers started and its
  three blocks allocated, or NULL; a failed creation gives back everything it allocated, except
  that the queue is leaked when the block of thread ids could not be allocated.\<close>

theorem create_balanced:
  assumes "threadpool_create mutex_ret cond_ret create_ret n size0 m = (r, m')"
  shows "(r = None \<longrightarrow> live m' = live m \<or>
            (live m' = live m + 1 \<and> orc m (calls m) \<and> \<not> orc m (calls m + 1) \<and> orc m (calls m + 2))) \<and>
         (\<forall>p. r = Some p \<longrightarrow> live m' = live m + 3 \<and> pool_ok p \<and> tasks p = [] \<and> shutdown p = 0 \<and>
            started p = n \<and> thread_count p = n \<and> queue_size p = size0 \<and> threads p)"
  by (rule create_spec [OF assms])

text \<open>When signalling the worker or releasing the lock fails, \<open>threadpool_add\<close> reports an error
  although the task has been queued and will be run.\<close>

theorem add_reports_queued_task_as_failed:
  assumes "pool_ok p" "count p < queue_size p" "shutdown p = 0" "signal_ret \<noteq> 0 \<or> unlock_ret \<noteq> 0"
  shows "\<exists>sig p'. threadpool_add 0 signal_ret unlock_ret (Some p) (Some t) = Some (threadpool_lock_failure, sig, Some p') \<and>
           tasks p' = tasks p @ [t] \<and> pool_ok p'"
  using add_section_refines [OF assms(1-3), of signal_ret t] assms(4)
  by (auto simp: threadpool_add_def)

text \<open>Used by one thread at a time, the queue of the pool hands out the tasks in the order they
  were added as long as no more than \<open>queue_size\<close> of them are queued.\<close>

theorem pool_queue_fifo:
  assumes "pool_ok p" "shutdown p = 0" "fits (\<lambda>_. True) (nat (queue_size p)) (length (tasks p)) ops"
    and "drive enq_task deq_task p ops = (out, p')"
  shows "out @ tasks p' = tasks p @ inputs ops \<and> pool_ok p' \<and> nat (queue_size p') = nat (queue_size p)"
  using tpq.drive_fifo [of p ops out p'] assms by (simp add: open_pool_def)

subsection \<open>Witnesses\<close>

definition ex_sys :: "nat sys" where
  "ex_sys = \<lparr>tp = \<lparr>threads = True, queue = Some [None, None], thread_count = 2, queue_size = 2,
     head = 0, tail = 0, count = 0, shutdown = 0, started = 2\<rparr>, workers = [Ready, Ready]\<rparr>"

lemma ex_sys_initial: "tp_initial ex_sys"
proof -
  have "fst (threadpool_create 0 0 (\<lambda>_. 0) 2 2 always) = Some (tp ex_sys)" by code_simp
  then show ?thesis
    unfolding tp_initial_def
    by (intro exI [of _ "\<lambda>_. 0"] exI [of _ 2] exI [of _ always]
        exI [of _ "snd (threadpool_create 0 0 (\<lambda>_. 0) 2 2 always :: nat pool option \<times> mem)"])
      (simp add: prod_eq_iff ex_sys_def numeral_2_eq_2)
qed

definition ex_waiting :: "nat act list" where
  "ex_waiting = [Sect 0, Sect 1, Add_wake 0 7]"

definition ex_drain :: "nat act list" where
  "ex_drain = [Add_nobody 7, Add_nobody 8, Destroy True, Sect 0, Sect 1, Fin 1, Sect 1]"

lemma scheduled_run:
  assumes "map_option fst (schedule as ex_sys) = Some es"
  shows "tp_run ex_sys es (snd (the (schedule as ex_sys)))"
  using assms schedule_sound [of as ex_sys es] by (cases "schedule as ex_sys") auto

lemma ex_waiting_run: "tp_run ex_sys [Internal, Internal, Added 7] (snd (the (schedule ex_waiting ex_sys)))"
  by (rule scheduled_run) code_simp

lemma ex_drain_run:
  "tp_run ex_sys [Added 7, Added 8, Internal, Taken 7, Taken 8, Finished 8, Internal]
     (snd (the (schedule ex_drain ex_sys)))"
  by (rule scheduled_run) code_simp

theorem tasks_in_order_witness:
  "added [Internal, Internal, Added (7 :: nat)]
     = taken [Internal, Internal, Added 7] @ tasks (tp (snd (the (schedule ex_waiting ex_sys))))"
  by (rule tasks_in_order [OF ex_sys_initial ex_waiting_run])

theorem no_lost_wakeup_witness:
  "length (tasks (tp (snd (the (schedule ex_waiting ex_sys)))))
     \<le> count_list (workers (snd (the (schedule ex_waiting ex_sys)))) Ready"
proof (rule no_lost_wakeup [OF ex_sys_initial ex_waiting_run])
  show "shutdown (tp (snd (the (schedule ex_waiting ex_sys)))) = 0" by code_simp
  show "Waiting \<in> set (workers (snd (the (schedule ex_waiting ex_sys))))" by code_simp
qed

theorem graceful_drains_witness:
  "taken [Added 7, Added 8, Internal, Taken 7, Taken 8, Finished 8, Internal]
     = added [Added (7 :: nat), Added 8, Internal, Taken 7, Taken 8, Finished 8, Internal]"
proof (rule graceful_drains [OF ex_sys_initial ex_drain_run])
  show "shutdown (tp (snd (the (schedule ex_drain ex_sys)))) = graceful_shutdown" by code_simp
  show "Exited \<in> set (workers (snd (the (schedule ex_drain ex_sys))))" by code_simp
qed

theorem shutdown_completes_witness:
  "\<exists>s. shutdown (tp (s :: nat sys)) \<noteq> 0 \<and> 0 \<le> work s \<and>
     ((\<exists>s''. worker_move s s'') \<or> set (workers s) \<subseteq> {Exited})"
proof -
  have "shutdown (tp (snd (the (schedule ex_drain ex_sys)))) \<noteq> 0" by code_simp
  then show ?thesis
    using shutdown_completes [OF ex_sys_initial ex_drain_run, of 0 _ always] by auto
qed

theorem create_balanced_witness:
  "live (snd (threadpool_create 0 0 (\<lambda>_. 0) 2 2 always :: nat pool option \<times> mem)) = live always + 3"
proof -
  have "fst (threadpool_create 0 0 (\<lambda>_. 0) 2 2 always) = Some (tp ex_sys)" by code_simp
  then show ?thesis
    using create_balanced [of 0 0 "\<lambda>_. 0" 2 2 always "Some (tp ex_sys)"
        "snd (threadpool_create 0 0 (\<lambda>_. 0) 2 2 always :: nat pool option \<times> mem)"]
    by (simp add: prod_eq_iff)
qed

lemma ex_pool_ok: "pool_ok (tp ex_sys)" "shutdown (tp ex_sys) = 0" "count (tp ex_sys) < queue_size (tp ex_sys)"
  by (simp_all add: pool_ok_def ex_sys_def)

theorem add_reports_queued_task_as_failed_witness:
  "\<exists>sig p'. threadpool_add 0 1 0 (Some (tp ex_sys)) (Some 7) = Some (threadpool_lock_failure, sig, Some p') \<and>
     tasks p' = tasks (tp ex_sys) @ [7] \<and> pool_ok p'"
  using add_reports_queued_task_as_failed [OF ex_pool_ok(1,3,2), of 1 0 7] by simp

definition ex_ops :: "nat qop list" where
  "ex_ops = [Enq 1, Enq 2, Deq, Enq 3, Deq, Deq]"

theorem pool_queue_fifo_witness:
  "fst (drive enq_task deq_task (tp ex_sys) ex_ops) @ tasks (snd (drive enq_task deq_task (tp ex_sys) ex_ops))
     = tasks (tp ex_sys) @ [1, 2, 3]"
proof -
  have "fits (\<lambda>_. True) (nat (queue_size (tp ex_sys))) (length (tasks (tp ex_sys))) ex_ops" by code_simp
  then show ?thesis
    using pool_queue_fifo [OF ex_pool_ok(1,2), of ex_ops "fst (drive enq_task deq_task (tp ex_sys) ex_ops)"
        "snd (drive enq_task deq_task (tp ex_sys) ex_ops)"]
    by (simp add: ex_ops_def)
qed

end
