(* ===== verification/Leda.thy ===== *)
theory Leda
  imports Leda_Data Reply_Table Ws_Client Threadpool
begin

text \<open>
  The SDK interface, \<open>sdk/leda.c\<close> from \<open>leda_send_rsp\<close> on: requests to the gateway and their replies, the
  messages that come in, the handlers that a worker of the thread pool runs for them, initialisation and exit.
  It is built on the client, the thread pool, the table of outstanding requests and the device data.
  What the application's callbacks compute, the results of the system calls and what other threads do while a
  sender waits are arguments. A \<open>NULL\<close> that is only logged is harmless (it is printed as \<open>(null)\<close>).
\<close>

subsection \<open>State\<close>

definition LEDA_WS_CONNECTED :: int where "LEDA_WS_CONNECTED = 0"
definition LEDA_WS_DISCONNECTED :: int where "LEDA_WS_DISCONNECTED = 1"
definition MSG_INVALID :: int where "MSG_INVALID = - 1"
definition MSG_RSP :: int where "MSG_RSP = 0"
definition MSG_METHOD :: int where "MSG_METHOD = 1"

lemmas leda_msg_defs = LEDA_WS_CONNECTED_def LEDA_WS_DISCONNECTED_def MSG_INVALID_def MSG_RSP_def MSG_METHOD_def

definition METHOD_ONLINE :: string where "METHOD_ONLINE = ''onlineDevice''"
definition METHOD_OFFLINE :: string where "METHOD_OFFLINE = ''offlineDevice''"
definition EMTHOD_REPORT_PROPERTY :: string where "EMTHOD_REPORT_PROPERTY = ''reportProperty''"
definition METHOD_REPORT_EVENT :: string where "METHOD_REPORT_EVENT = ''reportEvent''"
definition METHOD_CALL_SERVICE :: string where "METHOD_CALL_SERVICE = ''callService''"
definition METHOD_GET_PROPERTY :: string where "METHOD_GET_PROPERTY = ''getProperty''"
definition METHOD_SET_PROPERTY :: string where "METHOD_SET_PROPERTY = ''setProperty''"
definition CONN_PROTOCOL :: string where "CONN_PROTOCOL = ''alibaba-iot-linkedge-protocol''"
definition PROTOCOL_VERSION :: string where "PROTOCOL_VERSION = ''1.0''"

text \<open>The application's data for its callbacks; one value is the address of a callback itself.\<close>

datatype usr_data = No_data | Usr nat | Address_of_set_properties_cb

record leda_device_callback =
  get_properties_cb ::
    "(string option \<Rightarrow> string option \<Rightarrow> leda_device_data list \<Rightarrow> int \<Rightarrow> usr_data \<Rightarrow> int \<times> leda_device_data list) option"
  usr_data_get_property :: usr_data
  set_properties_cb :: "(string option \<Rightarrow> string option \<Rightarrow> leda_device_data list \<Rightarrow> int \<Rightarrow> usr_data \<Rightarrow> int) option"
  usr_data_set_property :: usr_data
  call_service_cb ::
    "(string option \<Rightarrow> string option \<Rightarrow> string option \<Rightarrow> leda_device_data list \<Rightarrow> int \<Rightarrow> leda_device_data list \<Rightarrow> usr_data \<Rightarrow>
      int \<times> leda_device_data list) option"
  service_output_max_count :: int
  usr_data_call_service :: usr_data
  report_reply_cb :: bool
  usr_data_report_reply :: usr_data

record parsed_msg =
  pm_type :: int
  pm_id :: int
  pm_code :: int
  pm_method :: string
  pm_payload :: "cJSON option"

text \<open>A pool pointer is \<open>NULL\<close> (\<open>None\<close>), points to a pool, or to one that was freed (\<open>Some None\<close>).\<close>

record leda =
  g_conn_cb :: "usr_data option"
  g_devs_cb :: leda_device_callback
  g_has_init :: int
  g_conn_state :: int
  g_wsc_conn :: wsc_param_conn
  g_param_conn :: wsc_param_conn
  g_msg_id :: "32 word"
  g_threadpool :: "parsed_msg pool option option"
  replies_st :: reply_state
  client :: wsc

text \<open>What happens outside: at the client, and in the application's callbacks that return nothing.\<close>

datatype leda_event = Net wsc_event | Report_reply int int usr_data | Conn_state_change int usr_data

subsection \<open>Answering (leda\_send\_rsp and the handlers)\<close>

definition leda_send_rsp ::
    "nat \<Rightarrow> int \<Rightarrow> int \<Rightarrow> cJSON option \<Rightarrow> leda \<Rightarrow> mem \<Rightarrow> (int \<times> leda_event list \<times> leda \<times> mem) option" where
  "leda_send_rsp lws_pre rc msg_id pl s m =
     (case cJSON_CreateObject m of
        (None, m1) \<Rightarrow> Some (LE_ERROR_ALLOCATING_MEM, [], s, m1)
      | (Some r0, m1) \<Rightarrow>
          do { (_, r1, m2) \<leftarrow> cJSON_AddNumberToObject (Some r0) (Some ''code'') (double_of_int rc) m1;
               (_, r2, m3) \<leftarrow> cJSON_AddNumberToObject r1 (Some ''messageId'') (double_of_int msg_id) m2;
               let (pl1, m4) = (if pl = None then cJSON_CreateObject m3 else (pl, m3));
               if pl1 = None then Some (LE_ERROR_ALLOCATING_MEM, [], s, cJSON_Delete r2 m4)
               else
                 do { let (r3, m5) = cJSON_AddItemToObject r2 (Some ''payload'') pl1 m4;
                      (msg, m6) \<leftarrow> cJSON_PrintUnformatted r3 m5;
                      let m7 = cJSON_Delete r3 m6;
                      case msg of
                        None \<Rightarrow> Some (LE_ERROR_ALLOCATING_MEM, [], s, m7)
                      | Some t \<Rightarrow>
                          do { (ret, ev, c, m8) \<leftarrow> wsc_add_msg lws_pre (Some (t @ [NUL])) (of_nat (length t) + 1) 0 (client s) m7;
                               Some (ret, map Net ev, s\<lparr>client := c\<rparr>, c_free 1 m8) } } })"

definition leda_rsp_get_properties ::
    "nat \<Rightarrow> string option \<Rightarrow> string option \<Rightarrow> int \<Rightarrow> leda_device_data list \<Rightarrow> int \<Rightarrow> leda \<Rightarrow> mem \<Rightarrow>
     (int \<times> leda_event list \<times> leda \<times> mem) option" where
  "leda_rsp_get_properties lws_pre pk dn msg_id data data_cnt s m =
     (case cJSON_CreateObject m of
        (None, m1) \<Rightarrow> Some (LE_ERROR_ALLOCATING_MEM, [], s, m1)
      | (Some p0, m1) \<Rightarrow>
          (let (ret, data1) = (case get_properties_cb (g_devs_cb s) of
                                 None \<Rightarrow> (LE_ERROR_UNKNOWN, data)
                               | Some f \<Rightarrow> f pk dn data data_cnt (usr_data_get_property (g_devs_cb s))) in
           do { (p1, m2) \<leftarrow> (if ret = LE_SUCCESS
                  then do { (properties, m2) \<leftarrow> struct_data_to_json_data data1 data_cnt m1;
                            Some (cJSON_AddItemToObject (Some p0) (Some ''properties'') properties m2) }
                  else Some (Some p0, m1));
                leda_send_rsp lws_pre ret msg_id p1 s m2 }))"

definition leda_rsp_set_properties ::
    "nat \<Rightarrow> string option \<Rightarrow> string option \<Rightarrow> int \<Rightarrow> leda_device_data list \<Rightarrow> int \<Rightarrow> leda \<Rightarrow> mem \<Rightarrow>
     (int \<times> leda_event list \<times> leda \<times> mem) option" where
  \<comment> \<open>the callback gets its own address in the place of \<open>usr_data_set_property\<close>\<close>
  "leda_rsp_set_properties lws_pre pk dn msg_id data data_cnt s m =
     (let ret = (case set_properties_cb (g_devs_cb s) of
                   None \<Rightarrow> LE_ERROR_UNKNOWN
                 | Some f \<Rightarrow> f pk dn data data_cnt Address_of_set_properties_cb) in
      leda_send_rsp lws_pre ret msg_id None s m)"

text \<open>The entries in front of the first one without a key, at most \<open>n\<close>.\<close>

fun count_params :: "leda_device_data list \<Rightarrow> nat \<Rightarrow> nat option" where
  "count_params ds 0 = Some 0"
| "count_params [] (Suc n) = None"
| "count_params (d # ds) (Suc n) =
     do { k \<leftarrow> dkey d; if k = [] then Some 0 else do { c \<leftarrow> count_params ds n; Some (Suc c) } }"

definition zero_data :: leda_device_data where
  "zero_data = \<lparr>dtype = Some LEDA_TYPE_INT, dkey = Some [], dvalue = Some []\<rparr>"

definition leda_rsp_call_service ::
    "nat \<Rightarrow> string option \<Rightarrow> string option \<Rightarrow> int \<Rightarrow> string option \<Rightarrow> leda_device_data list \<Rightarrow> int \<Rightarrow> leda \<Rightarrow> mem \<Rightarrow>
     (int \<times> leda_event list \<times> leda \<times> mem) option" where
  \<comment> \<open>a negative maximal count makes the size larger than any block\<close>
  "leda_rsp_call_service lws_pre pk dn msg_id service_name input_params params_cnt s m =
     (let max_cnt = service_output_max_count (g_devs_cb s);
          (ok, m1) = malloc m in
      if \<not> ok then Some (LE_ERROR_ALLOCATING_MEM, [], s, m1)
      else if max_cnt < 0 then Some (LE_ERROR_ALLOCATING_MEM, [], s, c_free 1 m1)
      else
        (let output0 = replicate (nat max_cnt) zero_data;
             (ret, output) = (case call_service_cb (g_devs_cb s) of
                None \<Rightarrow> (LE_ERROR_UNKNOWN, output0)
              | Some f \<Rightarrow> f pk dn service_name input_params params_cnt output0 (usr_data_call_service (g_devs_cb s))) in
         if call_service_cb (g_devs_cb s) \<noteq> None \<and> ret \<noteq> LE_SUCCESS
         then leda_send_rsp lws_pre ret msg_id None s (c_free 1 m1)
         else
           do { cnt \<leftarrow> count_params output (nat max_cnt);
                case cJSON_CreateObject m1 of
                  (None, m2) \<Rightarrow> leda_send_rsp lws_pre ret msg_id None s (c_free 1 m2)
                | (Some p0, m2) \<Rightarrow>
                    do { (params, m3) \<leftarrow> struct_data_to_json_data output (int cnt) m2;
                         let (p1, m4) = (if params \<noteq> None then cJSON_AddItemToObject (Some p0) (Some ''outputData'') params m3
                                         else (Some p0, m3));
                         leda_send_rsp lws_pre ret msg_id p1 s (c_free 1 m4) } }))"

subsection \<open>Incoming messages\<close>

text \<open>The handler of a request: the outer \<open>goto end\<close> for everything that is missing.\<close>

definition handle_method :: "nat \<Rightarrow> parsed_msg \<Rightarrow> leda \<Rightarrow> mem \<Rightarrow> (leda_event list \<times> leda \<times> mem) option" where
  "handle_method lws_pre p s m =
     (let pl = pm_payload p in
      case (cJSON_GetObjectItem pl (Some ''productKey''), cJSON_GetObjectItem pl (Some ''deviceName'')) of
        (Some pk, Some dn) \<Rightarrow>
          (let props = cJSON_GetObjectItem pl (Some ''properties'');
               item = (if props = None then cJSON_GetObjectItem pl (Some ''inputData'') else props) in
           if item = None then Some ([], s, m)
           else
             do { (rc, data, data_cnt, m1) \<leftarrow> json_data_to_struct_data item m;
                  if rc \<noteq> LE_SUCCESS then Some ([], s, m1)
                  else
                    do { let ds = (case data of None \<Rightarrow> [] | Some ds \<Rightarrow> ds);
                         (ev, s1, m2) \<leftarrow>
                           (if pm_method p = METHOD_GET_PROPERTY then
                              do { (_, ev, s1, m2) \<leftarrow> leda_rsp_get_properties lws_pre (valuestring pk) (valuestring dn) (pm_id p) ds data_cnt s m1;
                                   Some (ev, s1, m2) }
                            else if pm_method p = METHOD_SET_PROPERTY then
                              do { (_, ev, s1, m2) \<leftarrow> leda_rsp_set_properties lws_pre (valuestring pk) (valuestring dn) (pm_id p) ds data_cnt s m1;
                                   Some (ev, s1, m2) }
                            else if pm_method p = METHOD_CALL_SERVICE then
                              (case cJSON_GetObjectItem pl (Some ''identifier'') of
                                 None \<Rightarrow> Some ([], s, m1)
                               | Some service_name \<Rightarrow>
                                   do { (_, ev, s1, m2) \<leftarrow> leda_rsp_call_service lws_pre (valuestring pk) (valuestring dn) (pm_id p)
                                          (valuestring service_name) ds data_cnt s m1;
                                        Some (ev, s1, m2) })
                            else Some ([], s, m1));
                         Some (ev, s1, if data = None then m2 else c_free 1 m2) } })
      | _ \<Rightarrow> Some ([], s, m))"

text \<open>The handler of a reply.\<close>

definition handle_reply :: "parsed_msg \<Rightarrow> leda \<Rightarrow> mem \<Rightarrow> (leda_event list \<times> leda \<times> mem) option" where
  "handle_reply p s m =
     do { (payload_str, m1) \<leftarrow> cJSON_PrintUnformatted (pm_payload p) m;
          case payload_str of
            None \<Rightarrow> Some ([], s, m1)
          | Some t \<Rightarrow>
              do { (ret, rp, m2) \<leftarrow> ws_set_reply_result (pm_id p) (pm_code p) (Some t) (replies_st s) m1;
                   Some (if ret \<noteq> LE_SUCCESS \<and> report_reply_cb (g_devs_cb s)
                         then [Report_reply (pm_id p) (pm_code p) (usr_data_report_reply (g_devs_cb s))] else [],
                         s\<lparr>replies_st := rp\<rparr>, c_free 1 m2) } }"

definition threadpool_recv_proc :: "nat \<Rightarrow> parsed_msg \<Rightarrow> leda \<Rightarrow> mem \<Rightarrow> (leda_event list \<times> leda \<times> mem) option" where
  "threadpool_recv_proc lws_pre p s m =
     do { (ev, s1, m1) \<leftarrow>
            (if pm_type p = MSG_RSP then handle_reply p s m
             else if pm_type p = MSG_METHOD then handle_method lws_pre p s m
             else Some ([], s, m));
          Some (ev, s1, c_free 1 (cJSON_Delete (pm_payload p) m1)) }"

definition leda_parse_receive_msg :: "cJSON option \<Rightarrow> int \<times> int option \<times> int option \<times> string option \<times> cJSON option" where
  \<comment> \<open>the type of the message; \<open>*msg_id\<close> and \<open>*code\<close> where they are written; \<open>*method\<close> and \<open>*payload\<close>\<close>
  "leda_parse_receive_msg root_item =
     (case cJSON_GetObjectItem root_item (Some ''messageId'') of
        None \<Rightarrow> (MSG_INVALID, None, None, None, None)
      | Some i \<Rightarrow>
          if ctype i \<noteq> cJSON_Number then (MSG_INVALID, None, None, None, None)
          else
            (let pl = cJSON_GetObjectItem root_item (Some ''payload'') in
             case cJSON_GetObjectItem root_item (Some ''code'') of
               Some c \<Rightarrow>
                 if ctype c \<noteq> cJSON_Number then (MSG_INVALID, Some (valueint i), None, None, pl)
                 else (MSG_RSP, Some (valueint i), Some (valueint c), None, pl)
             | None \<Rightarrow>
                 (case cJSON_GetObjectItem root_item (Some ''method'') of
                    None \<Rightarrow> (MSG_INVALID, Some (valueint i), None, None, pl)
                  | Some mt \<Rightarrow>
                      if ctype mt \<noteq> cJSON_String then (MSG_INVALID, Some (valueint i), None, None, pl)
                      else (MSG_METHOD, Some (valueint i), None, valuestring mt, pl))))"

definition or_zero :: "int option \<Rightarrow> int" where
  "or_zero x = (case x of None \<Rightarrow> 0 | Some v \<Rightarrow> v)"

text \<open>\<open>pth\<close>: the results of the lock, the signal and the unlock in \<open>threadpool_add\<close>.\<close>

definition cb_ws_recv ::
    "int \<times> int \<times> int \<Rightarrow> char option list option \<Rightarrow> leda \<Rightarrow> mem \<Rightarrow> (leda \<times> mem) option" where
  "cb_ws_recv pth msg s m =
     (case msg of
        None \<Rightarrow> Some (s, m)
      | Some block \<Rightarrow>
          do { t \<leftarrow> text_of block;
               (root_item, m1) \<leftarrow> cJSON_Parse (Some t) m;
               if root_item = None then Some (s, m1)
               else
                 (let (ok, m2) = malloc m1 in
                  if \<not> ok then Some (s, cJSON_Delete root_item m2)
                  else
                    (let (ty, i, c, mt, pl) = leda_parse_receive_msg root_item;
                         (pl1, m3) = (if pl = None then (None, m2) else cJSON_Duplicate pl True m2) in
                     if pl \<noteq> None \<and> pl1 = None then Some (s, cJSON_Delete root_item (c_free 1 m3))
                     else
                       (let p = \<lparr>pm_type = ty, pm_id = or_zero i, pm_code = or_zero c,
                                 pm_method = (case mt of None \<Rightarrow> [] | Some x \<Rightarrow> snprintf_s 16 x), pm_payload = pl1\<rparr>;
                            m4 = cJSON_Delete root_item m3 in
                        case g_threadpool s of
                          Some None \<Rightarrow> None
                        | gp \<Rightarrow>
                            do { (_, _, q) \<leftarrow> threadpool_add (fst pth) (fst (snd pth)) (snd (snd pth))
                                   (case gp of None \<Rightarrow> None | Some q0 \<Rightarrow> q0) (Some p);
                                 Some (s\<lparr>g_threadpool := (case gp of None \<Rightarrow> None | Some _ \<Rightarrow> Some q)\<rparr>, m4) }))) })"

definition cb_ws_close :: "leda \<Rightarrow> leda_event list \<times> leda" where
  "cb_ws_close s =
     (case g_conn_cb s of None \<Rightarrow> [] | Some u \<Rightarrow> [Conn_state_change LEDA_WS_DISCONNECTED u],
      s\<lparr>g_conn_state := LEDA_WS_DISCONNECTED\<rparr>)"

definition cb_ws_estab :: "leda \<Rightarrow> leda_event list \<times> leda" where
  "cb_ws_estab s =
     (case g_conn_cb s of None \<Rightarrow> [] | Some u \<Rightarrow> [Conn_state_change LEDA_WS_CONNECTED u],
      s\<lparr>g_conn_state := LEDA_WS_CONNECTED\<rparr>)"

subsection \<open>Sending requests\<close>

text \<open>
  The object \<open>payload\<close> is put into the request first and filled afterwards. The item of the request is kept
  without it until it is complete; \<open>attached\<close> tells whether \<open>cJSON_AddItemToObject\<close> put it there.
\<close>

definition join_payload :: "bool \<Rightarrow> cJSON option \<Rightarrow> cJSON option \<Rightarrow> cJSON option" where
  "join_payload attached r pl =
     (if attached then (case (r, pl) of (Some a, Some b) \<Rightarrow> Some (set_child (child a @ [b]) a) | _ \<Rightarrow> r) else r)"

definition request_head ::
    "string \<Rightarrow> string \<Rightarrow> string \<Rightarrow> 32 word \<Rightarrow> cJSON option \<Rightarrow> cJSON option \<Rightarrow> mem \<Rightarrow>
     (bool \<times> cJSON option \<times> cJSON option \<times> mem) option" where
  "request_head mth pk dn msg_id r payload m =
     (let (_, r1, m1) = cJSON_AddStringToObject r (Some ''version'') (Some PROTOCOL_VERSION) m in
      do { (_, r2, m2) \<leftarrow> cJSON_AddNumberToObject r1 (Some ''messageId'') (double_of_int (uint msg_id)) m1;
           let (_, r3, m3) = cJSON_AddStringToObject r2 (Some ''method'') (Some mth) m2;
           let (attached, _, p1, m4) = add_item_to_object r3 (Some ''payload'') payload False m3;
           let (_, p2, m5) = cJSON_AddStringToObject p1 (Some ''productKey'') (Some pk) m4;
           let (_, p3, m6) = cJSON_AddStringToObject p2 (Some ''deviceName'') (Some dn) m5;
           Some (attached, r3, p3, m6) })"

text \<open>
  \<open>before\<close>: what other threads do between the send and the wait; \<open>waits\<close>: what they do to the table while this
  one waits (see \<open>sem_timedwait\<close>).
\<close>

definition leda_send_method ::
    "nat \<Rightarrow> bool \<Rightarrow> (leda \<Rightarrow> mem \<Rightarrow> (leda \<times> mem) option) \<Rightarrow> (reply_state \<Rightarrow> mem \<Rightarrow> (reply_state \<times> mem) option) \<Rightarrow> int option \<Rightarrow>
     string option \<Rightarrow> string option \<Rightarrow> string option \<Rightarrow> leda \<Rightarrow> mem \<Rightarrow> (int \<times> leda_event list \<times> leda \<times> mem) option" where
  "leda_send_method lws_pre sem_ok before waits clock pk dn mth s m =
     (if g_conn_state s \<noteq> LEDA_WS_CONNECTED then Some (LEDA_ERROR_CONNECTION, [], s, m)
      else
        (case (pk, dn, mth) of
           (Some pk1, Some dn1, Some mt) \<Rightarrow>
             (case cJSON_CreateObject m of
                (None, m1) \<Rightarrow> Some (LE_ERROR_ALLOCATING_MEM, [], s, m1)
              | (Some r0, m1) \<Rightarrow>
                  (case cJSON_CreateObject m1 of
                     (None, m2) \<Rightarrow> Some (LE_ERROR_ALLOCATING_MEM, [], s, cJSON_Delete (Some r0) m2)
                   | (Some p0, m2) \<Rightarrow>
                       (let (msg_id, g) = ws_get_msg_id (g_msg_id s); s1 = s\<lparr>g_msg_id := g\<rparr>; i = int_of_uint msg_id in
                        do { (attached, r, p, m3) \<leftarrow> request_head mt pk1 dn1 msg_id (Some r0) (Some p0) m2;
                             (msg, m4) \<leftarrow> cJSON_PrintUnformatted (join_payload attached r p) m3;
                             let m5 = cJSON_Delete (join_payload attached r p) m4;
                             case msg of
                               None \<Rightarrow> Some (LE_ERROR_ALLOCATING_MEM, [], s1, m5)
                             | Some t \<Rightarrow>
                                 do { (ret, rp, m6) \<leftarrow> ws_insert_reply sem_ok i (replies_st s1) m5;
                                      let s2 = s1\<lparr>replies_st := rp\<rparr>;
                                      if ret \<noteq> LE_SUCCESS then Some (ret, [], s2, c_free 1 m6)
                                      else
                                        do { (ret2, ev, c, m7) \<leftarrow> wsc_add_msg lws_pre (Some (t @ [NUL])) (of_nat (length t)) 0 (client s2) m6;
                                             let s3 = s2\<lparr>client := c\<rparr>;
                                             let m8 = c_free 1 m7;
                                             if ret2 \<noteq> LE_SUCCESS
                                             then do { (rp', m9) \<leftarrow> ws_remove_reply i (replies_st s3) m8;
                                                       Some (ret2, map Net ev, s3\<lparr>replies_st := rp'\<rparr>, m9) }
                                             else
                                               do { (s4, m9) \<leftarrow> before s3 m8;
                                                    (ret3, cd, _, rp', m10) \<leftarrow> ws_get_reply_result waits clock i 10000 False (replies_st s4) m9;
                                                    Some (if ret3 \<noteq> LE_SUCCESS then ret3 else or_zero cd, map Net ev,
                                                          s4\<lparr>replies_st := rp'\<rparr>, m10) } } } })))
         | _ \<Rightarrow> Some (LE_ERROR_INVAILD_PARAM, [], s, m)))"

definition leda_asyn_send_method ::
    "nat \<Rightarrow> string option \<Rightarrow> string option \<Rightarrow> string option \<Rightarrow> string option \<Rightarrow> leda_device_data list \<Rightarrow> int \<Rightarrow> leda \<Rightarrow> mem \<Rightarrow>
     (int \<times> 32 word option \<times> leda_event list \<times> leda \<times> mem) option" where
  \<comment> \<open>result: return value, \<open>*msg_id\<close> where it is written\<close>
  "leda_asyn_send_method lws_pre pk dn mth event_name data data_cnt s m =
     (if g_conn_state s \<noteq> LEDA_WS_CONNECTED then Some (LEDA_ERROR_CONNECTION, None, [], s, m)
      else
        (case (pk, dn, mth) of
           (Some pk1, Some dn1, Some mt) \<Rightarrow>
             (case cJSON_CreateObject m of
                (None, m1) \<Rightarrow> Some (LE_ERROR_ALLOCATING_MEM, None, [], s, m1)
              | (Some r0, m1) \<Rightarrow>
                  (case cJSON_CreateObject m1 of
                     (None, m2) \<Rightarrow> Some (LE_ERROR_ALLOCATING_MEM, None, [], s, cJSON_Delete (Some r0) m2)
                   | (Some p0, m2) \<Rightarrow>
                       (let (msg_id, g) = ws_get_msg_id (g_msg_id s); s1 = s\<lparr>g_msg_id := g\<rparr> in
                        do { (attached, r, p, m3) \<leftarrow> request_head mt pk1 dn1 msg_id (Some r0) (Some p0) m2;
                             (params, m4) \<leftarrow> struct_data_to_json_data data data_cnt m3;
                             if params = None then Some (LE_ERROR_INVAILD_PARAM, None, [], s1, cJSON_Delete (join_payload attached r p) m4)
                             else
                               do { let (p1, m5) =
                                      (case event_name of
                                         None \<Rightarrow> cJSON_AddItemToObject p (Some ''properties'') params m4
                                       | Some nm \<Rightarrow>
                                           (let (_, p1, m5) = cJSON_AddStringToObject p (Some ''identifier'') (Some nm) m4 in
                                            cJSON_AddItemToObject p1 (Some ''outputData'') params m5));
                                    (msg, m6) \<leftarrow> cJSON_PrintUnformatted (join_payload attached r p1) m5;
                                    let m7 = cJSON_Delete (join_payload attached r p1) m6;
                                    case msg of
                                      None \<Rightarrow> Some (LE_ERROR_ALLOCATING_MEM, None, [], s1, m7)
                                    | Some t \<Rightarrow>
                                        do { (ret, ev, c, m8) \<leftarrow> wsc_add_msg lws_pre (Some (t @ [NUL])) (of_nat (length t)) 0 (client s1) m7;
                                             let s2 = s1\<lparr>client := c\<rparr>;
                                             let m9 = c_free 1 m8;
                                             if ret \<noteq> LE_SUCCESS
                                             then do { (rp, m10) \<leftarrow> ws_remove_reply (int_of_uint msg_id) (replies_st s2) m9;
                                                       Some (ret, None, map Net ev, s2\<lparr>replies_st := rp\<rparr>, m10) }
                                             else Some (ret, Some msg_id, map Net ev, s2, m9) } } })))
         | _ \<Rightarrow> Some (LE_ERROR_INVAILD_PARAM, None, [], s, m)))"

definition leda_online where
  "leda_online lws_pre sem_ok before waits clock pk dn = leda_send_method lws_pre sem_ok before waits clock pk dn (Some METHOD_ONLINE)"

definition leda_offline where
  "leda_offline lws_pre sem_ok before waits clock pk dn = leda_send_method lws_pre sem_ok before waits clock pk dn (Some METHOD_OFFLINE)"

definition leda_report_properties where
  "leda_report_properties lws_pre pk dn = leda_asyn_send_method lws_pre pk dn (Some EMTHOD_REPORT_PROPERTY) None"

definition leda_report_event where
  "leda_report_event lws_pre pk dn event_name = leda_asyn_send_method lws_pre pk dn (Some METHOD_REPORT_EVENT) event_name"

subsection \<open>Initialisation and exit\<close>

record leda_conn_info =
  server_ip :: "string option"
  server_port :: "16 word"
  use_tls :: int
  info_ca_path :: "string option"
  info_timeout :: int
  ws_conn_cb :: "usr_data option"
  conn_devices_cb :: leda_device_callback

text \<open>\<open>malloc\<close>, \<open>memset\<close> and \<open>strcpy\<close>.\<close>

definition copy_text :: "string \<Rightarrow> mem \<Rightarrow> string option \<times> mem" where
  "copy_text t m = (let (ok, m1) = malloc m in (if ok then Some t else None, m1))"

text \<open>The strings of the connection are freed, each if it is there.\<close>

definition free_conn :: "wsc_param_conn \<Rightarrow> mem \<Rightarrow> wsc_param_conn \<times> mem" where
  "free_conn c m =
     (c\<lparr>protocol := None, key_path := None, cert_path := None, ca_path := None, url := None\<rparr>,
      c_free (length (filter (\<lambda>x. x \<noteq> None) [protocol c, key_path c, cert_path c, ca_path c, url c])) m)"

text \<open>The copies of the strings of the connection; \<open>False\<close>: one allocation failed.\<close>

definition fill_conn :: "string \<Rightarrow> leda_conn_info \<Rightarrow> wsc_param_conn \<Rightarrow> mem \<Rightarrow> bool \<times> wsc_param_conn \<times> mem" where
  "fill_conn u info c0 m =
     (let (pr, m1) = copy_text CONN_PROTOCOL m; c1 = c0\<lparr>protocol := pr\<rparr> in
      if pr = None then (False, c1, m1)
      else
        (let (ur, m2) = copy_text u m1; c2 = c1\<lparr>url := ur\<rparr> in
         if ur = None then (False, c2, m2)
         else if use_tls info = 1 then
           (case info_ca_path info of
              None \<Rightarrow> (True, c2\<lparr>cert_path := None, key_path := None, conn_timeout := info_timeout info\<rparr>, m2)
            | Some ca \<Rightarrow>
                (let (cp, m3) = copy_text ca m2; c3 = c2\<lparr>ca_path := cp\<rparr> in
                 if cp = None then (False, c3, m3)
                 else (True, c3\<lparr>cert_path := None, key_path := None, conn_timeout := info_timeout info\<rparr>, m3)))
         else (True, c2\<lparr>ca_path := None, cert_path := None, key_path := None, conn_timeout := info_timeout info\<rparr>, m2)))"

definition leda_cbs :: wsc_param_cb where
  "leda_cbs = \<lparr>p_cb_establish = True, p_cb_close = True, p_cb_recv = True\<rparr>"

text \<open>The connection and the callbacks become those of the SDK.\<close>

definition adopt_conn :: "wsc_param_conn \<Rightarrow> leda_conn_info \<Rightarrow> leda \<Rightarrow> leda" where
  "adopt_conn c info s =
     s\<lparr>g_wsc_conn := c, g_param_conn := c\<lparr>cert_path := None, key_path := None\<rparr>,
       g_conn_cb := ws_conn_cb info, g_devs_cb := conn_devices_cb info\<rparr>"

definition start_client :: "int \<times> int \<Rightarrow> leda \<Rightarrow> mem \<Rightarrow> int \<times> leda \<times> mem" where
  "start_client ws_rets s m =
     (let (ret, w, m1) = wsc_init (fst ws_rets) (snd ws_rets) (Some (g_param_conn s)) (Some leda_cbs) (client s) m in
      (ret, s\<lparr>client := w\<rparr>, m1))"

definition leda_init ::
    "int \<times> int \<times> (nat \<Rightarrow> int) \<Rightarrow> (string \<Rightarrow> bool) \<Rightarrow> int \<times> int \<Rightarrow> leda_conn_info \<Rightarrow> leda \<Rightarrow> mem \<Rightarrow> int \<times> leda \<times> mem" where
  \<comment> \<open>the results of pthread for the pool, \<open>inet_aton\<close>, the results of pthread for the client\<close>
  "leda_init pool_rets inet_ok ws_rets info s m =
     (if g_has_init s = 1 then (LE_SUCCESS, s, m)
      else
        (let (pool, m1) = threadpool_create (fst pool_rets) (fst (snd pool_rets)) (snd (snd pool_rets)) 5 (5 * 1024) m;
             s1 = s\<lparr>g_threadpool := map_option Some pool\<rparr> in
         if pool = None then (LE_ERROR_ALLOCATING_MEM, s1, m1)
         else
           (case server_ip info of
              None \<Rightarrow> (LE_ERROR_INVAILD_PARAM, s1, m1)
            | Some ip \<Rightarrow>
                if \<not> inet_ok ip then (LE_ERROR_INVAILD_PARAM, s1, m1)
                else if 65535 < uint (server_port info) then (LE_ERROR_INVAILD_PARAM, s1, m1)
                else if use_tls info \<noteq> 0 \<and> use_tls info \<noteq> 1 then (LE_ERROR_INVAILD_PARAM, s1, m1)
                else
                  (let u = snprintf_s 64 ((if use_tls info = 0 then ''ws://'' else ''wss://'') @ ip @ '':'' @ print_int (uint (server_port info)));
                       (ok, c, m2) = fill_conn u info (g_wsc_conn s1) m1 in
                   if \<not> ok then (let (c', m3) = free_conn c m2 in (LE_ERROR_ALLOCATING_MEM, s1\<lparr>g_wsc_conn := c'\<rparr>, m3))
                   else
                     (let (ret, s3, m3) = start_client ws_rets (adopt_conn c info s1) m2 in
                      if ret \<noteq> 0 then (ret, s3, m3) else (LE_SUCCESS, s3\<lparr>g_has_init := 1\<rparr>, m3))))))"

definition leda_exit ::
    "int \<times> int \<times> (nat \<Rightarrow> int) \<Rightarrow> (parsed_msg pool \<Rightarrow> parsed_msg pool) \<Rightarrow> leda \<Rightarrow> mem \<Rightarrow> (leda \<times> mem) option" where
  \<comment> \<open>the results of the lock, the broadcast and the joins; what the workers do to the pool until they are joined\<close>
  "leda_exit rets others s m =
     do { (s1, m1) \<leftarrow>
            (case g_threadpool s of
               None \<Rightarrow> Some (s, m)
             | Some None \<Rightarrow> None
             | Some (Some p) \<Rightarrow>
                 (let (_, p', m') = threadpool_destroy (fst rets) (fst (snd rets)) (snd (snd rets)) others (Some p) True m in
                  Some (s\<lparr>g_threadpool := Some p'\<rparr>, m')));
          let (_, w, m2) = ws_client_destroy (client s1) m1;
          let (c, m3) = free_conn (g_wsc_conn s1) m2;
          Some (s1\<lparr>client := w, g_has_init := 0, g_conn_state := - 1, g_msg_id := 0, g_wsc_conn := c,
                   g_param_conn := (g_param_conn s1)\<lparr>
                     protocol := (if protocol (g_wsc_conn s1) = None then protocol (g_param_conn s1) else None),
                     key_path := (if key_path (g_wsc_conn s1) = None then key_path (g_param_conn s1) else None),
                     cert_path := (if cert_path (g_wsc_conn s1) = None then cert_path (g_param_conn s1) else None),
                     ca_path := (if ca_path (g_wsc_conn s1) = None then ca_path (g_param_conn s1) else None),
                     url := (if url (g_wsc_conn s1) = None then url (g_param_conn s1) else None)\<rparr>\<rparr>, m3) }"

subsection \<open>The threads\<close>

text \<open>What the network thread does with the events of the client: the callbacks that \<open>leda_init\<close> registers.\<close>

fun dispatch :: "int \<times> int \<times> int \<Rightarrow> wsc_event list \<Rightarrow> leda \<Rightarrow> mem \<Rightarrow> (leda_event list \<times> leda \<times> mem) option" where
  "dispatch pth [] s m = Some ([], s, m)"
| "dispatch pth (e # es) s m =
     do { (ev, s1, m1) \<leftarrow>
            (case e of
               Estab \<Rightarrow> (let (ev, s') = cb_ws_estab s in Some (ev, s', m))
             | Closed \<Rightarrow> (let (ev, s') = cb_ws_close s in Some (ev, s', m))
             | Recv b n \<Rightarrow> do { (s', m') \<leftarrow> cb_ws_recv pth b s m; Some ([], s', m') }
             | _ \<Rightarrow> Some ([Net e], s, m));
          (evs, s2, m2) \<leftarrow> dispatch pth es s1 m1;
          Some (ev @ evs, s2, m2) }"

definition network_callback ::
    "nat \<Rightarrow> int \<times> int \<times> int \<Rightarrow> lws_reason \<Rightarrow> leda \<Rightarrow> mem \<Rightarrow> (leda_event list \<times> leda \<times> mem) option" where
  "network_callback lws_pre pth reason s m =
     do { (_, ev, c, m1) \<leftarrow> callback_dumb_increment lws_pre reason (client s) m;
          dispatch pth ev (s\<lparr>client := c\<rparr>) m1 }"

text \<open>A worker takes a task and runs it.\<close>

definition worker_task :: "nat \<Rightarrow> leda \<Rightarrow> mem \<Rightarrow> (leda_event list \<times> leda \<times> mem) option" where
  "worker_task lws_pre s m =
     (case g_threadpool s of
        Some (Some q) \<Rightarrow>
          do { (p, q') \<leftarrow> grab_task q; threadpool_recv_proc lws_pre p (s\<lparr>g_threadpool := Some (Some q')\<rparr>) m }
      | _ \<Rightarrow> None)"

end
