(* ===== verification/Leda_Flow.thy ===== *)
theory Leda_Flow
  imports Leda
begin

text \<open>
  What the parts do together: a message that comes in goes from the client through the parser into the queue of
  the thread pool, a worker answers it or hands a reply to the sender that waits for it. The lemmas of the
  parts are combined here along these ways.
\<close>

subsection \<open>A message into the outgoing buffer\<close>

definition client_ready :: "nat \<Rightarrow> wsc \<Rightarrow> bool" where
  "client_ready lws_pre c \<longleftrightarrow> wsb_inv lws_pre (out_msgs c) \<and> ring_ok (out_msgs c) \<and> used (out_msgs c) < length (slots (out_msgs c))"

abbreviation outbox :: "nat \<Rightarrow> leda \<Rightarrow> (string \<times> int) list" where
  "outbox lws_pre s \<equiv> pending lws_pre (out_msgs (client s))"

lemma push_live:
  "client_buf_mgmt_push lws_pre msg len t s m = Some (r, n, s', m') \<Longrightarrow> live m' = live m"
  by (auto simp: client_buf_mgmt_push_def c_realloc_def Let_def split: option.splits prod.splits if_splits bind_splits)

lemma add_msg_ok:
  assumes "client_ready lws_pre c" "reliable m" "0 < n" "n \<le> length bytes" "n + 1 + lws_pre < 2 ^ 64"
  obtains b m' where "wsc_add_msg lws_pre (Some bytes) (of_nat n) 0 c m = Some (LE_SUCCESS, notify_network c, c\<lparr>out_msgs := b\<rparr>, m')"
    "pending lws_pre b = pending lws_pre (out_msgs c) @ [(take n bytes, 0)]" "reliable m'" "live m' = live m"
    "wsb_inv lws_pre b" "ring_ok b"
proof -
  have n: "unat (of_nat n :: size_t) = n" using assms(5) by (intro unat_small) simp
  then have nz: "(of_nat n :: size_t) \<noteq> 0" using assms(3) by auto
  have rdy: "wsb_inv lws_pre (out_msgs c)" "ring_ok (out_msgs c)" "used (out_msgs c) < length (slots (out_msgs c))"
    using assms(1) by (simp_all add: client_ready_def)
  obtain b m' where p: "client_buf_mgmt_push lws_pre (Some bytes) (of_nat n) 0 (out_msgs c) m = Some (LE_SUCCESS, True, b, m')"
    "wsb_inv lws_pre b" "ring_ok b" "pending lws_pre b = pending lws_pre (out_msgs c) @ [(take n bytes, 0)]" "orc m' = orc m"
  proof (rule push_refines [OF rdy, of "of_nat n" bytes m 0])
    show "fst (c_realloc m)" using assms(2) by simp
  qed (use that n assms(4,5) in auto)
  have "reliable m'" using p(5) assms(2) by (simp add: reliable_def)
  then show thesis using that p nz push_live [OF p(1)] by (simp add: wsc_add_msg_def)
qed

subsection \<open>Replies without a payload, large ids\<close>

lemma print_nothing: "\<exists>m'. cJSON_PrintUnformatted None m = Some (None, m') \<and> live m' = live m"
proof (cases rule: malloc_split [of m])
  case (1 m1)
  then show ?thesis by (simp add: cJSON_PrintUnformatted_def print_json_def)
next
  case (2 m1)
  then show ?thesis by (simp add: cJSON_PrintUnformatted_def print_json_def)
qed

lemma uint_high:
  assumes "2 ^ 31 \<le> unat w"
  shows "2147483648 \<le> uint w"
proof -
  have "int 2147483648 \<le> int (unat w)" using assms unfolding of_nat_le_iff by simp
  then show ?thesis by simp
qed

lemma int_of_uint_high:
  fixes w :: "32 word"
  assumes "2 ^ 31 \<le> unat w"
  shows "int_of_uint w = uint w - 2 ^ 32"
proof -
  have "2147483648 \<le> uint w" "uint w < 4294967296" using uint_high [OF assms] uint_lt2p [of w] by simp_all
  then have "(uint w - 2147483648 + 4294967296) mod 4294967296 = uint w - 2147483648"
    unfolding mod_add_self2 by (intro mod_pos_pos_trivial) linarith+
  then have "take_bit (Suc 31) (uint w + 2 ^ 31) - 2 ^ 31 = uint w - 2 ^ 32"
    unfolding take_bit_eq_mod by (simp add: add.commute)
  then have "signed_take_bit 31 (uint w) = uint w - 2 ^ 32"
    unfolding signed_take_bit_eq_take_bit_shift .
  moreover have "int_of_uint w = signed_take_bit 31 (uint w)" unfolding int_of_uint_def sint_uint by simp
  ultimately show ?thesis by (rule trans [rotated])
qed

lemma saturate_large:
  assumes "INT_MAX \<le> n" "n < 2 ^ 53"
  shows "saturate (double_of_int n) = Some INT_MAX"
proof -
  have "\<bar>n\<bar> < 2 ^ 53" using assms by simp
  then show ?thesis using assms by (simp add: saturate_def double_of_int_exact)
qed

text \<open>C38: A reply without a payload is lost: the worker prints the payload before it looks for the waiting request, and
  when there is none it gives up, so the sender is not woken although its answer (with its code) has arrived, and
  the application is not told either.\<close>

theorem reply_without_payload_lost:
  assumes "pm_type p = MSG_RSP" "pm_payload p = None"
  shows "\<exists>m'. threadpool_recv_proc lws_pre p s m = Some ([], s, m') \<and> live m' = live m - 1"
proof -
  obtain m' where "cJSON_PrintUnformatted None m = Some (None, m')" "live m' = live m" using print_nothing by blast
  then show ?thesis using assms by (simp add: threadpool_recv_proc_def handle_reply_def cJSON_Delete_def)
qed

text \<open>The SDK before its initialisation.\<close>

definition no_devs :: leda_device_callback where
  "no_devs = \<lparr>get_properties_cb = None, usr_data_get_property = No_data, set_properties_cb = None, usr_data_set_property = No_data,
     call_service_cb = None, service_output_max_count = 0, usr_data_call_service = No_data,
     report_reply_cb = False, usr_data_report_reply = No_data\<rparr>"

definition no_conn :: wsc_param_conn where
  "no_conn = \<lparr>url = None, conn_timeout = 0, ca_path = None, cert_path = None, key_path = None, protocol = None\<rparr>"

definition leda0 :: leda where
  "leda0 = \<lparr>g_conn_cb = None, g_devs_cb = no_devs, g_has_init = 0, g_conn_state = - 1, g_wsc_conn = no_conn, g_param_conn = no_conn,
     g_msg_id = 0, g_threadpool = None, replies_st = no_replies,
     client = \<lparr>g_cbs = None, recv_tmp = no_fragment, gwc_recv_tmpInfo = no_fragment, g_wsi = False, force_exit = False, out_msgs = wsbuf0\<rparr>\<rparr>"

lemma reply_without_payload_lost_witness:
  "\<exists>m'. threadpool_recv_proc 16 \<lparr>pm_type = MSG_RSP, pm_id = 7, pm_code = 0, pm_method = [], pm_payload = None\<rparr> leda0 always = Some ([], leda0, m')"
  using reply_without_payload_lost [of "\<lparr>pm_type = MSG_RSP, pm_id = 7, pm_code = 0, pm_method = [], pm_payload = None\<rparr>"] by fastforce

text \<open>C39: From the id 2 ^ 31 on no request is answered: the request is registered under the negative \<open>int\<close> of its id,
  but the gateway's reply, which repeats the id as the number it is, is read back as \<open>INT_MAX\<close>, and (unless another
  request has that id) \<open>_ws_set_reply_result\<close> finds nothing.\<close>

theorem high_ids_never_answered:
  assumes "2 ^ 31 \<le> unat w" "holds_table s t" "entry_of INT_MAX t = None" "reliable m"
  shows "\<exists>s' m' i. ws_insert_reply True (int_of_uint w) s m = Some (LE_SUCCESS, s', m') \<and>
     saturate (double_of_int (uint w)) = Some i \<and>
     (\<forall>code payload m. ws_set_reply_result i code payload s' m = Some (LE_ERROR_UNKNOWN, s', m))"
proof -
  have w: "int_of_uint w = uint w - 2 ^ 32" "uint w < 2 ^ 32"
    using int_of_uint_high [OF assms(1)] uint_lt2p [of w] by simp_all
  have "saturate (double_of_int (uint w)) = Some INT_MAX"
    by (rule saturate_large) (use uint_high [OF assms(1)] w(2) in simp_all)
  moreover obtain s' m' where ins: "ws_insert_reply True (int_of_uint w) s m = Some (LE_SUCCESS, s', m')"
    "holds_table s' ((brk s, new_reply (int_of_uint w)) # t)"
    using insert_table [OF assms(2), of True "int_of_uint w" m] assms(4) by auto
  moreover have "entry_of INT_MAX ((brk s, new_reply (int_of_uint w)) # t) = None"
    using assms(3) w by (simp add: entry_of_def new_reply_def del: unsigned_less)
  then have "ws_set_reply_result INT_MAX code payload s' m2 = Some (LE_ERROR_UNKNOWN, s', m2)" for code payload m2
    using get_reply_table [OF ins(2), of INT_MAX] by (simp add: ws_set_reply_result_def)
  ultimately show ?thesis by blast
qed

lemma high_ids_never_answered_witness:
  "\<exists>s' m' i. ws_insert_reply True (int_of_uint 2147483649) no_replies always = Some (LE_SUCCESS, s', m') \<and>
     (\<forall>code payload m. ws_set_reply_result i code payload s' m = Some (LE_ERROR_UNKNOWN, s', m))"
proof -
  have "2 ^ 31 \<le> unat (2147483649 :: 32 word)" "entry_of INT_MAX [] = None" by (simp_all add: entry_of_def)
  from high_ids_never_answered [OF this(1) holds_no_replies this(2) reliable_always] show ?thesis by blast
qed

subsection \<open>Initialisation and exit\<close>

text \<open>C40: An initialisation that is refused for its address leaves a pool behind: three blocks and five running threads,
  and the next attempt replaces the only pointer to it.\<close>

theorem refused_init_leaks_pool:
  assumes "g_has_init s = 0" "reliable m" "server_ip info = None \<or> server_ip info = Some ip \<and> \<not> inet_ok ip"
  shows "\<exists>s1 m1 s2 m2. leda_init (0, 0, \<lambda>_. 0) inet_ok ws_rets info s m = (LE_ERROR_INVAILD_PARAM, s1, m1) \<and>
     (\<exists>p. g_threadpool s1 = Some (Some p) \<and> started p = 5) \<and> live m1 = live m + 3 \<and>
     leda_init (0, 0, \<lambda>_. 0) inet_ok ws_rets info s1 m1 = (LE_ERROR_INVAILD_PARAM, s2, m2) \<and> live m2 = live m + 6"
proof -
  have create: "\<exists>p m'. (threadpool_create 0 0 (\<lambda>_. 0) 5 (5 * 1024) m :: parsed_msg pool option \<times> mem) = (Some p, m') \<and>
      live m' = live m + 3 \<and> started p = 5 \<and> reliable m'" if "reliable m" for m
  proof -
    obtain r m' where c: "(threadpool_create 0 0 (\<lambda>_. 0) 5 (5 * 1024) m :: parsed_msg pool option \<times> mem) = (r, m')" by (metis surj_pair)
    have "r \<noteq> None \<and> reliable m'"
      using c that by (auto simp: threadpool_create_def MAX_THREADS_def MAX_QUEUE_def malloc_def reliable_def eval_nat_numeral Let_def)
    then show ?thesis using create_spec [OF c] c by auto
  qed
  have init: "\<exists>p m'. leda_init (0, 0, \<lambda>_. 0) inet_ok ws_rets info s m = (LE_ERROR_INVAILD_PARAM, s\<lparr>g_threadpool := Some (Some p)\<rparr>, m') \<and>
      live m' = live m + 3 \<and> started p = 5 \<and> reliable m'" if "reliable m" "g_has_init s = 0" for s m
    using create [OF that(1)] that(2) assms(3) by (auto simp: leda_init_def)
  obtain p m1 where 1: "leda_init (0, 0, \<lambda>_. 0) inet_ok ws_rets info s m = (LE_ERROR_INVAILD_PARAM, s\<lparr>g_threadpool := Some (Some p)\<rparr>, m1)"
    "live m1 = live m + 3" "started p = 5" "reliable m1" using init [OF assms(2,1)] by blast
  obtain p2 m2 where 2: "leda_init (0, 0, \<lambda>_. 0) inet_ok ws_rets info (s\<lparr>g_threadpool := Some (Some p)\<rparr>) m1 =
      (LE_ERROR_INVAILD_PARAM, s\<lparr>g_threadpool := Some (Some p), g_threadpool := Some (Some p2)\<rparr>, m2)" "live m2 = live m1 + 3"
    using init [OF 1(4), of "s\<lparr>g_threadpool := Some (Some p)\<rparr>"] assms(1) by auto
  have "live m2 = live m + 6" using 1(2) 2(2) by simp
  then show ?thesis using 1 2(1) by auto
qed

definition bad_info :: leda_conn_info where
  "bad_info = \<lparr>server_ip = Some ''gateway'', server_port = 5432, use_tls = 0, info_ca_path = None, info_timeout = 60,
     ws_conn_cb = None, conn_devices_cb = no_devs\<rparr>"

lemma refused_init_leaks_pool_witness:
  "\<exists>s1 m1 s2 m2. leda_init (0, 0, \<lambda>_. 0) (\<lambda>ip. ip = ''127.0.0.1'') (0, 0) bad_info leda0 always = (LE_ERROR_INVAILD_PARAM, s1, m1) \<and>
     leda_init (0, 0, \<lambda>_. 0) (\<lambda>ip. ip = ''127.0.0.1'') (0, 0) bad_info s1 m1 = (LE_ERROR_INVAILD_PARAM, s2, m2) \<and> live m2 = 6"
proof -
  have "g_has_init leda0 = 0" by (simp add: leda0_def)
  moreover have "server_ip bad_info = None \<or> server_ip bad_info = Some ''gateway'' \<and> \<not> (\<lambda>ip. ip = ''127.0.0.1'') ''gateway''"
    by (simp add: bad_info_def)
  moreover have "live always = 0" by (simp add: always_def)
  ultimately show ?thesis using refused_init_leaks_pool [of leda0 always bad_info "''gateway''" "\<lambda>ip. ip = ''127.0.0.1''" "(0, 0)"] by force
qed

text \<open>After an exit the pointer to the destroyed pool is still there: a second \<open>leda_exit\<close> destroys the freed pool
  again, and a message that the network thread receives late (the exit does not wait for it) is queued in it.\<close>

theorem exit_leaves_dangling_pool:
  assumes "g_threadpool s = Some (Some p)"
    and "threadpool_destroy (fst rets) (fst (snd rets)) (snd (snd rets)) others (Some p) True m = (0, None, m1)"
  shows "\<exists>s' m'. leda_exit rets others s m = Some (s', m') \<and> g_has_init s' = 0 \<and> g_threadpool s' = Some None \<and>
     (\<forall>rets' others' m2. leda_exit rets' others' s' m2 = None) \<and>
     (\<forall>pth block m2. text_of block = Some ''{}'' \<and> reliable m2 \<longrightarrow> cb_ws_recv pth (Some block) s' m2 = None)"
proof -
  obtain rc w m2 where w: "ws_client_destroy (client s) m1 = (rc, w, m2)" by (metis prod_cases3)
  have "\<exists>s' m'. leda_exit rets others s m = Some (s', m') \<and> g_threadpool s' = Some None \<and> g_has_init s' = 0"
    using assms w by (simp add: leda_exit_def free_conn_def)
  then obtain s' m' where e: "leda_exit rets others s m = Some (s', m')" "g_threadpool s' = Some None" "g_has_init s' = 0" by blast
  have "leda_exit rets' others' s' m2 = None" for rets' others' m2 using e(2) by (simp add: leda_exit_def)
  moreover have "cb_ws_recv pth (Some block) s' m'' = None" if blk: "text_of block = Some ''{}''" and rel: "reliable m''" for pth block m''
  proof -
    define r where "r = Item cJSON_Object None 0 zero_double None []"
    have r: "json_document r" "render False 0 r = Some ''{}''"
      by (simp_all add: r_def json_document_def CJSON_NESTING_LIMIT_def cjson_type_defs render.simps)
    obtain m2 where p: "cJSON_ParseWithOpts (Some ''{}'') False m'' = Some (Some r, 2, m2)" "reliable m2"
      using parse_render [OF _ _ r(2) rel, of False] r(1) by (auto simp: json_document_def)
    then have parse: "cJSON_Parse (Some ''{}'') m'' = Some (Some r, m2)" by (simp add: cJSON_Parse_def)
    obtain m3 where "malloc m2 = (True, m3)" using malloc_split [of m2] p(2) by metis
    moreover have "leda_parse_receive_msg (Some r) = (MSG_INVALID, None, None, None, None)"
      by (simp add: leda_parse_receive_msg_def cJSON_GetObjectItem_find r_def)
    ultimately show ?thesis using parse blk e(2) by (simp add: cb_ws_recv_def)
  qed
  ultimately show ?thesis using e by blast
qed

lemma exit_leaves_dangling_pool_witness:
  "\<exists>s' m'. leda_exit (0, 0, \<lambda>_. 0) (\<lambda>p. p\<lparr>started := 0\<rparr>)
       (leda0\<lparr>g_threadpool := Some (Some \<lparr>threads = True, queue = Some [None], thread_count = 1, queue_size = 1, head = 0, tail = 0,
          count = 0, shutdown = 0, started = 1\<rparr>)\<rparr>) always = Some (s', m') \<and>
     leda_exit (0, 0, \<lambda>_. 0) (\<lambda>p. p) s' m' = None"
proof -
  let ?p = "\<lparr>threads = True, queue = Some [None], thread_count = 1, queue_size = 1, head = 0, tail = 0, count = 0, shutdown = 0, started = 1\<rparr> :: parsed_msg pool"
  have g: "g_threadpool (leda0\<lparr>g_threadpool := Some (Some ?p)\<rparr>) = Some (Some ?p)" by simp
  define rets :: "int \<times> int \<times> (nat \<Rightarrow> int)" where "rets = (0, 0, \<lambda>_. 0)"
  obtain m1 where "threadpool_destroy (fst rets) (fst (snd rets)) (snd (snd rets)) (\<lambda>p. p\<lparr>started := 0\<rparr>) (Some ?p) True always = (0, None, m1)"
    by (simp add: rets_def threadpool_destroy_def destroy_section_def join_workers_def threadpool_free_def list_all_iff Let_def)
  from exit_leaves_dangling_pool [OF g this] show ?thesis unfolding rets_def by blast
qed

subsection \<open>Messages that come in\<close>

lemma text_of_block [simp]: "is_cstr t \<Longrightarrow> text_of (map Some t @ Some NUL # bs) = Some t"
  by (simp add: text_of_def strlen_at_map comp_def)

lemma text_of_cstr: "text_of b = Some t \<Longrightarrow> is_cstr t"
proof -
  have "strlen_at b = Some n \<Longrightarrow> is_cstr (map the (take n b))" for n
    by (induction b arbitrary: n rule: strlen_at.induct) (auto split: if_splits bind_splits)
  then show "text_of b = Some t \<Longrightarrow> is_cstr t" by (auto simp: text_of_def split: bind_splits)
qed

text \<open>The task a message becomes.\<close>

definition task_of :: "cJSON \<Rightarrow> parsed_msg" where
  "task_of it =
     (let (ty, i, c, mt, pl) = leda_parse_receive_msg (Some it) in
      \<lparr>pm_type = ty, pm_id = or_zero i, pm_code = or_zero c,
       pm_method = (case mt of None \<Rightarrow> [] | Some x \<Rightarrow> snprintf_s 16 x), pm_payload = map_option unref pl\<rparr>)"

definition task_blocks :: "parsed_msg \<Rightarrow> int" where
  "task_blocks p = 1 + (case pm_payload p of None \<Rightarrow> 0 | Some pl \<Rightarrow> int (blocks pl))"

lemma recv_queues:
  assumes "text_of block = Some t" "g_threadpool s = Some (Some q)" "pool_ok q"
  shows "\<exists>s' m'. cb_ws_recv (0, 0, 0) (Some block) s m = Some (s', m') \<and>
     (s' = s \<and> live m' = live m \<and> (\<forall>it m1. cJSON_Parse (Some t) m = Some (Some it, m1) \<longrightarrow> \<not> reliable m1)
      \<or> (\<exists>it m1. cJSON_Parse (Some t) m = Some (Some it, m1) \<and> live m' = live m + task_blocks (task_of it) \<and> reliable m' = reliable m1 \<and>
          (if count q < queue_size q \<and> shutdown q = 0
           then \<exists>q'. s' = s\<lparr>g_threadpool := Some (Some q')\<rparr> \<and> pool_ok q' \<and> tasks q' = tasks q @ [task_of it] \<and> shutdown q' = 0 \<and> queue_size q' = queue_size q
           else s' = s)))"
proof -
  have cs: "is_cstr t" by (rule text_of_cstr [OF assms(1)])
  obtain r m1 where p: "cJSON_Parse (Some t) m = Some (r, m1)" "live (cJSON_Delete r m1) = live m"
    using parse_safe_lemma [of "Some t" False m] cs by (auto simp: cJSON_Parse_def)
  show ?thesis
  proof (cases r)
    case None
    then show ?thesis using p assms(1) by (simp add: cb_ws_recv_def cJSON_Delete_def)
  next
    case r: (Some it)
    then have live1: "live m1 = live m + blocks it" using p(2) by (simp add: cJSON_Delete_def)
    note start = cb_ws_recv_def assms(1) p(1) r
    show ?thesis
    proof (cases rule: malloc_split [of m1])
      case (2 m2)
      then show ?thesis using live1 by (simp add: start cJSON_Delete_def)
    next
      case (1 m2)
      obtain ty i c mt pl where f: "leda_parse_receive_msg (Some it) = (ty, i, c, mt, pl)" by (metis prod_cases5)
      obtain pl1 m3 where d: "(if pl = None then (None, m2) else cJSON_Duplicate pl True m2) = (pl1, m3)" by (metis surj_pair)
      show ?thesis
      proof (cases "pl \<noteq> None \<and> pl1 = None")
        case True
        then obtain x where "pl = Some x" "dup_item x m2 = (None, m3)" using d by (auto simp: cJSON_Duplicate_def split: if_splits)
        then have "live m3 = live m2" "\<not> reliable m2" using dup_spec(1) by blast+
        then show ?thesis using 1 True live1 d f by (simp add: start cJSON_Delete_def)
      next
        case False
        have dup: "pl1 = map_option unref pl" "live m3 = live m2 + (case pl1 of None \<Rightarrow> 0 | Some x \<Rightarrow> int (blocks x))" "reliable m3 = reliable m2"
          using d False dup_spec(1) by (auto simp: cJSON_Duplicate_def split: if_splits option.splits)
        define tk where "tk = task_of it"
        have tk: "tk = \<lparr>pm_type = ty, pm_id = or_zero i, pm_code = or_zero c,
            pm_method = (case mt of None \<Rightarrow> [] | Some x \<Rightarrow> snprintf_s 16 x), pm_payload = pl1\<rparr>"
          by (simp add: tk_def task_of_def f dup(1))
        define m4 where "m4 = cJSON_Delete (Some it) m3"
        have live4: "live m4 = live m + task_blocks tk" "reliable m4 = reliable m1"
          using live1 1 dup by (simp_all add: m4_def cJSON_Delete_def task_blocks_def tk)
        have run: "cb_ws_recv (0, 0, 0) (Some block) s m =
            do { (_, _, q2) \<leftarrow> threadpool_add 0 0 0 (Some q) (Some tk); Some (s\<lparr>g_threadpool := Some q2\<rparr>, m4) }"
        proof -
          show ?thesis using 1 False d f assms(2) by (cases pl) (auto simp: start tk m4_def)
        qed
        show ?thesis
        proof (cases "count q < queue_size q \<and> shutdown q = 0")
          case True
          then obtain q' where q': "add_section 0 tk q = Some (0, True, q')" "pool_ok q'" "tasks q' = tasks q @ [tk]" "shutdown q' = 0"
            "queue_size q' = queue_size q"
            using add_section_refines [OF assms(3), of 0 tk] by auto
          then show ?thesis using run True p(1) r live4 unfolding tk_def by (auto simp: threadpool_add_def)
        next
          case full: False
          then have "\<exists>err. add_section 0 tk q = Some (err, False, q)"
            using assms(3) by (auto simp: add_section_def pool_ok_def Let_def)
          then have "cb_ws_recv (0, 0, 0) (Some block) s m = Some (s, m4)" using run assms(2) by (auto simp: threadpool_add_def)
          then show ?thesis using full p(1) r live4 unfolding tk_def by auto
        qed
      qed
    qed
  qed
qed

text \<open>C27: What the gateway sends becomes a task: for every text that arrives, whatever it contains and whatever
  allocations fail, \<open>cb_ws_recv\<close> is defined. It drops the message without a trace when it is no JSON (or there
  is no memory), and otherwise appends exactly one task, made of its type, id, code, method and a copy of its
  payload, to the queue of an open pool; when the pool refuses it (it is full or shut down), the task's blocks
  are never freed.\<close>

theorem incoming_message_queued:
  assumes "text_of block = Some t" "g_threadpool s = Some (Some q)" "pool_ok q"
  shows "\<exists>s' m'. cb_ws_recv (0, 0, 0) (Some block) s m = Some (s', m') \<and>
     (s' = s \<and> live m' = live m \<and> (\<forall>it m1. cJSON_Parse (Some t) m = Some (Some it, m1) \<longrightarrow> \<not> reliable m1)
      \<or> (\<exists>it m1. cJSON_Parse (Some t) m = Some (Some it, m1) \<and> live m' = live m + task_blocks (task_of it) \<and>
          (if count q < queue_size q \<and> shutdown q = 0
           then \<exists>q'. s' = s\<lparr>g_threadpool := Some (Some q')\<rparr> \<and> pool_ok q' \<and> tasks q' = tasks q @ [task_of it]
           else s' = s)))"
  using recv_queues [OF assms, of m] by (fastforce split: if_splits)

definition open_queue :: "parsed_msg pool" where
  "open_queue = \<lparr>threads = True, queue = Some [None, None], thread_count = 1, queue_size = 2, head = 0, tail = 0,
     count = 0, shutdown = 0, started = 1\<rparr>"

lemma open_queue_ok: "pool_ok open_queue" "tasks open_queue = []" "count open_queue < queue_size open_queue" "shutdown open_queue = 0"
  by (simp_all add: pool_ok_def tasks_def ring_list_def open_queue_def)

lemma incoming_message_queued_witness:
  "\<exists>s' m'. cb_ws_recv (0, 0, 0) (Some (map Some ''{}'' @ [Some NUL])) (leda0\<lparr>g_threadpool := Some (Some open_queue)\<rparr>) never = Some (s', m')"
proof -
  have "text_of (map Some ''{}'' @ [Some NUL]) = Some ''{}''" by (rule text_of_block) simp
  from incoming_message_queued [OF this _ open_queue_ok(1), of "leda0\<lparr>g_threadpool := Some (Some open_queue)\<rparr>" never]
  show ?thesis by force
qed

subsection \<open>The request that is sent\<close>

text \<open>The document of a request, and the tree that the code builds for it, payload first left out.\<close>

definition request_tree :: "string \<Rightarrow> 32 word \<Rightarrow> cJSON" where
  "request_tree mth i = Item cJSON_Object None 0 zero_double None
     [set_jstring (Some ''version'') (text_item PROTOCOL_VERSION),
      Item cJSON_Number None (the (saturate (double_of_int (uint i)))) (double_of_int (uint i)) (Some ''messageId'') [],
      set_jstring (Some ''method'') (text_item mth)]"

definition device_members :: "string \<Rightarrow> string \<Rightarrow> cJSON list" where
  "device_members pk dn = [set_jstring (Some ''productKey'') (text_item pk), set_jstring (Some ''deviceName'') (text_item dn)]"

definition request :: "string \<Rightarrow> string \<Rightarrow> string \<Rightarrow> 32 word \<Rightarrow> cJSON list \<Rightarrow> cJSON" where
  "request mth pk dn i extra =
     set_child (child (request_tree mth i) @ [Item cJSON_Object None 0 zero_double (Some ''payload'') (device_members pk dn @ extra)])
       (request_tree mth i)"

lemma uint_small: "\<bar>uint (i :: 32 word)\<bar> < 10 ^ 15"
proof -
  have "uint i < 4294967296" using uint_lt2p [of i] by simp
  then have "uint i < 10 ^ 15" by (rule less_trans) simp
  then show ?thesis by simp
qed

lemma keyed_text [simp]: "keyed k (text_item s) = set_jstring (Some k) (text_item s)"
  by (simp add: keyed_def text_item_def cjson_type_defs)

lemma request_head_ok:
  assumes "reliable m"
  obtains m' where "request_head mth pk dn i (Some empty_object) (Some empty_object) m =
      Some (True, Some (request_tree mth i), Some (Item cJSON_Object None 0 zero_double (Some ''payload'') (device_members pk dn)), m')"
    "reliable m'" "live m' = live m + blocks (request mth pk dn i []) - 2"
proof -
  let ?v = "with_member ''version'' (text_item PROTOCOL_VERSION) empty_object"
  have e: "\<not> is_ref empty_object" "blocks empty_object = 1" by (simp_all add: empty_object_def cjson_type_defs)
  obtain m1 where 1: "cJSON_AddStringToObject (Some empty_object) (Some ''version'') (Some PROTOCOL_VERSION) m =
      (Some (keyed ''version'' (text_item PROTOCOL_VERSION)), Some ?v, m1)" "reliable m1" "live m1 - blocks ?v = live m - blocks empty_object" "\<not> is_ref ?v"
    using add_text_ok [OF assms e(1)] by blast
  obtain n where n: "saturate (double_of_int (uint i)) = Some n" using saturate_int [OF uint_small [of i]] by metis
  let ?n = "Item cJSON_Number None n (double_of_int (uint i)) None []"
  let ?w = "with_member ''messageId'' ?n ?v"
  obtain m2 where 2: "cJSON_AddNumberToObject (Some ?v) (Some ''messageId'') (double_of_int (uint i)) m1 = Some (Some (keyed ''messageId'' ?n), Some ?w, m2)"
    "reliable m2" "live m2 - blocks ?w = live m1 - blocks ?v" "\<not> is_ref ?w"
    using add_number_ok [OF 1(2,4) n] by blast
  have tree: "with_member ''method'' (text_item mth) ?w = request_tree mth i"
    by (simp add: with_member_def request_tree_def empty_object_def n keyed_def text_item_def cjson_type_defs)
  obtain m3 where 3: "cJSON_AddStringToObject (Some ?w) (Some ''method'') (Some mth) m2 =
      (Some (keyed ''method'' (text_item mth)), Some (request_tree mth i), m3)" "reliable m3"
    "live m3 - blocks (request_tree mth i) = live m2 - blocks ?w" "\<not> is_ref (request_tree mth i)"
    using add_text_ok [OF 2(2,4), of "''method''" mth] unfolding tree by blast
  have j: "jstring empty_object = None" by (simp add: empty_object_def)
  let ?p0 = "keyed ''payload'' empty_object"
  obtain m4 where 4: "add_item_to_object (Some (request_tree mth i)) (Some ''payload'') (Some empty_object) False m3 =
      (True, Some (with_member ''payload'' empty_object (request_tree mth i)), Some ?p0, m4)" "reliable m4"
    "live m4 - blocks (with_member ''payload'' empty_object (request_tree mth i)) = live m3 - blocks (request_tree mth i) - blocks empty_object"
    using add_member_ok [OF 3(2) j 3(4)] by blast
  have p0: "\<not> is_ref ?p0" "blocks ?p0 = 2" by (simp_all add: keyed_def empty_object_def cjson_type_defs)
  have w4: "blocks (with_member ''payload'' empty_object (request_tree mth i)) = blocks (request_tree mth i) + 2"
    using blocks_with_member [OF 3(4)] p0(2) by simp
  let ?p1 = "with_member ''productKey'' (text_item pk) ?p0"
  obtain m5 where 5: "cJSON_AddStringToObject (Some ?p0) (Some ''productKey'') (Some pk) m4 =
      (Some (keyed ''productKey'' (text_item pk)), Some ?p1, m5)" "reliable m5" "live m5 - blocks ?p1 = live m4 - blocks ?p0" "\<not> is_ref ?p1"
    using add_text_ok [OF 4(2) p0(1)] by blast
  let ?p2 = "with_member ''deviceName'' (text_item dn) ?p1"
  have p2: "?p2 = Item cJSON_Object None 0 zero_double (Some ''payload'') (device_members pk dn)"
    by (simp add: with_member_def device_members_def empty_object_def keyed_def text_item_def cjson_type_defs)
  obtain m6 where 6: "cJSON_AddStringToObject (Some ?p1) (Some ''deviceName'') (Some dn) m5 =
      (Some (keyed ''deviceName'' (text_item dn)), Some ?p2, m6)" "reliable m6" "live m6 - blocks ?p2 = live m5 - blocks ?p1"
    using add_text_ok [OF 5(2,4)] by blast
  have "blocks (request mth pk dn i []) = blocks (request_tree mth i) + blocks ?p2"
    unfolding p2 request_def append_Nil2 by (rule blocks_add_child [OF 3(4)])
  then have "live m6 = live m + blocks (request mth pk dn i []) - 2"
    using 1(3) 2(3) 3(3) 4(3) 5(3) 6(3) w4 p0(2) e(2) by simp
  then show thesis
    using that [of m6] 1(1) 2(1) 3(1) 4(1) 5(1) 6(1,2) unfolding p2 by (simp add: request_head_def)
qed

lemma request_document:
  assumes "is_cstr mth" "is_cstr pk" "is_cstr dn" "list_all (\<lambda>e. is_text (jstring e) \<and> canonical (CJSON_NESTING_LIMIT - 2) e) extra"
  shows "json_document (request mth pk dn i extra)"
proof -
  obtain n where n: "saturate (double_of_int (uint i)) = Some n" using saturate_int [OF uint_small [of i]] by metis
  have "canonical l (Item cJSON_Number None n (double_of_int (uint i)) k [])" for l k
    by (rule canonical_number [OF uint_small n])
  moreover have "is_cstr PROTOCOL_VERSION" by (simp add: PROTOCOL_VERSION_def)
  moreover have lim: "CJSON_NESTING_LIMIT - 1 - 1 = CJSON_NESTING_LIMIT - 2" "0 < CJSON_NESTING_LIMIT - 1" "0 < CJSON_NESTING_LIMIT"
    by (simp_all add: CJSON_NESTING_LIMIT_def)
  ultimately show ?thesis
    using assms n by (simp add: json_document_def request_def request_tree_def device_members_def is_text_def cjson_type_defs)
qed

lemma json_document_printable: "json_document it \<Longrightarrow> printable it"
  by (auto simp: json_document_def cstr_opt_def intro: canonical_printable)

text \<open>Printing a tree that is there, and freeing it.\<close>

lemma print_and_delete:
  assumes "json_document it" "render False 0 it = Some t" "length t + 2 \<le> int_max" "reliable m"
  obtains m1 where "cJSON_PrintUnformatted (Some it) m = Some (Some t, m1)" "reliable m1" "live m1 = live m + 1"
  using print_json_outcome [OF json_document_printable [OF assms(1)], of True False m] assms(2-4)
  by (auto simp: cJSON_PrintUnformatted_def)

lemma int_of_uint_id: "unat i < 2 ^ 31 \<Longrightarrow> int_of_uint i = uint i"
  using int_of_uint_small [of i] by simp

lemma request_start:
  assumes "reliable m"
  obtains m1 m2 m3 where "cJSON_CreateObject m = (Some empty_object, m1)" "cJSON_CreateObject m1 = (Some empty_object, m2)"
    "request_head mth pk dn i (Some empty_object) (Some empty_object) m2 =
      Some (True, Some (request_tree mth i), Some (Item cJSON_Object None 0 zero_double (Some ''payload'') (device_members pk dn)), m3)"
    "reliable m3" "live m3 = live m + blocks (request mth pk dn i [])"
proof -
  obtain m1 where 1: "cJSON_CreateObject m = (Some empty_object, m1)" "reliable m1" "live m1 = live m + blocks empty_object"
    using create_object_ok [OF assms] .
  obtain m2 where 2: "cJSON_CreateObject m1 = (Some empty_object, m2)" "reliable m2" "live m2 = live m1 + blocks empty_object"
    using create_object_ok [OF 1(2)] .
  obtain m3 where 3: "request_head mth pk dn i (Some empty_object) (Some empty_object) m2 =
      Some (True, Some (request_tree mth i), Some (Item cJSON_Object None 0 zero_double (Some ''payload'') (device_members pk dn)), m3)"
    "reliable m3" "live m3 = live m2 + blocks (request mth pk dn i []) - 2"
    using request_head_ok [OF 2(2)] .
  have "blocks empty_object = 1" by (simp add: empty_object_def cjson_type_defs)
  then have "live m3 = live m + blocks (request mth pk dn i [])" using 1(3) 2(3) 3(3) by simp
  then show thesis by (rule that [OF 1(1) 2(1) 3(1,2)])
qed

lemma send_request:
  assumes "g_conn_state s = LEDA_WS_CONNECTED" "reliable m" "holds_table (replies_st s) tb" "client_ready lws_pre (client s)"
    and "is_cstr mth" "is_cstr pk" "is_cstr dn" "render False 0 (request mth pk dn (g_msg_id s + 1) []) = Some rq"
    and "length rq + 2 \<le> int_max" "lws_pre \<le> 4096" "unat (g_msg_id s + 1) < 2 ^ 31"
  obtains rp b m8 where
    "leda_send_method lws_pre True before waits clock (Some pk) (Some dn) (Some mth) s m =
       do { (s4, m9) \<leftarrow> before (s\<lparr>g_msg_id := g_msg_id s + 1, replies_st := rp, client := (client s)\<lparr>out_msgs := b\<rparr>\<rparr>) m8;
            (ret3, cd, _, rp', m10) \<leftarrow> ws_get_reply_result waits clock (uint (g_msg_id s + 1)) 10000 False (replies_st s4) m9;
            Some (if ret3 \<noteq> LE_SUCCESS then ret3 else or_zero cd, map Net (notify_network (client s)), s4\<lparr>replies_st := rp'\<rparr>, m10) }"
    "holds_table rp ((brk (replies_st s), new_reply (uint (g_msg_id s + 1))) # tb)"
    "pending lws_pre b = outbox lws_pre s @ [(rq, 0)]" "wsb_inv lws_pre b" "ring_ok b"
    "reliable m8" "live m8 = live m + 1"
proof -
  let ?i = "g_msg_id s + 1"
  let ?p = "Item cJSON_Object None 0 zero_double (Some ''payload'') (device_members pk dn)"
  obtain m1 m2 m3 where 3: "cJSON_CreateObject m = (Some empty_object, m1)" "cJSON_CreateObject m1 = (Some empty_object, m2)"
    "request_head mth pk dn ?i (Some empty_object) (Some empty_object) m2 = Some (True, Some (request_tree mth ?i), Some ?p, m3)"
    "reliable m3" "live m3 = live m + blocks (request mth pk dn ?i [])"
    using request_start [OF assms(2)] .
  have join: "join_payload True (Some (request_tree mth ?i)) (Some ?p) = Some (request mth pk dn ?i [])"
    by (simp add: join_payload_def request_def)
  have doc: "json_document (request mth pk dn ?i [])" using request_document assms(5-7) by simp
  obtain m4 where 4: "cJSON_PrintUnformatted (Some (request mth pk dn ?i [])) m3 = Some (Some rq, m4)" "reliable m4" "live m4 = live m3 + 1"
    using print_and_delete [OF doc assms(8,9) 3(4)] .
  define m5 where "m5 = cJSON_Delete (Some (request mth pk dn ?i [])) m4"
  have 5: "reliable m5" "live m5 = live m + 1" using 3(5) 4(2,3) by (simp_all add: m5_def cJSON_Delete_def)
  obtain rp m6 where 6: "ws_insert_reply True (uint ?i) (replies_st s) m5 = Some (LE_SUCCESS, rp, m6)"
    "holds_table rp ((brk (replies_st s), new_reply (uint ?i)) # tb)" "live m6 = live m5 + 1" "reliable m6"
    using insert_table [OF assms(3), of True "uint ?i" m5] 5(1) by auto
  have "rq \<noteq> []" using render_dark [of CJSON_NESTING_LIMIT "request mth pk dn ?i []" False 0 rq] doc assms(8) by (auto simp: json_document_def)
  moreover have "length rq + 1 + lws_pre < 2 ^ 64" using assms(9,10) by simp
  ultimately obtain b m7 where 7: "wsc_add_msg lws_pre (Some (rq @ [NUL])) (of_nat (length rq)) 0 (client s) m6 =
      Some (LE_SUCCESS, notify_network (client s), (client s)\<lparr>out_msgs := b\<rparr>, m7)"
    "pending lws_pre b = pending lws_pre (out_msgs (client s)) @ [(take (length rq) (rq @ [NUL]), 0)]" "reliable m7" "live m7 = live m6"
    "wsb_inv lws_pre b" "ring_ok b"
    using add_msg_ok [OF assms(4) 6(4), of "length rq" "rq @ [NUL]"] by auto
  show thesis
  proof (rule that [where rp = rp and b = b and ?m8.0 = "c_free 1 m7"])
    show "leda_send_method lws_pre True before waits clock (Some pk) (Some dn) (Some mth) s m =
       do { (s4, m9) \<leftarrow> before (s\<lparr>g_msg_id := g_msg_id s + 1, replies_st := rp, client := (client s)\<lparr>out_msgs := b\<rparr>\<rparr>) (c_free 1 m7);
            (ret3, cd, _, rp', m10) \<leftarrow> ws_get_reply_result waits clock (uint (g_msg_id s + 1)) 10000 False (replies_st s4) m9;
            Some (if ret3 \<noteq> LE_SUCCESS then ret3 else or_zero cd, map Net (notify_network (client s)), s4\<lparr>replies_st := rp'\<rparr>, m10) }"
      using assms(1) 3(1-3) 4(1) 6(1) 7(1) int_of_uint_id [OF assms(11)]
      by (simp add: leda_send_method_def ws_get_msg_id_def msg_id_inc_def msg_id_read_def join m5_def)
  qed (use 5 6 7 in simp_all)
qed

subsection \<open>An answer that comes in\<close>

text \<open>The network thread receives the text, and a worker runs the task it became.\<close>

definition answer_arrives :: "nat \<Rightarrow> string \<Rightarrow> leda \<Rightarrow> mem \<Rightarrow> (leda \<times> mem) option" where
  "answer_arrives lws_pre ans s m =
     do { (_, s1, m1) \<leftarrow> network_callback lws_pre (0, 0, 0) (Client_receive True ans) s m;
          (_, s2, m2) \<leftarrow> worker_task lws_pre s1 m1;
          Some (s2, m2) }"

lemma unref_canonical: "canonical n it \<Longrightarrow> unref it = it"
proof (induction it arbitrary: n)
  case (Item t vs vi vd k ch)
  have "\<forall>e\<in>set ch. \<exists>l. canonical l e" using Item.prems by (elim canonical_cases) auto
  then have "map unref ch = ch" using Item.IH by (intro map_idI) blast
  moreover from Item.prems have "t \<in> {cJSON_NULL, cJSON_False, cJSON_True, cJSON_Number, cJSON_String, cJSON_Array, cJSON_Object}"
    by (elim canonical_cases) auto
  then have "t AND NOT cJSON_IsReference = t" by (auto simp: cjson_type_defs)
  ultimately show ?case by simp
qed

lemma member_canonical:
  assumes "canonical n it" "cJSON_GetObjectItem (Some it) (Some k) = Some e"
  shows "\<exists>l. canonical l e"
proof -
  have "e \<in> set (child it)" using assms(2) by (auto simp: cJSON_GetObjectItem_find find_Some_iff)
  moreover obtain t vs vi vd kk ch where "it = Item t vs vi vd kk ch" by (cases it)
  moreover have "\<forall>e\<in>set ch. \<exists>l. canonical l e" using assms(1) unfolding calculation(2) by (elim canonical_cases) auto
  ultimately show ?thesis by simp
qed

lemma member_key:
  "cJSON_GetObjectItem (Some it) (Some k) = Some e \<Longrightarrow> jstring e \<noteq> None"
  by (auto simp: cJSON_GetObjectItem_find find_Some_iff eq_nocase_def split: option.splits)

lemma tasks_empty_count:
  assumes "pool_ok q" "tasks q = []"
  shows "count q = 0" "count q < queue_size q"
  using length_tasks [OF assms(1)] assms by (auto simp: pool_ok_def)

text \<open>A text that arrives in one frame is queued as one task.\<close>

lemma network_receive:
  assumes "has_cb p_cb_recv (client s)" "recv_tmp (client s) = no_fragment" "reliable m" "length ans < 2 ^ 31" "is_cstr ans"
    and "g_threadpool s = Some (Some q)" "pool_ok q" "count q < queue_size q" "shutdown q = 0"
    and "json_document it" "render fmt 0 it = Some ans"
  obtains q' m' where "network_callback lws_pre (0, 0, 0) (Client_receive True ans) s m = Some ([], s\<lparr>g_threadpool := Some (Some q')\<rparr>, m')"
    "pool_ok q'" "tasks q' = tasks q @ [task_of it]" "shutdown q' = 0" "queue_size q' = queue_size q"
    "live m' = live m + task_blocks (task_of it)" "reliable m'"
proof -
  obtain m1 where 1: "callbacks lws_pre (deliveries ([], ans)) (client s) m =
      Some ([Recv (Some (map Some ans @ [Some NUL])) (of_nat (length ans))], (client s)\<lparr>recv_tmp := no_fragment\<rparr>, m1)" "reliable m1" "live m1 = live m"
    using receive_message [of "client s" "[]" m ans "[]" lws_pre] assms(1-4) by auto
  have same: "(client s)\<lparr>recv_tmp := no_fragment\<rparr> = client s" using assms(2) by simp
  have cb: "\<exists>r. callback_dumb_increment lws_pre (Client_receive True ans) (client s) m =
      Some (r, [Recv (Some (map Some ans @ [Some NUL])) (of_nat (length ans))], client s, m1)"
    using 1(1) unfolding same by (auto simp: deliveries_def split: bind_splits)
  obtain m2 where p: "cJSON_Parse (Some ans) m1 = Some (Some it, m2)" "reliable m2"
    using parse_render [OF _ _ assms(11) 1(2), of False] assms(10) by (auto simp: json_document_def cJSON_Parse_def)
  have "text_of (map Some ans @ [Some NUL]) = Some ans" using assms(5) by simp
  from recv_queues [OF this assms(6,7), of m1] p assms(8,9)
  obtain q' m' where r: "cb_ws_recv (0, 0, 0) (Some (map Some ans @ [Some NUL])) s m1 = Some (s\<lparr>g_threadpool := Some (Some q')\<rparr>, m')"
    "pool_ok q'" "tasks q' = tasks q @ [task_of it]" "shutdown q' = 0" "queue_size q' = queue_size q"
    "live m' = live m1 + task_blocks (task_of it)" "reliable m'"
    by auto
  have "s\<lparr>client := client s\<rparr> = s" by simp
  then have "network_callback lws_pre (0, 0, 0) (Client_receive True ans) s m = Some ([], s\<lparr>g_threadpool := Some (Some q')\<rparr>, m')"
    using cb r(1) by (auto simp: network_callback_def)
  then show thesis using that r 1(3) by simp
qed

text \<open>What makes a tree a reply to the request \<open>i\<close>, with its code and its payload.\<close>

definition is_reply :: "cJSON \<Rightarrow> int \<Rightarrow> int \<Rightarrow> cJSON \<Rightarrow> bool" where
  "is_reply it i c pl \<longleftrightarrow>
     (case cJSON_GetObjectItem (Some it) (Some ''messageId'') of None \<Rightarrow> False | Some e \<Rightarrow> ctype e = cJSON_Number \<and> valueint e = i) \<and>
     (case cJSON_GetObjectItem (Some it) (Some ''code'') of None \<Rightarrow> False | Some e \<Rightarrow> ctype e = cJSON_Number \<and> valueint e = c) \<and>
     cJSON_GetObjectItem (Some it) (Some ''payload'') = Some pl"

lemma reply_task:
  assumes "is_reply it i c pl" "json_document it"
  shows "task_of it = \<lparr>pm_type = MSG_RSP, pm_id = i, pm_code = c, pm_method = [], pm_payload = Some pl\<rparr>"
    and "printable pl"
proof -
  have pl: "cJSON_GetObjectItem (Some it) (Some ''payload'') = Some pl" using assms(1) by (simp add: is_reply_def)
  then obtain l where l: "canonical l pl" using member_canonical [OF _ pl] assms(2) unfolding json_document_def by blast
  then show "task_of it = \<lparr>pm_type = MSG_RSP, pm_id = i, pm_code = c, pm_method = [], pm_payload = Some pl\<rparr>"
    using assms(1) unref_canonical [OF l]
    by (auto simp: task_of_def leda_parse_receive_msg_def is_reply_def or_zero_def split: option.splits)
  have "pl \<in> set (child it)" using pl by (auto simp: cJSON_GetObjectItem_find find_Some_iff)
  then show "printable pl" using json_document_printable [OF assms(2)] by (cases it) (auto simp: list_all_iff)
qed

lemma handle_reply_ok:
  fixes c :: int and ps :: string
  assumes "holds_table (replies_st s) ((a, r) # tb)" "reply_id r = i" "reliable m" "printable pl" "render False 0 pl = Some ps"
    and "length ps + 2 \<le> int_max"
  defines "r' \<equiv> r\<lparr>reply_code := c, reply_payload := Some ps, reply_sem := reply_sem r + 1\<rparr>"
  obtains rp m' where "threadpool_recv_proc lws_pre \<lparr>pm_type = MSG_RSP, pm_id = i, pm_code = c, pm_method = [], pm_payload = Some pl\<rparr> s m =
      Some ([], s\<lparr>replies_st := rp\<rparr>, m')" "holds_table rp ((a, r') # tb)" "reliable m'" "live m' = live m - blocks pl"
proof -
  obtain m1 where 1: "cJSON_PrintUnformatted (Some pl) m = Some (Some ps, m1)" "reliable m1" "live m1 = live m + 1"
    using print_json_outcome [OF assms(4), of True False m] assms(3,5,6) by (auto simp: cJSON_PrintUnformatted_def)
  have e: "entry_of i ((a, r) # tb) = Some (a, r)" using assms(2) by (simp add: entry_of_def)
  obtain rp m2 where 2: "ws_set_reply_result i c (Some ps) (replies_st s) m1 = Some (LE_SUCCESS, rp, m2)"
    "holds_table rp ((a, r') # tb)" "live m2 = live m1 + 1" "reliable m2"
    using set_result_table [OF assms(1), of i c "Some ps" m1] e 1(2) by (auto simp: r'_def)
  show thesis
    by (rule that [of rp "c_free 1 (cJSON_Delete (Some pl) (c_free 1 m2))"])
      (use 1 2 in \<open>simp_all add: threadpool_recv_proc_def handle_reply_def cJSON_Delete_def le_error_defs\<close>)
qed

lemma worker_ok:
  assumes "g_threadpool s = Some (Some q)" "pool_ok q" "tasks q = tk # tks"
  obtains q' where "worker_task lws_pre s m = threadpool_recv_proc lws_pre tk (s\<lparr>g_threadpool := Some (Some q')\<rparr>) m"
    "pool_ok q'" "tasks q' = tks" "shutdown q' = shutdown q" "queue_size q' = queue_size q"
proof -
  have "count q \<noteq> 0" using length_tasks [OF assms(2)] assms(3) by auto
  then obtain t q' where "grab_task q = Some (t, q')" "tasks q = t # tasks q'" "pool_ok q'" "shutdown q' = shutdown q" "queue_size q' = queue_size q"
    using grab_task_refines [OF assms(2)] by blast
  then show thesis using that assms(1,3) by (simp add: worker_task_def)
qed

subsection \<open>From the request to its answer\<close>

text \<open>What a running SDK has between two events, for a table \<open>tb\<close> of requests.\<close>

definition sdk_ready :: "nat \<Rightarrow> leda \<Rightarrow> (addr \<times> ws_msg_reply) list \<Rightarrow> bool" where
  "sdk_ready lws_pre s tb \<longleftrightarrow>
     g_conn_state s = LEDA_WS_CONNECTED \<and> holds_table (replies_st s) tb \<and>
     client_ready lws_pre (client s) \<and> g_cbs (client s) = Some leda_cbs \<and> recv_tmp (client s) = no_fragment \<and>
     (case g_threadpool s of Some (Some q) \<Rightarrow> pool_ok q \<and> tasks q = [] \<and> shutdown q = 0 | _ \<Rightarrow> False)"

lemma has_recv: "g_cbs c = Some leda_cbs \<Longrightarrow> has_cb p_cb_recv c"
  by (simp add: leda_cbs_def)

text \<open>The answer to the first entry of the table comes in: the entry has the code and the payload, and its semaphore is posted.\<close>

lemma answer_handled:
  fixes c :: int and ps :: string
  assumes "has_cb p_cb_recv (client s)" "recv_tmp (client s) = no_fragment" "reliable m" "length ans < 2 ^ 31"
    and "g_threadpool s = Some (Some q)" "pool_ok q" "tasks q = []" "shutdown q = 0"
    and "json_document it" "is_reply it i c pl" "render fmt 0 it = Some ans" "render False 0 pl = Some ps" "length ps + 2 \<le> int_max"
    and "holds_table (replies_st s) ((a, e) # tb)" "reply_id e = i"
  defines "e' \<equiv> e\<lparr>reply_code := c, reply_payload := Some ps, reply_sem := reply_sem e + 1\<rparr>"
  obtains q' rp m' where "answer_arrives lws_pre ans s m = Some (s\<lparr>g_threadpool := Some (Some q'), replies_st := rp\<rparr>, m')"
    "pool_ok q'" "tasks q' = []" "holds_table rp ((a, e') # tb)" "reliable m'" "live m' = live m + 1"
proof -
  have cs: "is_cstr ans" by (rule render_cstr [OF json_document_printable [OF assms(9)] assms(11)])
  from network_receive [OF assms(1-4) cs assms(5,6) tasks_empty_count(2) [OF assms(6,7)] assms(8,9,11), unfolded assms(7) append_Nil]
  obtain q1 m1 where arr: "network_callback lws_pre (0, 0, 0) (Client_receive True ans) s m = Some ([], s\<lparr>g_threadpool := Some (Some q1)\<rparr>, m1)"
    "pool_ok q1" "tasks q1 = [task_of it]" "live m1 = live m + task_blocks (task_of it)" "reliable m1"
    by blast
  note tk = reply_task [OF assms(10,9)]
  have g1: "g_threadpool (s\<lparr>g_threadpool := Some (Some q1)\<rparr>) = Some (Some q1)" by simp
  from worker_ok [OF g1 arr(2) arr(3) [unfolded tk(1)], of lws_pre m1] obtain q2 where
    work: "worker_task lws_pre (s\<lparr>g_threadpool := Some (Some q1)\<rparr>) m1 =
      threadpool_recv_proc lws_pre \<lparr>pm_type = MSG_RSP, pm_id = i, pm_code = c, pm_method = [], pm_payload = Some pl\<rparr>
        (s\<lparr>g_threadpool := Some (Some q1), g_threadpool := Some (Some q2)\<rparr>) m1" "pool_ok q2" "tasks q2 = []"
    by blast
  have "holds_table (replies_st (s\<lparr>g_threadpool := Some (Some q2)\<rparr>)) ((a, e) # tb)" using assms(14) by simp
  from handle_reply_ok [OF this assms(15) arr(5) tk(2) assms(12,13), where c = c and lws_pre = lws_pre] obtain rp m2 where
    ans: "threadpool_recv_proc lws_pre \<lparr>pm_type = MSG_RSP, pm_id = i, pm_code = c, pm_method = [], pm_payload = Some pl\<rparr>
        (s\<lparr>g_threadpool := Some (Some q2)\<rparr>) m1 = Some ([], s\<lparr>g_threadpool := Some (Some q2), replies_st := rp\<rparr>, m2)"
    "holds_table rp ((a, e') # tb)" "reliable m2" "live m2 = live m1 - blocks pl"
    unfolding e'_def by blast
  have "answer_arrives lws_pre ans s m = Some (s\<lparr>g_threadpool := Some (Some q2), replies_st := rp\<rparr>, m2)"
    using arr(1) work(1) ans(1) by (simp add: answer_arrives_def)
  moreover have "live m2 = live m + 1" using arr(4) ans(4) tk(1) by (simp add: task_blocks_def)
  ultimately show thesis using that work(2,3) ans(2,3) by blast
qed



text \<open>A connected SDK with an idle pool, a request and its answer.\<close>

definition ready_sdk :: leda where
  "ready_sdk = leda0\<lparr>g_conn_state := LEDA_WS_CONNECTED, g_threadpool := Some (Some open_queue),
     client := (client leda0)\<lparr>g_cbs := Some leda_cbs, out_msgs := ex_buf\<rparr>\<rparr>"

lemma ready_sdk_ok: "sdk_ready 16 ready_sdk []" "g_msg_id ready_sdk = 0"
  using open_queue_ok ex_buf_ok holds_no_replies
  by (simp_all add: sdk_ready_def client_ready_def ready_sdk_def leda0_def)

lemma saturate_examples: "saturate (double_of_int 0) = Some 0" "saturate (double_of_int 1) = Some 1"
  by (simp_all add: saturate_def double_of_int_exact int_range_def)

definition example_request :: string where
  "example_request = jtext ''{`version`:`1.0`,`messageId`:1,`method`:`onlineDevice`,`payload`:{`productKey`:`a1`,`deviceName`:`lamp`}}''"

lemma example_rendered: "render False 0 (request METHOD_ONLINE ''a1'' ''lamp'' 1 []) = Some example_request"
  using saturate_examples number_text_int [of 1]
  by (simp add: request_def request_tree_def device_members_def text_item_def METHOD_ONLINE_def PROTOCOL_VERSION_def
      example_request_def cjson_type_defs render.simps jtext_def quoted_def escape_char_def print_int_def dec.simps digit_def)

definition answer_tree :: cJSON where
  "answer_tree = Item cJSON_Object None 0 zero_double None
     [Item cJSON_Number None 0 (double_of_int 0) (Some ''code'') [],
      Item cJSON_Number None 1 (double_of_int 1) (Some ''messageId'') [],
      Item cJSON_Object None 0 zero_double (Some ''payload'') []]"

lemma answer_tree_ok: "json_document answer_tree" "is_reply answer_tree 1 0 (Item cJSON_Object None 0 zero_double (Some ''payload'') [])"
  "render False 0 (Item cJSON_Object None 0 zero_double (Some ''payload'') []) = Some ''{}''"
  using canonical_number [of 0 0] canonical_number [of 1 1] saturate_examples
  by (simp_all add: answer_tree_def json_document_def is_reply_def CJSON_NESTING_LIMIT_def is_text_def cjson_type_defs render.simps
      cJSON_GetObjectItem_find eq_nocase_def)

lemma answer_rendered: "render False 0 answer_tree = Some (jtext ''{`code`:0,`messageId`:1,`payload`:{}}'')"
  using number_text_int [of 0] number_text_int [of 1]
  by (simp add: answer_tree_def cjson_type_defs render.simps jtext_def quoted_def escape_char_def print_int_def dec.simps digit_def)


end
