(* ===== verification/Leda_Answers.thy ===== *)
theory Leda_Answers
  imports Leda_Flow
begin

text \<open>
  The answers to the gateway's requests: what the worker sends back for \<open>getProperty\<close>, \<open>setProperty\<close> and
  \<open>callService\<close>, and the reports of the device, down to the data that the other side reads.
\<close>

subsection \<open>The response document\<close>

definition number_member :: "string \<Rightarrow> int \<Rightarrow> cJSON" where
  "number_member k n = Item cJSON_Number None n (double_of_int n) (Some k) []"

definition response :: "int \<Rightarrow> int \<Rightarrow> cJSON \<Rightarrow> cJSON" where
  "response rc i pl = Item cJSON_Object None 0 zero_double None
     [number_member ''code'' rc, number_member ''messageId'' i, set_jstring (Some ''payload'') pl]"

text \<open>An object with one member.\<close>

definition holder :: "string \<Rightarrow> cJSON \<Rightarrow> cJSON" where
  "holder k e = Item cJSON_Object None 0 zero_double None [set_jstring (Some k) e]"

lemma response_names [simp]:
  "\<not> same_name ''code'' ''messageId''" "\<not> same_name ''payload'' ''messageId''" "\<not> same_name ''messageId'' ''code''"
  "\<not> same_name ''payload'' ''code''" "\<not> same_name ''code'' ''payload''" "\<not> same_name ''messageId'' ''payload''"
  by (simp_all add: same_name_def lower_def)

lemma same_name_refl [simp]: "same_name k k"
  by (simp add: same_name_def)

lemma get_holder: "is_cstr k \<Longrightarrow> cJSON_GetObjectItem (Some (holder k e)) (Some k) = Some (set_jstring (Some k) e)"
  by (simp add: cJSON_GetObjectItem_find holder_def)

lemma response_is_reply: "is_reply (response rc i pl) i rc (set_jstring (Some ''payload'') pl)"
  by (simp add: is_reply_def response_def number_member_def cJSON_GetObjectItem_find)

lemma saturate_int_range:
  assumes "int_range n"
  shows "saturate (double_of_int n) = Some n"
proof -
  obtain i where "saturate (double_of_int n) = Some i" "int_range n \<Longrightarrow> i = n"
    using saturate_int [OF double_int_range [OF assms]] by metis
  then show ?thesis using assms by simp
qed

lemma response_document:
  assumes "int_range rc" "int_range i" "canonical (CJSON_NESTING_LIMIT - 1) pl"
  shows "json_document (response rc i pl)"
proof -
  have "canonical l (number_member k n)" if "int_range n" for l k n
    using canonical_number [OF double_int_range [OF that] saturate_int_range [OF that]] by (simp add: number_member_def)
  then show ?thesis using assms by (simp add: json_document_def response_def CJSON_NESTING_LIMIT_def is_text_def number_member_def cjson_type_defs)
qed


subsection \<open>Sending it\<close>

lemma add_number_member:
  assumes "reliable m" "\<not> is_ref ob" "int_range n"
  obtains m' where "cJSON_AddNumberToObject (Some ob) (Some k) (double_of_int n) m =
      Some (Some (number_member k n), Some (set_child (child ob @ [number_member k n]) ob), m')"
    "reliable m'" "live m' = live m + 2" "\<not> is_ref (set_child (child ob @ [number_member k n]) ob)"
proof -
  let ?i = "Item cJSON_Number None n (double_of_int n) None []"
  have k: "keyed k ?i = number_member k n" by (simp add: keyed_def number_member_def cjson_type_defs)
  have "blocks (number_member k n) = 2" by (simp add: number_member_def cjson_type_defs)
  then have b: "blocks (with_member k ?i ob) = blocks ob + 2" using blocks_with_member [OF assms(2), of k ?i] k by simp
  obtain m' where "cJSON_AddNumberToObject (Some ob) (Some k) (double_of_int n) m = Some (Some (keyed k ?i), Some (with_member k ?i ob), m')"
    "reliable m'" "live m' - blocks (with_member k ?i ob) = live m - blocks ob" "\<not> is_ref (with_member k ?i ob)"
    using add_number_ok [OF assms(1,2) saturate_int_range [OF assms(3)], of k] by metis
  then show thesis using that [of m'] b unfolding with_member_def k by simp
qed

lemma empty_object_facts [simp]: "canonical (CJSON_NESTING_LIMIT - 1) empty_object" "jstring empty_object = None" "blocks empty_object = 1"
  "\<not> is_ref empty_object"
  by (simp_all add: empty_object_def CJSON_NESTING_LIMIT_def cjson_type_defs)

text \<open>\<open>leda_send_rsp\<close> sends one message, the text of the response with its terminator; without a payload it makes an
  empty one.\<close>

definition payload_or_empty :: "cJSON option \<Rightarrow> cJSON" where
  "payload_or_empty p = (case p of None \<Rightarrow> empty_object | Some x \<Rightarrow> x)"

lemma payload_made:
  assumes "reliable m"
  obtains m' where "(if p = None then cJSON_CreateObject m else (p, m)) = (Some (payload_or_empty p), m')" "reliable m'"
    "live m' = live m + blocks (payload_or_empty p) - (case p of None \<Rightarrow> 0 | Some x \<Rightarrow> int (blocks x))"
proof (cases p)
  case None
  then show thesis using create_object_ok [OF assms] that by (metis (no_types, lifting) diff_zero option.case(1) payload_or_empty_def)
qed (use that assms in \<open>simp add: payload_or_empty_def\<close>)

lemma send_rsp_ok:
  assumes "reliable m" "client_ready lws_pre (client s)" "lws_pre \<le> 4096" "int_range rc" "int_range i"
    and "pl = payload_or_empty p" "canonical (CJSON_NESTING_LIMIT - 1) pl" "jstring pl = None" "render False 0 (response rc i pl) = Some t" "length t + 2 \<le> int_max"
  obtains b m' where "leda_send_rsp lws_pre rc i p s m =
      Some (LE_SUCCESS, map Net (notify_network (client s)), s\<lparr>client := (client s)\<lparr>out_msgs := b\<rparr>\<rparr>, m')"
    "pending lws_pre b = outbox lws_pre s @ [(t @ [NUL], 0)]" "reliable m'" "live m' = live m - (case p of None \<Rightarrow> 0 | Some x \<Rightarrow> int (blocks x))"
    "wsb_inv lws_pre b" "ring_ok b"
proof -
  obtain m1 where 1: "cJSON_CreateObject m = (Some empty_object, m1)" "reliable m1" "live m1 = live m + blocks empty_object"
    using create_object_ok [OF assms(1)] .
  let ?o1 = "set_child (child empty_object @ [number_member ''code'' rc]) empty_object"
  obtain m2 where 2: "cJSON_AddNumberToObject (Some empty_object) (Some ''code'') (double_of_int rc) m1 =
      Some (Some (number_member ''code'' rc), Some ?o1, m2)" "reliable m2" "live m2 = live m1 + 2" "\<not> is_ref ?o1"
    using add_number_member [OF 1(2) empty_object_facts(4) assms(4)] .
  let ?o2 = "set_child (child ?o1 @ [number_member ''messageId'' i]) ?o1"
  obtain m3 where 3: "cJSON_AddNumberToObject (Some ?o1) (Some ''messageId'') (double_of_int i) m2 =
      Some (Some (number_member ''messageId'' i), Some ?o2, m3)" "reliable m3" "live m3 = live m2 + 2" "\<not> is_ref ?o2"
    using add_number_member [OF 2(2,4) assms(5)] .
  have k: "keyed ''payload'' pl = set_jstring (Some ''payload'') pl" using assms(7) by simp
  have tree: "with_member ''payload'' pl ?o2 = response rc i pl"
    by (simp add: with_member_def response_def empty_object_def k)
  have b2: "blocks ?o2 = 5" by (simp add: empty_object_def number_member_def cjson_type_defs)
  obtain m3' where p: "(if p = None then cJSON_CreateObject m3 else (p, m3)) = (Some pl, m3')" "reliable m3'"
    "live m3' = live m3 + blocks pl - (case p of None \<Rightarrow> 0 | Some x \<Rightarrow> int (blocks x))"
    using payload_made [OF 3(2), of p] unfolding assms(6) by metis
  obtain m4 where 4: "add_item_to_object (Some ?o2) (Some ''payload'') (Some pl) False m3' = (True, Some (response rc i pl), Some (keyed ''payload'' pl), m4)"
    "reliable m4" "live m4 - blocks (response rc i pl) = live m3' - blocks ?o2 - blocks pl"
    using add_member_ok [OF p(2) assms(8) 3(4), of "''payload''"] unfolding tree by metis
  have doc: "json_document (response rc i pl)" by (rule response_document [OF assms(4,5,7)])
  obtain m5 where 5: "cJSON_PrintUnformatted (Some (response rc i pl)) m4 = Some (Some t, m5)" "reliable m5" "live m5 = live m4 + 1"
    using print_and_delete [OF doc assms(9,10) 4(2)] .
  define m6 where "m6 = cJSON_Delete (Some (response rc i pl)) m5"
  have 6: "reliable m6" "live m6 = live m + 1 - (case p of None \<Rightarrow> 0 | Some x \<Rightarrow> int (blocks x))"
    using 1(3) 2(3) 3(3) p(3) 4(3) 5(2,3) b2 by (simp_all add: m6_def cJSON_Delete_def)
  have "length t + 1 + 1 + lws_pre < 2 ^ 64" using assms(3,10) by simp
  then obtain b m7 where 7: "wsc_add_msg lws_pre (Some (t @ [NUL])) (of_nat (length t + 1)) 0 (client s) m6 =
      Some (LE_SUCCESS, notify_network (client s), (client s)\<lparr>out_msgs := b\<rparr>, m7)"
    "pending lws_pre b = outbox lws_pre s @ [(take (length t + 1) (t @ [NUL]), 0)]" "reliable m7" "live m7 = live m6"
    "wsb_inv lws_pre b" "ring_ok b"
    using add_msg_ok [OF assms(2) 6(1), of "length t + 1" "t @ [NUL]"] by auto
  have len: "of_nat (length t + 1) = (of_nat (length t) + 1 :: size_t)" by simp
  have "leda_send_rsp lws_pre rc i p s m =
      Some (LE_SUCCESS, map Net (notify_network (client s)), s\<lparr>client := (client s)\<lparr>out_msgs := b\<rparr>\<rparr>, c_free 1 m7)"
    unfolding leda_send_rsp_def 1(1) prod.case option.case 2(1) bind.bind_lunit 3(1) p(1) Let_def cJSON_AddItemToObject_def 4(1) option.simps if_False
      5(1) m6_def [symmetric] 7(1) [unfolded len] by simp
  then show thesis using that [of b "c_free 1 m7"] 6 7 by simp
qed


subsection \<open>Reading the request\<close>

text \<open>The entries for an array of names, and for an array of data, with the state of the allocator.\<close>

definition asked :: "string \<Rightarrow> leda_device_data" where
  "asked n = unset\<lparr>dkey := Some (snprintf_s MAX_PARAM_NAME_LENGTH n)\<rparr>"

definition names_array :: "string list \<Rightarrow> cJSON \<Rightarrow> bool" where
  "names_array ns a \<longleftrightarrow> length ns < 2 ^ 31 \<and> list_all2 (\<lambda>n e. ctype e = cJSON_String \<and> valuestring e = Some n) ns (child a)"

definition data_array :: "leda_device_data list \<Rightarrow> cJSON \<Rightarrow> bool" where
  "data_array ds a \<longleftrightarrow> length ds < 2 ^ 31 \<and> list_all2 entry_item ds (child a)"

definition reads :: "cJSON \<Rightarrow> leda_device_data list \<Rightarrow> bool" where
  "reads a ds \<longleftrightarrow>
     (\<forall>m. reliable m \<longrightarrow> (\<exists>m'. json_data_to_struct_data (Some a) m = Some (LE_SUCCESS, if ds = [] then None else Some ds, int (length ds), m') \<and>
        reliable m' \<and> live m' = live m + (if ds = [] then 0 else 1)))"

lemma readsI:
  assumes "length (child a) < 2 ^ 31" "length ds = length (child a)"
    and "\<And>m. reliable m \<Longrightarrow> \<exists>m'. read_entries (length ds) (child a) m = Some (Inr ds, m') \<and> reliable m' \<and> live m' = live m"
  shows "reads a ds"
  unfolding reads_def
proof (intro allI impI)
  fix m :: mem
  assume m: "reliable m"
  have size: "cJSON_GetArraySize (Some a) = int (length ds)" using array_size [OF assms(1)] assms(2) by simp
  show "\<exists>m'. json_data_to_struct_data (Some a) m = Some (LE_SUCCESS, if ds = [] then None else Some ds, int (length ds), m') \<and>
        reliable m' \<and> live m' = live m + (if ds = [] then 0 else 1)"
  proof (cases "ds = []")
    case True
    then show ?thesis using m size by (simp add: json_data_to_struct_data_def)
  next
    case False
    obtain m1 where 1: "malloc m = (True, m1)" "live m1 = live m + 1" "reliable m1" using malloc_split [of m] m by metis
    then show ?thesis using assms(3) [OF 1(3)] False size by (auto simp: json_data_to_struct_data_def)
  qed
qed

lemma names_array_reads:
  assumes "names_array ns a"
  shows "reads a (map asked ns)"
proof (rule readsI)
  have all: "list_all2 (\<lambda>n e. ctype e = cJSON_String \<and> valuestring e = Some n) ns (child a)" "length ns < 2 ^ 31"
    using assms by (simp_all add: names_array_def)
  show "length (map asked ns) = length (child a)" using all by (simp add: list_all2_lengthD)
  then show "length (child a) < 2 ^ 31" using all(2) by simp
  fix m :: mem
  have "read_entries (length ns) (child a) m = Some (Inr (map asked ns), m)"
    using all(1) by (induction rule: list_all2_induct) (simp_all add: read_entry_def asked_def)
  then show "reliable m \<Longrightarrow> \<exists>m'. read_entries (length (map asked ns)) (child a) m = Some (Inr (map asked ns), m') \<and> reliable m' \<and> live m' = live m"
    by simp
qed

lemma data_array_reads:
  assumes "data_array ds a"
  shows "reads a ds"
proof (rule readsI)
  have all: "list_all2 entry_item ds (child a)" "length ds < 2 ^ 31" using assms by (simp_all add: data_array_def)
  show "length ds = length (child a)" using all by (simp add: list_all2_lengthD)
  then show "length (child a) < 2 ^ 31" using all(2) by simp
  show "\<And>m. reliable m \<Longrightarrow> \<exists>m'. read_entries (length ds) (child a) m = Some (Inr ds, m') \<and> reliable m' \<and> live m' = live m"
    by (rule read_entries_ok [OF all(1)])
qed

text \<open>What may be sent inside a message: the array and its entries are two levels further down.\<close>

definition sendable_inside :: "leda_device_data list \<Rightarrow> bool" where
  "sendable_inside ds \<longleftrightarrow> length ds < 2 ^ 31 \<and> list_all (\<lambda>d. sendable d \<and> canonical (CJSON_NESTING_LIMIT - 3) (entry_of_data d)) ds"

lemma data_tree_ok:
  assumes "sendable_inside ds"
  shows "data_array ds (set_jstring k (data_tree ds))" "canonical (CJSON_NESTING_LIMIT - 2) (data_tree ds)" "jstring (data_tree ds) = None"
proof -
  have s: "list_all sendable ds" "list_all (\<lambda>d. canonical (CJSON_NESTING_LIMIT - 3) (entry_of_data d)) ds" "length ds < 2 ^ 31"
    using assms by (auto simp: sendable_inside_def list_all_iff)
  have item: "entry_item d (entry_of_data d)" if "sendable d" for d
    using that
  proof (cases d rule: sendable.cases)
    case (1 t k v)
    then have k: "is_cstr k" "length k < MAX_PARAM_NAME_LENGTH" "value_ok t v" using that by simp_all
    obtain m where "value_item t v (value_tree t v)"
      by (rule write_value_ok [OF reliable_always _ k(3), of empty_object]) simp_all
    from entry_tree_ok [OF k this] show ?thesis using 1 by (simp add: entry_of_data_def)
  qed simp_all
  have "list_all2 entry_item ds (map entry_of_data ds)"
    using s(1) item by (auto simp: list_all2_map2 list_all2_same list_all_iff intro!: list_all2_refl)
  then show "data_array ds (set_jstring k (data_tree ds))" using s(3) by (simp add: data_array_def data_tree_def)
  have "list_all (\<lambda>d. jstring (entry_of_data d) = None) ds" using s(1) item by (auto simp: list_all_iff entry_item_def)
  then show "canonical (CJSON_NESTING_LIMIT - 2) (data_tree ds)" "jstring (data_tree ds) = None"
    using s(2) by (auto simp: data_tree_def cjson_type_defs CJSON_NESTING_LIMIT_def list_all_iff)
qed

subsection \<open>The handlers\<close>

lemma add_only_member:
  assumes "reliable m" "canonical l e" "jstring e = None"
  obtains m' where "cJSON_AddItemToObject (Some empty_object) (Some k) (Some e) m = (Some (holder k e), m')" "reliable m'"
    "live m' = live m + 1" "blocks (holder k e) = blocks e + 2"
proof -
  have t: "with_member k e empty_object = holder k e" using assms(2) by (simp add: with_member_def empty_object_def holder_def)
  have "int (blocks (holder k e)) = blocks e + 2"
    using blocks_with_member [OF empty_object_facts(4), of k e] blocks_keyed [of k e] assms(3) unfolding t by simp
  moreover obtain m' where "add_item_to_object (Some empty_object) (Some k) (Some e) False m = (True, Some (holder k e), Some (keyed k e), m')"
    "reliable m'" "live m' - blocks (holder k e) = live m - blocks empty_object - blocks e"
    using add_member_ok [OF assms(1,3) empty_object_facts(4), of k] unfolding t by metis
  ultimately show thesis using that [of m'] by (simp add: cJSON_AddItemToObject_def)
qed

text \<open>The parts of a request that the worker needs.\<close>

definition asks :: "cJSON \<Rightarrow> string option \<Rightarrow> string option \<Rightarrow> cJSON \<Rightarrow> bool" where
  "asks pl pk dn a \<longleftrightarrow>
     (\<exists>e. cJSON_GetObjectItem (Some pl) (Some ''productKey'') = Some e \<and> valuestring e = pk) \<and>
     (\<exists>e. cJSON_GetObjectItem (Some pl) (Some ''deviceName'') = Some e \<and> valuestring e = dn) \<and>
     (case cJSON_GetObjectItem (Some pl) (Some ''properties'') of
        None \<Rightarrow> cJSON_GetObjectItem (Some pl) (Some ''inputData'') = Some a | Some e \<Rightarrow> e = a)"

text \<open>The handler that the method selects.\<close>

definition handler where
  "handler lws_pre p pl pk dn ds s m =
     (if pm_method p = METHOD_GET_PROPERTY then leda_rsp_get_properties lws_pre pk dn (pm_id p) ds (int (length ds)) s m
      else if pm_method p = METHOD_SET_PROPERTY then leda_rsp_set_properties lws_pre pk dn (pm_id p) ds (int (length ds)) s m
      else if pm_method p = METHOD_CALL_SERVICE then
        (case cJSON_GetObjectItem (Some pl) (Some ''identifier'') of
           None \<Rightarrow> Some (0, [], s, m)
         | Some nm \<Rightarrow> leda_rsp_call_service lws_pre pk dn (pm_id p) (valuestring nm) ds (int (length ds)) s m)
      else Some (0, [], s, m))"

lemma method_names: "METHOD_SET_PROPERTY \<noteq> METHOD_GET_PROPERTY" "METHOD_CALL_SERVICE \<noteq> METHOD_GET_PROPERTY"
  "METHOD_CALL_SERVICE \<noteq> METHOD_SET_PROPERTY"
  by (simp_all add: METHOD_SET_PROPERTY_def METHOD_GET_PROPERTY_def METHOD_CALL_SERVICE_def)

lemma method_run:
  assumes "pm_type p = MSG_METHOD" "pm_payload p = Some pl" "asks pl pk dn a" "reads a ds" "reliable m"
  obtains m1 where "reliable m1" "live m1 = live m + (if ds = [] then 0 else 1)"
    "\<forall>rc ev s1 m2. handler lws_pre p pl pk dn ds s m1 = Some (rc, ev, s1, m2) \<longrightarrow>
       (\<exists>m3. threadpool_recv_proc lws_pre p s m = Some (ev, s1, m3) \<and> live m3 = live m2 - task_blocks p - (if ds = [] then 0 else 1))"
proof -
  obtain m1 where 1: "json_data_to_struct_data (Some a) m = Some (LE_SUCCESS, if ds = [] then None else Some ds, int (length ds), m1)"
    "reliable m1" "live m1 = live m + (if ds = [] then 0 else 1)"
    using assms(4,5) unfolding reads_def by blast
  obtain e1 e2 where e: "cJSON_GetObjectItem (Some pl) (Some ''productKey'') = Some e1" "valuestring e1 = pk"
    "cJSON_GetObjectItem (Some pl) (Some ''deviceName'') = Some e2" "valuestring e2 = dn"
    using assms(3) unfolding asks_def by blast
  have item: "(if cJSON_GetObjectItem (Some pl) (Some ''properties'') = None then cJSON_GetObjectItem (Some pl) (Some ''inputData'')
      else cJSON_GetObjectItem (Some pl) (Some ''properties'')) = Some a"
    using assms(3) by (auto simp: asks_def split: option.splits)
  have list: "(case if ds = [] then None else Some ds of None \<Rightarrow> [] | Some ds \<Rightarrow> ds) = ds" by simp
  have "threadpool_recv_proc lws_pre p s m = Some (ev, s1, c_free 1 (cJSON_Delete (Some pl) (if ds = [] then m2 else c_free 1 m2)))"
    if h: "handler lws_pre p pl pk dn ds s m1 = Some (rc, ev, s1, m2)" for rc ev s1 m2
  proof -
    have "handle_method lws_pre p s m = Some (ev, s1, if ds = [] then m2 else c_free 1 m2)"
      unfolding handle_method_def Let_def assms(2) e option.case prod.case item
      using h [unfolded handler_def] 1(1) method_names e
      by (auto simp: list split: if_splits option.splits bind_splits)
    then show ?thesis using assms(1,2) by (simp add: threadpool_recv_proc_def leda_msg_defs)
  qed
  then show thesis using that [OF 1(2,3)] assms(2) by (auto simp: task_blocks_def cJSON_Delete_def)
qed

text \<open>The data of the callback goes into the payload.\<close>

lemma data_payload:
  assumes "reliable m" "sendable_inside ds"
  obtains m1 m2 where "struct_data_to_json_data ds (int (length ds)) m = Some (Some (data_tree ds), m1)"
    "cJSON_AddItemToObject (Some empty_object) (Some k) (Some (data_tree ds)) m1 = (Some (holder k (data_tree ds)), m2)"
    "reliable m2" "live m2 = live m + blocks (holder k (data_tree ds)) - 1"
proof -
  have "list_all sendable ds" using assms(2) by (auto simp: sendable_inside_def list_all_iff)
  then obtain m1 where 1: "struct_data_to_json_data ds (int (length ds)) m = Some (Some (data_tree ds), m1)" "reliable m1"
    "live m1 = live m + blocks (data_tree ds)"
    using to_json_ok [OF _ assms(1)] by metis
  obtain m2 where "cJSON_AddItemToObject (Some empty_object) (Some k) (Some (data_tree ds)) m1 = (Some (holder k (data_tree ds)), m2)" "reliable m2"
    "live m2 = live m1 + 1" "blocks (holder k (data_tree ds)) = blocks (data_tree ds) + 2"
    using add_only_member [OF 1(2) data_tree_ok(2,3) [OF assms(2)], of k] by blast
  then show thesis using that 1 by simp
qed

lemma holder_ok:
  assumes "sendable_inside ds" "is_cstr k"
  shows "canonical (CJSON_NESTING_LIMIT - 1) (holder k (data_tree ds))" "jstring (holder k (data_tree ds)) = None"
proof -
  have "CJSON_NESTING_LIMIT - 1 - 1 = CJSON_NESTING_LIMIT - 2" "0 < CJSON_NESTING_LIMIT - 1" by (simp_all add: CJSON_NESTING_LIMIT_def)
  then show "canonical (CJSON_NESTING_LIMIT - 1) (holder k (data_tree ds))" "jstring (holder k (data_tree ds)) = None"
    using data_tree_ok(2) [OF assms(1)] assms(2) by (simp_all add: holder_def is_text_def cjson_type_defs)
qed

text \<open>What the other side finds in a message: a reply with id and code, whose payload has the data under a name.\<close>

definition reply_with_data :: "string \<Rightarrow> int \<Rightarrow> int \<Rightarrow> string \<Rightarrow> leda_device_data list \<Rightarrow> bool" where
  "reply_with_data t i rc k ds \<longleftrightarrow>
     (\<exists>it pl a. parsed t = Some it \<and> is_reply it i rc pl \<and> cJSON_GetObjectItem (Some pl) (Some k) = Some a \<and> reads a ds)"

lemma reply_with_dataI:
  assumes "int_range rc" "int_range i" "sendable_inside ds" "is_cstr k"
    and "render False 0 (response rc i (holder k (data_tree ds))) = Some t"
  shows "reply_with_data t i rc k ds"
proof -
  have doc: "json_document (response rc i (holder k (data_tree ds)))"
    using response_document [OF assms(1,2)] holder_ok [OF assms(3,4)] by simp
  then have "parsed t = Some (response rc i (holder k (data_tree ds)))" using json.dec_enc assms(5) by blast
  moreover have "cJSON_GetObjectItem (Some (set_jstring (Some ''payload'') (holder k (data_tree ds)))) (Some k) = Some (set_jstring (Some k) (data_tree ds))"
    using get_holder [OF assms(4), of "data_tree ds"] by (simp add: cJSON_GetObjectItem_find holder_def)
  moreover have "reads (set_jstring (Some k) (data_tree ds)) ds" using data_array_reads data_tree_ok(1) [OF assms(3)] by blast
  ultimately show ?thesis using response_is_reply unfolding reply_with_data_def by blast
qed

lemma response_len_code: "int_range LE_SUCCESS"
  by (simp add: le_error_defs int_range_def)

lemma get_properties_run:
  assumes "pm_type p = MSG_METHOD" "pm_method p = METHOD_GET_PROPERTY" "pm_payload p = Some pl" "int_range (pm_id p)"
    and "asks pl pk dn a" "names_array ns a" "get_properties_cb (g_devs_cb s) = Some f"
    and "f pk dn (map asked ns) (int (length ns)) (usr_data_get_property (g_devs_cb s)) = (LE_SUCCESS, ds)"
    and "sendable_inside ds" "length ds = length ns" "client_ready lws_pre (client s)" "lws_pre \<le> 4096" "reliable m"
    and "render False 0 (response LE_SUCCESS (pm_id p) (holder ''properties'' (data_tree ds))) = Some t" "length t + 2 \<le> int_max"
  shows "\<exists>ev b m'. threadpool_recv_proc lws_pre p s m = Some (ev, s\<lparr>client := (client s)\<lparr>out_msgs := b\<rparr>\<rparr>, m') \<and>
     pending lws_pre b = outbox lws_pre s @ [(t @ [NUL], 0)] \<and>
     reply_with_data t (pm_id p) LE_SUCCESS ''properties'' ds \<and> live m' = live m - task_blocks p"
proof -
  note rd = names_array_reads [OF assms(6)]
  obtain m1 where 1: "reliable m1" "live m1 = live m + (if map asked ns = [] then 0 else 1)"
    and run: "\<forall>rc ev s1 m2. handler lws_pre p pl pk dn (map asked ns) s m1 = Some (rc, ev, s1, m2) \<longrightarrow>
     (\<exists>m3. threadpool_recv_proc lws_pre p s m = Some (ev, s1, m3) \<and> live m3 = live m2 - task_blocks p - (if map asked ns = [] then 0 else 1))"
    using method_run [OF assms(1,3,5) rd assms(13), of lws_pre s] .
  obtain m2 where 2: "cJSON_CreateObject m1 = (Some empty_object, m2)" "reliable m2" "live m2 = live m1 + blocks empty_object"
    using create_object_ok [OF 1(1)] .
  obtain m3 m4 where 3: "struct_data_to_json_data ds (int (length ds)) m2 = Some (Some (data_tree ds), m3)"
    "cJSON_AddItemToObject (Some empty_object) (Some ''properties'') (Some (data_tree ds)) m3 = (Some (holder ''properties'' (data_tree ds)), m4)"
    "reliable m4" "live m4 = live m2 + blocks (holder ''properties'' (data_tree ds)) - 1"
    using data_payload [OF 2(2) assms(9), of "''properties''"] .
  have k: "is_cstr ''properties''" by simp
  have pl: "holder ''properties'' (data_tree ds) = payload_or_empty (Some (holder ''properties'' (data_tree ds)))" by (simp add: payload_or_empty_def)
  obtain b m5 where 4: "leda_send_rsp lws_pre LE_SUCCESS (pm_id p) (Some (holder ''properties'' (data_tree ds))) s m4 =
      Some (LE_SUCCESS, map Net (notify_network (client s)), s\<lparr>client := (client s)\<lparr>out_msgs := b\<rparr>\<rparr>, m5)"
    "pending lws_pre b = outbox lws_pre s @ [(t @ [NUL], 0)]" "live m5 = live m4 - blocks (holder ''properties'' (data_tree ds))"
    using send_rsp_ok [OF 3(3) assms(11,12) response_len_code assms(4) pl holder_ok [OF assms(9) k] assms(14,15), unfolded option.case] by blast
  have "handler lws_pre p pl pk dn (map asked ns) s m1 =
      Some (LE_SUCCESS, map Net (notify_network (client s)), s\<lparr>client := (client s)\<lparr>out_msgs := b\<rparr>\<rparr>, m5)"
    using 2(1) 3(1,2) 4(1) assms(2,7,8,10) by (simp add: handler_def leda_rsp_get_properties_def)
  with run obtain m6 where "threadpool_recv_proc lws_pre p s m =
      Some (map Net (notify_network (client s)), s\<lparr>client := (client s)\<lparr>out_msgs := b\<rparr>\<rparr>, m6)"
    "live m6 = live m5 - task_blocks p - (if map asked ns = [] then 0 else 1)" by metis
  then show ?thesis
    using 4(2,3) 1(2) 2(3) 3(4) reply_with_dataI [OF response_len_code assms(4,9) k assms(14)] by auto
qed


lemma set_properties_run:
  assumes "pm_type p = MSG_METHOD" "pm_method p = METHOD_SET_PROPERTY" "pm_payload p = Some pl" "int_range (pm_id p)"
    and "asks pl pk dn a" "data_array ds a" "set_properties_cb (g_devs_cb s) = Some f"
    and "f pk dn ds (int (length ds)) Address_of_set_properties_cb = rc" "int_range rc"
    and "client_ready lws_pre (client s)" "lws_pre \<le> 4096" "reliable m"
    and "render False 0 (response rc (pm_id p) empty_object) = Some t" "length t + 2 \<le> int_max"
  shows "\<exists>ev b m' it. threadpool_recv_proc lws_pre p s m = Some (ev, s\<lparr>client := (client s)\<lparr>out_msgs := b\<rparr>\<rparr>, m') \<and>
     pending lws_pre b = outbox lws_pre s @ [(t @ [NUL], 0)] \<and> parsed t = Some it \<and>
     (\<exists>e. is_reply it (pm_id p) rc e) \<and> live m' = live m - task_blocks p"
proof -
  obtain m1 where 1: "reliable m1" "live m1 = live m + (if ds = [] then 0 else 1)"
    and run: "\<forall>rc ev s1 m2. handler lws_pre p pl pk dn ds s m1 = Some (rc, ev, s1, m2) \<longrightarrow>
     (\<exists>m3. threadpool_recv_proc lws_pre p s m = Some (ev, s1, m3) \<and> live m3 = live m2 - task_blocks p - (if ds = [] then 0 else 1))"
    using method_run [OF assms(1,3,5) data_array_reads [OF assms(6)] assms(12), of lws_pre s] .
  have pl: "empty_object = payload_or_empty None" by (simp add: payload_or_empty_def)
  obtain b m2 where 2: "leda_send_rsp lws_pre rc (pm_id p) None s m1 =
      Some (LE_SUCCESS, map Net (notify_network (client s)), s\<lparr>client := (client s)\<lparr>out_msgs := b\<rparr>\<rparr>, m2)"
    "pending lws_pre b = outbox lws_pre s @ [(t @ [NUL], 0)]" "live m2 = live m1 - 0"
    using send_rsp_ok [OF 1(1) assms(10,11,9,4) pl empty_object_facts(1,2) assms(13,14), unfolded option.case] by blast
  have "handler lws_pre p pl pk dn ds s m1 =
      Some (LE_SUCCESS, map Net (notify_network (client s)), s\<lparr>client := (client s)\<lparr>out_msgs := b\<rparr>\<rparr>, m2)"
    using 2(1) assms(2,7,8) method_names by (simp add: handler_def leda_rsp_set_properties_def)
  with run obtain m3 where "threadpool_recv_proc lws_pre p s m = Some (map Net (notify_network (client s)), s\<lparr>client := (client s)\<lparr>out_msgs := b\<rparr>\<rparr>, m3)"
    "live m3 = live m2 - task_blocks p - (if ds = [] then 0 else 1)" by metis
  moreover have "parsed t = Some (response rc (pm_id p) empty_object)"
    using json.dec_enc [OF response_document [OF assms(9,4) empty_object_facts(1)] assms(13)] .
  ultimately show ?thesis using 2(2,3) 1(2) response_is_reply by fastforce
qed


text \<open>The output of a service: entries with a name, then the rest of the zeroed array.\<close>

definition service_output :: "leda_device_data list \<Rightarrow> nat \<Rightarrow> leda_device_data list \<Rightarrow> bool" where
  "service_output out n ds \<longleftrightarrow> length out = n \<and> (\<exists>rest. out = ds @ rest \<and> (rest \<noteq> [] \<longrightarrow> dkey (hd rest) = Some [])) \<and>
     list_all (\<lambda>d. dkey d \<noteq> Some []) ds \<and> sendable_inside ds"

lemma count_params_append:
  assumes "list_all sendable ds" "list_all (\<lambda>d. dkey d \<noteq> Some []) ds" "rest \<noteq> [] \<longrightarrow> dkey (hd rest) = Some []"
  shows "count_params (ds @ rest) (length (ds @ rest)) = Some (length ds)"
  using assms(1,2)
proof (induction ds)
  case Nil
  then show ?case using assms(3) by (cases rest) simp_all
next
  case (Cons d ds)
  then obtain k where "dkey d = Some k" by (cases d rule: sendable.cases) auto
  then show ?case using Cons by simp
qed

lemma write_entries_prefix:
  "write_entries (ds @ rest) (length ds) arr m = write_entries ds (length ds) arr m"
  by (induction ds arbitrary: arr m) (simp_all split: option.splits prod.splits cong: if_cong)


subsection \<open>Requests without an answer\<close>

text \<open>A request that is incomplete is not answered at all: without the product key, the device name, or both of the
  properties and the input data, the worker only frees the task, so that the gateway cannot tell it from a lost
  message; no callback is called.\<close>

theorem incomplete_request_unanswered:
  assumes "pm_type p = MSG_METHOD" "\<forall>pl pk dn a. pm_payload p = Some pl \<longrightarrow> \<not> asks pl pk dn a"
  shows "\<exists>m'. threadpool_recv_proc lws_pre p s m = Some ([], s, m') \<and> live m' = live m - task_blocks p"
proof -
  have "handle_method lws_pre p s m = Some ([], s, m)"
  proof (cases "pm_payload p")
    case None
    then show ?thesis by (simp add: handle_method_def cJSON_GetObjectItem_def get_object_item_def get_object_index_def)
  next
    case (Some pl)
    then have no: "\<not> asks pl pk dn a" for pk dn a using assms(2) by blast
    have "cJSON_GetObjectItem (Some pl) (Some ''productKey'') = None \<or> cJSON_GetObjectItem (Some pl) (Some ''deviceName'') = None \<or>
        cJSON_GetObjectItem (Some pl) (Some ''properties'') = None \<and> cJSON_GetObjectItem (Some pl) (Some ''inputData'') = None"
    proof (rule ccontr)
      assume "\<not> ?thesis"
      then obtain e1 e2 a where "cJSON_GetObjectItem (Some pl) (Some ''productKey'') = Some e1" "cJSON_GetObjectItem (Some pl) (Some ''deviceName'') = Some e2"
        "cJSON_GetObjectItem (Some pl) (Some ''properties'') = Some a \<or>
         cJSON_GetObjectItem (Some pl) (Some ''properties'') = None \<and> cJSON_GetObjectItem (Some pl) (Some ''inputData'') = Some a"
        by (cases "cJSON_GetObjectItem (Some pl) (Some ''properties'')") auto
      then have "asks pl (valuestring e1) (valuestring e2) a" by (auto simp: asks_def)
      then show False using no by blast
    qed
    then show ?thesis using Some by (auto simp: handle_method_def Let_def split: option.splits)
  qed
  then show ?thesis using assms(1) by (simp add: threadpool_recv_proc_def leda_msg_defs task_blocks_def cJSON_Delete_def split: option.splits)
qed

subsection \<open>Reports\<close>

text \<open>The members that a report adds to the payload of the request.\<close>

definition report_members :: "string option \<Rightarrow> leda_device_data list \<Rightarrow> cJSON list" where
  "report_members event ds =
     (case event of
        None \<Rightarrow> [set_jstring (Some ''properties'') (data_tree ds)]
      | Some nm \<Rightarrow> [set_jstring (Some ''identifier'') (text_item nm), set_jstring (Some ''outputData'') (data_tree ds)])"

lemma add_plain_member:
  assumes "reliable m" "\<not> is_ref ob" "canonical l e" "jstring e = None"
  obtains m' where "cJSON_AddItemToObject (Some ob) (Some k) (Some e) m = (Some (set_child (child ob @ [set_jstring (Some k) e]) ob), m')" "reliable m'"
    "live m' - blocks (set_child (child ob @ [set_jstring (Some k) e]) ob) = live m - blocks ob - blocks e"
proof -
  have k: "keyed k e = set_jstring (Some k) e" using assms(3) by simp
  obtain m' where "add_item_to_object (Some ob) (Some k) (Some e) False m = (True, Some (with_member k e ob), Some (keyed k e), m')"
    "reliable m'" "live m' - blocks (with_member k e ob) = live m - blocks ob - blocks e"
    using add_member_ok [OF assms(1,4,2), of k] by blast
  then show thesis using that unfolding with_member_def k by (simp add: cJSON_AddItemToObject_def)
qed

lemma report_payload:
  fixes pk dn :: string
  defines "P \<equiv> \<lambda>es. Item cJSON_Object None 0 zero_double (Some ''payload'') (device_members pk dn @ es)"
  assumes "reliable m" "sendable_inside ds"
  obtains m2 where
    "(case event of
        None \<Rightarrow> cJSON_AddItemToObject (Some (P [])) (Some ''properties'') (Some (data_tree ds)) m
      | Some nm \<Rightarrow>
          (let (_, p1, m5) = cJSON_AddStringToObject (Some (P [])) (Some ''identifier'') (Some nm) m in
           cJSON_AddItemToObject p1 (Some ''outputData'') (Some (data_tree ds)) m5)) = (Some (P (report_members event ds)), m2)"
    "reliable m2" "live m2 - blocks (P (report_members event ds)) = live m - blocks (P []) - blocks (data_tree ds)"
proof -
  note tree = data_tree_ok(2,3) [OF assms(3)]
  have P: "\<not> is_ref (P es)" "set_child (child (P es) @ fs) (P es) = P (es @ fs)" for es fs by (simp_all add: P_def cjson_type_defs)
  show thesis
  proof (cases event)
    case None
    from add_plain_member [OF assms(2) P(1) tree, of "[]" "''properties''"] show thesis
      using that None unfolding P(2) append_Nil by (auto simp: report_members_def)
  next
    case (Some nm)
    obtain m1 where 1: "cJSON_AddStringToObject (Some (P [])) (Some ''identifier'') (Some nm) m =
        (Some (keyed ''identifier'' (text_item nm)), Some (P [set_jstring (Some ''identifier'') (text_item nm)]), m1)" "reliable m1"
      "live m1 - blocks (P [set_jstring (Some ''identifier'') (text_item nm)]) = live m - blocks (P [])"
      using add_text_ok [OF assms(2) P(1), of "[]" "''identifier''" nm] unfolding with_member_def P(2) append_Nil keyed_text by blast
    from add_plain_member [OF 1(2) P(1) tree, of "[set_jstring (Some ''identifier'') (text_item nm)]" "''outputData''"] show thesis
      using that Some 1 unfolding P(2) by (auto simp: report_members_def)
  qed
qed

text \<open>A document is printed, deleted, and its text goes to the end of the outgoing buffer.\<close>

lemma document_queued:
  assumes "json_document d" "render False 0 d = Some t" "length t + 2 \<le> int_max" "reliable m" "client_ready lws_pre c" "lws_pre \<le> 4096"
  obtains m1 b m2 where "cJSON_PrintUnformatted (Some d) m = Some (Some t, m1)"
    "wsc_add_msg lws_pre (Some (t @ [NUL])) (of_nat (length t)) 0 c (cJSON_Delete (Some d) m1) =
       Some (LE_SUCCESS, notify_network c, c\<lparr>out_msgs := b\<rparr>, m2)"
    "pending lws_pre b = pending lws_pre (out_msgs c) @ [(t, 0)]" "reliable m2" "live m2 = live m + 1 - blocks d"
proof -
  obtain m1 where 1: "cJSON_PrintUnformatted (Some d) m = Some (Some t, m1)" "reliable m1" "live m1 = live m + 1"
    using print_and_delete [OF assms(1-4)] .
  have r: "reliable (cJSON_Delete (Some d) m1)" "live (cJSON_Delete (Some d) m1) = live m + 1 - blocks d"
    using 1(2,3) by (simp_all add: cJSON_Delete_def)
  have "t \<noteq> []" using render_dark [of CJSON_NESTING_LIMIT d False 0 t] assms(1,2) by (auto simp: json_document_def)
  then have n: "0 < length t" "length t \<le> length (t @ [NUL])" "length t + 1 + lws_pre < 2 ^ 64" using assms(3,6) by simp_all
  obtain b m2 where "wsc_add_msg lws_pre (Some (t @ [NUL])) (of_nat (length t)) 0 c (cJSON_Delete (Some d) m1) =
      Some (LE_SUCCESS, notify_network c, c\<lparr>out_msgs := b\<rparr>, m2)"
    "pending lws_pre b = pending lws_pre (out_msgs c) @ [(take (length t) (t @ [NUL]), 0)]" "reliable m2"
    "live m2 = live (cJSON_Delete (Some d) m1)"
    using add_msg_ok [OF assms(5) r(1) n] .
  then show thesis using that [OF 1(1)] r(2) by simp
qed


subsection \<open>Examples\<close>

text \<open>A device with one property; its callbacks return the temperature.\<close>

definition sensor_cbs :: leda_device_callback where
  "sensor_cbs = \<lparr>get_properties_cb = Some (\<lambda>pk dn ds n u. (LE_SUCCESS, [temperature])), usr_data_get_property = No_data,
     set_properties_cb = Some (\<lambda>pk dn ds n u. if u = Address_of_set_properties_cb then 0 else 1), usr_data_set_property = No_data,
     call_service_cb = Some (\<lambda>pk dn nm ds n out u. (LE_SUCCESS, [temperature])), service_output_max_count = 1, usr_data_call_service = No_data,
     report_reply_cb = False, usr_data_report_reply = No_data\<rparr>"

definition sensor :: leda where
  "sensor = ready_sdk\<lparr>g_devs_cb := sensor_cbs\<rparr>"

lemma sensor_ready: "client_ready 16 (client sensor)" "g_devs_cb sensor = sensor_cbs" "g_conn_state sensor = LEDA_WS_CONNECTED" "g_msg_id sensor = 0"
  using ready_sdk_ok by (simp_all add: sensor_def sdk_ready_def)

definition sensor_request :: "(string \<times> cJSON) list \<Rightarrow> cJSON" where
  "sensor_request ms = Item cJSON_Object None 0 zero_double (Some ''payload'')
     (map (\<lambda>(k, e). set_jstring (Some k) e) ([(''productKey'', text_item ''a1''), (''deviceName'', text_item ''lamp'')] @ ms))"

definition sensor_task :: "string \<Rightarrow> (string \<times> cJSON) list \<Rightarrow> parsed_msg" where
  "sensor_task mth ms = \<lparr>pm_type = MSG_METHOD, pm_id = 7, pm_code = 0, pm_method = mth, pm_payload = Some (sensor_request ms)\<rparr>"

lemma sensor_task_sel [simp]: "pm_type (sensor_task mth ms) = MSG_METHOD" "pm_id (sensor_task mth ms) = 7" "pm_method (sensor_task mth ms) = mth"
  "pm_payload (sensor_task mth ms) = Some (sensor_request ms)" "int_range 7"
  by (simp_all add: sensor_task_def int_range_def)

lemma member_names [simp]:
  "\<not> same_name ''productKey'' ''deviceName''" "\<not> same_name ''productKey'' ''properties''" "\<not> same_name ''productKey'' ''identifier''"
  "\<not> same_name ''productKey'' ''inputData''" "\<not> same_name ''deviceName'' ''productKey''" "\<not> same_name ''deviceName'' ''properties''"
  "\<not> same_name ''deviceName'' ''identifier''" "\<not> same_name ''deviceName'' ''inputData''" "\<not> same_name ''properties'' ''productKey''"
  "\<not> same_name ''properties'' ''deviceName''" "\<not> same_name ''properties'' ''identifier''" "\<not> same_name ''properties'' ''inputData''"
  "\<not> same_name ''identifier'' ''productKey''" "\<not> same_name ''identifier'' ''deviceName''" "\<not> same_name ''identifier'' ''properties''"
  "\<not> same_name ''identifier'' ''inputData''" "\<not> same_name ''inputData'' ''productKey''" "\<not> same_name ''inputData'' ''deviceName''"
  "\<not> same_name ''inputData'' ''properties''" "\<not> same_name ''inputData'' ''identifier''"
  by (simp_all add: same_name_def lower_def)

lemma sensor_asks: "asks (sensor_request [(''properties'', e)]) (Some ''a1'') (Some ''lamp'') (set_jstring (Some ''properties'') e)"
  by (simp add: asks_def sensor_request_def cJSON_GetObjectItem_find)

lemma temperature_tree:
  "entry_of_data temperature = Item cJSON_Object None 0 zero_double None
     [set_jstring (Some ''identifier'') (text_item ''temperature''), set_jstring (Some ''type'') (text_item ''int''),
      number_member ''value'' 21]"
proof -
  have "atoi ''21'' = 21" using atoi_print_int [of 21] by (simp add: print_int_def dec.simps digit_def int_range_def)
  moreover have "saturate (double_of_int 21) = Some 21" by (rule saturate_int_range) (simp add: int_range_def)
  ultimately have v: "value_tree LEDA_TYPE_INT ''21'' = Item cJSON_Number None 21 (double_of_int 21) None []"
    by (simp add: value_tree_def leda_type_defs)
  have "type_number_to_string LEDA_TYPE_INT = ''int''" by (simp add: type_number_to_string_def g_type_map_def leda_type_defs)
  moreover have "canonical (CJSON_NESTING_LIMIT - 2) (Item cJSON_Number None 21 (double_of_int 21) None [])"
    using canonical_number [of 21 21] \<open>saturate (double_of_int 21) = Some 21\<close> by simp
  ultimately show ?thesis
    using entry_tree_child [of "''temperature''" LEDA_TYPE_INT] by (simp add: entry_of_data_def temperature_def v number_member_def)
qed

lemma temperature_sendable: "sendable_inside [temperature]"
proof -
  have "saturate (double_of_int 21) = Some 21" by (rule saturate_int_range) (simp add: int_range_def)
  then have "canonical l (number_member ''value'' 21)" for l using canonical_number [of 21 21] by (simp add: number_member_def)
  then have "canonical (CJSON_NESTING_LIMIT - 3) (entry_of_data temperature)"
    by (simp add: temperature_tree is_text_def CJSON_NESTING_LIMIT_def number_member_def cjson_type_defs)
  then show ?thesis using sendable_examples by (simp add: sendable_inside_def)
qed

definition data_text :: "string \<Rightarrow> string" where
  "data_text k = jtext ''{`code`:0,`messageId`:7,`payload`:{'' @ jtext ''`'' @ k @ jtext ''`:[{`identifier`:`temperature`,`type`:`int`,`value`:21}]}}''"

lemma render_number_member: "\<bar>n\<bar> < 10 ^ 15 \<Longrightarrow> render fmt d (number_member k n) = Some (print_int n)"
  using number_text_int [of n] by (simp add: number_member_def render.simps cjson_type_defs)

lemma data_rendered:
  assumes "k \<in> {''properties'', ''outputData''}"
  shows "render False 0 (response LE_SUCCESS 7 (holder k (data_tree [temperature]))) = Some (data_text k)"
proof -
  have n: "number_text (double_of_int n) = print_int n" if "n \<in> {0, 7, 21}" for n using number_text_int [of n] that by auto
  then show ?thesis using assms n [of 0] n [of 7] n [of 21]
    by (auto simp: response_def holder_def data_tree_def temperature_tree data_text_def number_member_def text_item_def le_error_defs
        cjson_type_defs render.simps jtext_def quoted_def escape_char_def print_int_def dec.simps digit_def)
qed

lemma data_text_length: "length (data_text ''properties'') + 2 \<le> int_max" "length (data_text ''outputData'') + 2 \<le> int_max"
  by (simp_all add: data_text_def jtext_def)


lemma empty_rendered: "render False 0 (response 0 7 empty_object) = Some (jtext ''{`code`:0,`messageId`:7,`payload`:{}}'')"
  using number_text_int [of 0] number_text_int [of 7]
  by (simp add: response_def number_member_def empty_object_def cjson_type_defs render.simps jtext_def quoted_def escape_char_def
      print_int_def dec.simps digit_def)



lemma incomplete_request_unanswered_witness:
  "\<exists>m'. threadpool_recv_proc 16 (sensor_task METHOD_SET_PROPERTY []) sensor always = Some ([], sensor, m')"
proof -
  have "\<forall>pl pk dn a. pm_payload (sensor_task METHOD_SET_PROPERTY []) = Some pl \<longrightarrow> \<not> asks pl pk dn a"
    by (simp add: asks_def sensor_request_def cJSON_GetObjectItem_find)
  from incomplete_request_unanswered [OF sensor_task_sel(1) this] show ?thesis by blast
qed

definition report_text :: string where
  "report_text = jtext ''{`version`:`1.0`,`messageId`:1,`method`:`reportProperty`,`payload`:{`productKey`:`a1`,`deviceName`:`lamp`,''
     @ jtext ''`properties`:[{`identifier`:`temperature`,`type`:`int`,`value`:21}]}}''"

lemma report_rendered:
  "render False 0 (request EMTHOD_REPORT_PROPERTY ''a1'' ''lamp'' 1 (report_members None [temperature])) = Some report_text"
  using saturate_examples number_text_int [of 1] number_text_int [of 21]
  by (simp add: request_def request_tree_def device_members_def report_members_def data_tree_def temperature_tree number_member_def text_item_def
      EMTHOD_REPORT_PROPERTY_def PROTOCOL_VERSION_def report_text_def cjson_type_defs render.simps jtext_def quoted_def escape_char_def
      print_int_def dec.simps digit_def)

end
