(* ===== verification/Demo.thy ===== *)
theory Demo
  imports Leda_Answers
begin

text \<open>
  The demo application, \<open>demo/linux/demo.c\<close>: a list of lamps, the callbacks it registers, and the loops of its two
  threads. A function that falls off its end without a \<open>return\<close> whose result is used is undefined (\<open>None\<close>).
  What \<open>leda_online\<close> and \<open>leda_offline\<close> return is an argument of the loops.
\<close>

subsection \<open>The devices\<close>

record device =
  dev_pk :: string
  dev_dn :: string
  dev_online :: int
  dev_power :: int
  dev_brightness :: int

record demo =
  g_devices :: "device list"
  g_is_connected :: int
  g_online_dev_num :: int

text \<open>Only the name of the device is compared.\<close>

fun device_index :: "device list \<Rightarrow> string \<Rightarrow> nat option" where
  "device_index [] dn = None"
| "device_index (d # ds) dn = (if dev_dn d = dn then Some 0 else map_option Suc (device_index ds dn))"

definition get_device_index :: "demo \<Rightarrow> string option \<Rightarrow> nat option" where
  "get_device_index d dn = do { s \<leftarrow> dn; device_index (g_devices d) s }"

definition set_led_power :: "demo \<Rightarrow> string option \<Rightarrow> int \<Rightarrow> (int \<times> demo) option" where
  "set_led_power d dn state =
     (if state \<noteq> 0 \<and> state \<noteq> 1 then Some (LE_ERROR_PARAM_RANGE_OVERFLOW, d)
      else do { i \<leftarrow> get_device_index d dn;
                Some (LE_SUCCESS, d\<lparr>g_devices := (g_devices d)[i := (g_devices d ! i)\<lparr>dev_power := state\<rparr>]\<rparr>) })"

definition get_led_power :: "demo \<Rightarrow> string option \<Rightarrow> int option" where
  "get_led_power d dn = do { i \<leftarrow> get_device_index d dn; Some (dev_power (g_devices d ! i)) }"

definition set_led_brightness :: "demo \<Rightarrow> string option \<Rightarrow> int \<Rightarrow> (int \<times> demo) option" where
  "set_led_brightness d dn level =
     (if level < 0 \<or> 5 < level then Some (LE_ERROR_PARAM_RANGE_OVERFLOW, d)
      else do { i \<leftarrow> get_device_index d dn;
                Some (LE_SUCCESS, d\<lparr>g_devices := (g_devices d)[i := (g_devices d ! i)\<lparr>dev_brightness := level\<rparr>]\<rparr>) })"

definition get_led_brightness :: "demo \<Rightarrow> string option \<Rightarrow> int option" where
  "get_led_brightness d dn = do { i \<leftarrow> get_device_index d dn; Some (dev_brightness (g_devices d ! i)) }"

subsection \<open>The callbacks\<close>

text \<open>The loops over the first \<open>n\<close> entries.\<close>

fun cb_get_property :: "demo \<Rightarrow> string option \<Rightarrow> leda_device_data list \<Rightarrow> nat \<Rightarrow> (int \<times> leda_device_data list) option" where
  "cb_get_property d dn ps 0 = Some (LE_SUCCESS, ps)"
| "cb_get_property d dn [] (Suc n) = None"
| "cb_get_property d dn (p # ps) (Suc n) =
     do { k \<leftarrow> dkey p;
          if k = ''power'' then
            do { v \<leftarrow> get_led_power d dn;
                 (r, rest) \<leftarrow> cb_get_property d dn ps n;
                 Some (r, p\<lparr>dvalue := Some (snprintf_s MAX_PARAM_VALUE_LENGTH (print_int v)), dtype := Some LEDA_TYPE_BOOL\<rparr> # rest) }
          else if k = ''brightness'' then
            do { v \<leftarrow> get_led_brightness d dn;
                 (r, rest) \<leftarrow> cb_get_property d dn ps n;
                 Some (r, p\<lparr>dvalue := Some (snprintf_s MAX_PARAM_VALUE_LENGTH (print_int v)), dtype := Some LEDA_TYPE_INT\<rparr> # rest) }
          else Some (LEDA_ERROR_PROPERTY_NOT_EXIST, p # ps) }"

fun set_properties :: "int \<Rightarrow> demo \<Rightarrow> string option \<Rightarrow> leda_device_data list \<Rightarrow> nat \<Rightarrow> (int \<times> demo) option" where
  "set_properties ret d dn ps 0 = Some (ret, d)"
| "set_properties ret d dn [] (Suc n) = None"
| "set_properties ret d dn (p # ps) (Suc n) =
     do { k \<leftarrow> dkey p;
          if k = ''brightness'' then
            do { v \<leftarrow> dvalue p; (ret1, d1) \<leftarrow> set_led_brightness d dn (atoi v);
                 if ret1 \<noteq> LE_SUCCESS then Some (ret1, d1) else set_properties ret1 d1 dn ps n }
          else if k = ''power'' then
            do { v \<leftarrow> dvalue p; (ret1, d1) \<leftarrow> set_led_power d dn (atoi v);
                 if ret1 \<noteq> LE_SUCCESS then Some (ret1, d1) else set_properties ret1 d1 dn ps n }
          else Some (LEDA_ERROR_PROPERTY_NOT_EXIST, d) }"

definition cb_set_property :: "demo \<Rightarrow> string option \<Rightarrow> leda_device_data list \<Rightarrow> nat \<Rightarrow> (int \<times> demo) option" where
  "cb_set_property d dn ps n = set_properties LE_ERROR_UNKNOWN d dn ps n"

definition cb_call_service :: "string option \<Rightarrow> leda_device_data list option \<Rightarrow> int" where
  "cb_call_service method_name output =
     (if method_name = None \<or> output = None then LE_ERROR_INVAILD_PARAM
      else if method_name = Some ''blink'' then LE_SUCCESS
      else LEDA_ERROR_SERVICE_NOT_EXIST)"

definition cb_state_changed :: "int \<Rightarrow> demo \<Rightarrow> demo" where
  "cb_state_changed state d = d\<lparr>g_is_connected := (if state = LEDA_WS_CONNECTED then 1 else 0)\<rparr>"

text \<open>What the SDK gets: the callbacks in a state of the demo.\<close>

definition demo_cbs :: "demo \<Rightarrow> leda_device_callback" where
  "demo_cbs d = \<lparr>
     get_properties_cb = Some (\<lambda>pk dn ds n u. case cb_get_property d dn ds (nat n) of Some r \<Rightarrow> r | None \<Rightarrow> (LE_ERROR_UNKNOWN, ds)),
     usr_data_get_property = No_data,
     set_properties_cb = Some (\<lambda>pk dn ds n u. case cb_set_property d dn ds (nat n) of Some r \<Rightarrow> fst r | None \<Rightarrow> LE_ERROR_UNKNOWN),
     usr_data_set_property = No_data,
     call_service_cb = Some (\<lambda>pk dn nm ds n out u. (cb_call_service nm (Some out), out)),
     service_output_max_count = 0, usr_data_call_service = No_data, report_reply_cb = False, usr_data_report_reply = No_data\<rparr>"

subsection \<open>The threads\<close>

text \<open>One round of \<open>thread_online\<close> over all devices; \<open>rets i\<close> is what \<open>leda_online\<close> returns for the \<open>i\<close>-th.\<close>

fun online_round :: "bool \<Rightarrow> (nat \<Rightarrow> int) \<Rightarrow> nat \<Rightarrow> device list \<Rightarrow> int \<Rightarrow> device list \<times> int" where
  "online_round conn rets i [] num = ([], num)"
| "online_round conn rets i (d # ds) num =
     (let (d1, num1) =
        (if conn then
           (if dev_online d = 0 \<and> rets i = LE_SUCCESS then (d\<lparr>dev_online := 1\<rparr>, num + 1) else (d, num))
         else
           (if dev_online d \<noteq> 0 then (d\<lparr>dev_online := 0\<rparr>, num - 1) else (d, num)));
        (ds1, num2) = online_round conn rets (Suc i) ds num1 in
      (d1 # ds1, num2))"

definition thread_online_round :: "(nat \<Rightarrow> int) \<Rightarrow> demo \<Rightarrow> demo" where
  "thread_online_round rets d =
     (let (ds, num) = online_round (g_is_connected d \<noteq> 0) rets 0 (g_devices d) (g_online_dev_num d) in
      d\<lparr>g_devices := ds, g_online_dev_num := num\<rparr>)"

text \<open>One round of \<open>thread_report\<close>: the properties it reports for every device (the event \<open>ledBroken\<close> follows each time).\<close>

definition report_data :: "demo \<Rightarrow> device \<Rightarrow> leda_device_data list option" where
  "report_data d x =
     do { b \<leftarrow> get_led_brightness d (Some (dev_dn x));
          p \<leftarrow> get_led_power d (Some (dev_dn x));
          Some [\<lparr>dtype = Some LEDA_TYPE_INT, dkey = Some ''brightness'', dvalue = Some (snprintf_s MAX_PARAM_VALUE_LENGTH (print_int b))\<rparr>,
                \<lparr>dtype = Some LEDA_TYPE_BOOL, dkey = Some ''power'', dvalue = Some (snprintf_s MAX_PARAM_VALUE_LENGTH (print_int p))\<rparr>] }"

fun report_round :: "demo \<Rightarrow> device list \<Rightarrow> (string \<times> string \<times> leda_device_data list) list option" where
  "report_round d [] = Some []"
| "report_round d (x # xs) =
     (if dev_online x = 1
      then do { ps \<leftarrow> report_data d x; rest \<leftarrow> report_round d xs; Some ((dev_pk x, dev_dn x, ps) # rest) }
      else report_round d xs)"

text \<open>The end of \<open>main\<close>: every device that is online goes offline; \<open>rets i\<close> is what \<open>leda_offline\<close> returns.\<close>

fun offline_all :: "bool \<Rightarrow> (nat \<Rightarrow> int) \<Rightarrow> nat \<Rightarrow> device list \<Rightarrow> device list" where
  "offline_all conn rets i [] = []"
| "offline_all conn rets i (d # ds) =
     (if conn \<and> dev_online d \<noteq> 0 \<and> rets i = LE_SUCCESS then d\<lparr>dev_online := 0\<rparr> else d) # offline_all conn rets (Suc i) ds"

subsection \<open>The list of devices\<close>

text \<open>The number of \<open>fgets\<close> calls with a buffer of 128 bytes that return something; \<open>k\<close> bytes of the current one were read.\<close>

fun count_lines :: "string \<Rightarrow> nat \<Rightarrow> nat" where
  "count_lines [] k = (if k = 0 then 0 else 1)"
| "count_lines (c # cs) k = (if of_char c = (10 :: nat) \<or> k + 1 = 127 then Suc (count_lines cs 0) else count_lines cs (k + 1))"

text \<open>The directives of \<open>fscanf\<close>: the text that is matched (empty: no match) and the rest.\<close>

definition scan_s :: "string \<Rightarrow> string \<times> string" where
  "scan_s cs = (let r = dropWhile is_space cs in (takeWhile (\<lambda>c. \<not> is_space c) r, dropWhile (\<lambda>c. \<not> is_space c) r))"

definition name_char :: "char \<Rightarrow> bool" where
  "name_char c \<longleftrightarrow> c \<noteq> CHR 0x27 \<and> c \<noteq> CHR '',''"

text \<open>One device: a field that is longer than its array is written beyond it.\<close>

definition scan_device :: "string \<Rightarrow> (device \<times> string) option" where
  "scan_device cs =
     (let blank_dev = \<lparr>dev_pk = [], dev_dn = [], dev_online = 0, dev_power = 0, dev_brightness = 0\<rparr>;
          dn = takeWhile name_char cs; r = dropWhile name_char cs in
      if dn = [] then Some (blank_dev, cs)
      else if 32 \<le> length dn then None
      else
        (case r of
           [] \<Rightarrow> Some (blank_dev\<lparr>dev_dn := dn\<rparr>, r)
         | c # r1 \<Rightarrow>
             if c \<noteq> CHR '','' then Some (blank_dev\<lparr>dev_dn := dn\<rparr>, r)
             else
               (let (pk, r2) = scan_s r1 in
                if pk = [] then Some (blank_dev\<lparr>dev_dn := dn\<rparr>, r2)
                else if 16 \<le> length pk then None
                else Some (blank_dev\<lparr>dev_dn := dn, dev_pk := pk\<rparr>, dropWhile is_space r2))))"

fun scan_devices :: "nat \<Rightarrow> string \<Rightarrow> device list option" where
  "scan_devices 0 cs = Some []"
| "scan_devices (Suc n) cs = do { (d, r) \<leftarrow> scan_device cs; ds \<leftarrow> scan_devices n r; Some (d # ds) }"

definition load_device_list :: "string option \<Rightarrow> mem \<Rightarrow> (int \<times> device list \<times> mem) option" where
  \<comment> \<open>the content of the file, if it can be opened\<close>
  "load_device_list file m =
     (case file of
        None \<Rightarrow> Some (- 1, [], m)
      | Some f \<Rightarrow>
          if count_lines f 0 \<le> 1 then Some (- 1, [], m)
          else
            (let (ok, m1) = malloc m in
             if \<not> ok then Some (- 1, [], m1)
             else
               (let (title, r) = scan_s f in
                if 128 \<le> length title then None
                else do { ds \<leftarrow> scan_devices (count_lines f 0 - 1) (dropWhile is_space r); Some (0, ds, m1) })))"

definition unload_device_list :: "device list option \<Rightarrow> mem \<Rightarrow> mem" where
  "unload_device_list ds m = (if ds = None then m else c_free 1 m)"


subsection \<open>The state of the lamps\<close>

definition lamp_ok :: "device \<Rightarrow> bool" where
  "lamp_ok x \<longleftrightarrow> dev_power x \<in> {0, 1} \<and> 0 \<le> dev_brightness x \<and> dev_brightness x \<le> 5"

text \<open>The value a list of settings leaves a property at.\<close>

definition last_set :: "string \<Rightarrow> leda_device_data list \<Rightarrow> int \<Rightarrow> int" where
  "last_set k ps v = fold (\<lambda>p v. if dkey p = Some k then atoi (the (dvalue p)) else v) ps v"

definition configured :: "leda_device_data list \<Rightarrow> device \<Rightarrow> device" where
  "configured ps x = x\<lparr>dev_power := last_set ''power'' ps (dev_power x), dev_brightness := last_set ''brightness'' ps (dev_brightness x)\<rparr>"

lemma device_index_Some: "device_index ds dn = Some i \<Longrightarrow> i < length ds \<and> dev_dn (ds ! i) = dn"
  by (induction ds arbitrary: i) (auto split: if_splits)

lemma device_index_update:
  "device_index ds dn = Some i \<Longrightarrow> dev_dn x = dev_dn (ds ! i) \<Longrightarrow> device_index (ds[i := x]) dn = Some i"
  by (induction ds arbitrary: i) (auto split: if_splits)

lemma set_properties_spec:
  assumes "set_properties ret d (Some dn) ps (length ps) = Some (LE_SUCCESS, d')" "device_index (g_devices d) dn = Some i"
    and "lamp_ok (g_devices d ! i)"
  shows "g_devices d' = (g_devices d)[i := configured ps (g_devices d ! i)] \<and> lamp_ok (configured ps (g_devices d ! i)) \<and>
    g_is_connected d' = g_is_connected d \<and> g_online_dev_num d' = g_online_dev_num d"
  using assms
proof (induction ps arbitrary: ret d)
  case Nil
  then show ?case using device_index_Some [OF Nil.prems(2)] by (simp add: configured_def last_set_def)
next
  case (Cons p ps)
  have i: "i < length (g_devices d)" using device_index_Some [OF Cons.prems(2)] by simp
  define x where "x = g_devices d ! i"
  obtain v where v: "dvalue p = Some v" "dkey p = Some ''brightness'' \<and> 0 \<le> atoi v \<and> atoi v \<le> 5 \<or> dkey p = Some ''power'' \<and> atoi v \<in> {0, 1}"
    using Cons.prems(1,2)
    by (auto simp: set_led_brightness_def set_led_power_def get_device_index_def le_error_defs split: bind_splits if_splits)
  define y where "y = (if dkey p = Some ''power'' then x\<lparr>dev_power := atoi v\<rparr> else x\<lparr>dev_brightness := atoi v\<rparr>)"
  define d1 where "d1 = d\<lparr>g_devices := (g_devices d)[i := y]\<rparr>"
  have step: "set_properties LE_SUCCESS d1 (Some dn) ps (length ps) = Some (LE_SUCCESS, d')"
    using Cons.prems(1,2) v
    by (auto simp: set_led_brightness_def set_led_power_def get_device_index_def le_error_defs d1_def y_def x_def)
  have y: "dev_dn y = dev_dn x" "lamp_ok y" using v Cons.prems(3) by (auto simp: y_def lamp_ok_def x_def)
  have idx: "device_index (g_devices d1) dn = Some i"
    using device_index_update [OF Cons.prems(2)] y(1) by (simp add: d1_def x_def)
  have at: "g_devices d1 ! i = y" using i by (simp add: d1_def)
  have "configured ps y = configured (p # ps) x" using v by (auto simp: configured_def last_set_def y_def)
  then show ?case using Cons.IH [OF step idx] y(2) unfolding at by (simp add: d1_def x_def)
qed

lemma print_int_small: "\<bar>n\<bar> < 10 ^ 15 \<Longrightarrow> length (print_int n) < MAX_PARAM_VALUE_LENGTH"
  using print_int_length [of n] by (simp add: MAX_PARAM_VALUE_LENGTH_def)

lemma lamp_values: "lamp_ok x \<Longrightarrow> int_range (dev_power x) \<and> int_range (dev_brightness x)"
  by (auto simp: lamp_ok_def int_range_def)

text \<open>What the device answers for a name.\<close>

definition reading :: "device \<Rightarrow> string \<Rightarrow> leda_device_data" where
  "reading x k =
     (if k = ''power'' then \<lparr>dtype = Some LEDA_TYPE_BOOL, dkey = Some k, dvalue = Some (print_int (dev_power x))\<rparr>
      else \<lparr>dtype = Some LEDA_TYPE_INT, dkey = Some k, dvalue = Some (print_int (dev_brightness x))\<rparr>)"

lemma get_property_spec:
  assumes "device_index (g_devices d) dn = Some i" "lamp_ok (g_devices d ! i)" "set ks \<subseteq> {''power'', ''brightness''}"
  shows "cb_get_property d (Some dn) (map asked ks) (length ks) = Some (LE_SUCCESS, map (reading (g_devices d ! i)) ks)"
  using assms(3)
proof (induction ks)
  case (Cons k ks)
  have "length (print_int (dev_power (g_devices d ! i))) < MAX_PARAM_VALUE_LENGTH"
    "length (print_int (dev_brightness (g_devices d ! i))) < MAX_PARAM_VALUE_LENGTH"
    using lamp_values [OF assms(2)] double_int_range print_int_small by blast+
  moreover have "snprintf_s MAX_PARAM_NAME_LENGTH k = k" using Cons.prems by (auto simp: MAX_PARAM_NAME_LENGTH_def)
  ultimately show ?case using Cons assms(1)
    by (auto simp: asked_def unset_def reading_def get_led_power_def get_led_brightness_def get_device_index_def)
qed simp

lemma int_entry_sendable:
  assumes "int_range n" "is_cstr k" "length k < MAX_PARAM_NAME_LENGTH" "t \<in> {LEDA_TYPE_INT, LEDA_TYPE_BOOL}"
  defines "d \<equiv> \<lparr>dtype = Some t, dkey = Some k, dvalue = Some (print_int n)\<rparr>"
  shows "sendable d" "canonical (CJSON_NESTING_LIMIT - 3) (entry_of_data d)"
proof -
  have n: "\<bar>n\<bar> < 10 ^ 15" by (rule double_int_range [OF assms(1)])
  have a: "atoi (print_int n) = n" by (rule atoi_print_int [OF assms(1)])
  have c: "is_cstr (print_int n)" using fits_number_int [OF n] number_text_int [OF n] by (simp add: fits_number_def)
  show "sendable d"
    using assms(2-4) print_int_small [OF n] a c by (auto simp: d_def value_ok_def leda_type_defs)
  have v: "value_tree t (print_int n) = Item cJSON_Number None n (double_of_int n) None []"
    using assms(4) a saturate_int_range [OF assms(1)] by (auto simp: value_tree_def leda_type_defs Let_def)
  have num: "canonical l (Item cJSON_Number None n (double_of_int n) None [])" for l
    by (rule canonical_number [OF n saturate_int_range [OF assms(1)]])
  have ty: "is_cstr (type_number_to_string t)" using assms(4) by (auto simp: type_number_to_string_def g_type_map_def leda_type_defs)
  have lim: "0 < CJSON_NESTING_LIMIT - 3" "CJSON_NESTING_LIMIT - 3 - 1 = CJSON_NESTING_LIMIT - 4" by (simp_all add: CJSON_NESTING_LIMIT_def)
  show "canonical (CJSON_NESTING_LIMIT - 3) (entry_of_data d)"
    unfolding entry_of_data_def d_def leda_device_data.simps option.sel v entry_tree_child [OF assms(2) ty num]
    using assms(2) ty num lim by (simp add: is_text_def cjson_type_defs del: canonical.simps) (simp add: is_text_def cjson_type_defs)
qed

lemma reading_sendable:
  assumes "lamp_ok x" "set ks \<subseteq> {''power'', ''brightness''}" "length ks < 2 ^ 31"
  shows "sendable_inside (map (reading x) ks)"
proof -
  have "sendable (reading x k) \<and> canonical (CJSON_NESTING_LIMIT - 3) (entry_of_data (reading x k))" if "k \<in> {''power'', ''brightness''}" for k
  proof -
    have k: "is_cstr k" "length k < MAX_PARAM_NAME_LENGTH" using that by (auto simp: MAX_PARAM_NAME_LENGTH_def)
    have t: "LEDA_TYPE_INT \<in> {LEDA_TYPE_INT, LEDA_TYPE_BOOL}" "LEDA_TYPE_BOOL \<in> {LEDA_TYPE_INT, LEDA_TYPE_BOOL}" by simp_all
    show ?thesis
      using lamp_values [OF assms(1)] int_entry_sendable [OF _ k t(1)] int_entry_sendable [OF _ k t(2)] by (auto simp: reading_def)
  qed
  then show ?thesis using assms(2,3) by (auto simp: sendable_inside_def list_all_iff)
qed

text \<open>The lamp remembers what it is told: after a \<open>setProperty\<close> request whose settings were all accepted, the device has the last
  value set for each property (every other device and the connection state are as before), its values are still in
  their ranges, and a \<open>getProperty\<close> request for any of its properties returns exactly these values, in a form that
  the SDK can send.\<close>

theorem settings_read_back:
  assumes "cb_set_property d (Some dn) ps (length ps) = Some (LE_SUCCESS, d')" "device_index (g_devices d) dn = Some i"
    and "lamp_ok (g_devices d ! i)" "set ks \<subseteq> {''power'', ''brightness''}" "length ks < 2 ^ 31"
  shows "g_devices d' = (g_devices d)[i := configured ps (g_devices d ! i)] \<and> g_is_connected d' = g_is_connected d \<and>
     lamp_ok (configured ps (g_devices d ! i)) \<and>
     cb_get_property d' (Some dn) (map asked ks) (length ks) = Some (LE_SUCCESS, map (reading (configured ps (g_devices d ! i))) ks) \<and>
     sendable_inside (map (reading (configured ps (g_devices d ! i))) ks)"
proof -
  define x where "x = configured ps (g_devices d ! i)"
  have set: "g_devices d' = (g_devices d)[i := x]" "lamp_ok x" "g_is_connected d' = g_is_connected d"
    using set_properties_spec [OF assms(1) [unfolded cb_set_property_def] assms(2,3)] by (simp_all add: x_def)
  have i: "i < length (g_devices d)" using device_index_Some [OF assms(2)] by simp
  have "device_index (g_devices d') dn = Some i"
    unfolding set(1) by (rule device_index_update [OF assms(2)]) (simp add: x_def configured_def)
  moreover have "g_devices d' ! i = x" using set(1) i by simp
  ultimately have "cb_get_property d' (Some dn) (map asked ks) (length ks) = Some (LE_SUCCESS, map (reading x) ks)"
    using get_property_spec [of d' dn i ks] set(2) assms(4) by simp
  then show ?thesis using set reading_sendable [OF set(2) assms(4,5)] unfolding x_def by simp
qed

definition one_lamp :: demo where
  "one_lamp = \<lparr>g_devices = [\<lparr>dev_pk = ''a1'', dev_dn = ''lamp'', dev_online = 1, dev_power = 0, dev_brightness = 2\<rparr>],
     g_is_connected = 1, g_online_dev_num = 1\<rparr>"

lemma settings_read_back_witness:
  "\<exists>d'. cb_set_property one_lamp (Some ''lamp'') [\<lparr>dtype = Some LEDA_TYPE_BOOL, dkey = Some ''power'', dvalue = Some ''1''\<rparr>] 1 = Some (LE_SUCCESS, d') \<and>
     cb_get_property d' (Some ''lamp'') [asked ''power''] 1 =
       Some (LE_SUCCESS, [\<lparr>dtype = Some LEDA_TYPE_BOOL, dkey = Some ''power'', dvalue = Some ''1''\<rparr>])"
proof -
  let ?ps = "[\<lparr>dtype = Some LEDA_TYPE_BOOL, dkey = Some ''power'', dvalue = Some ''1''\<rparr>]"
  have one: "atoi ''1'' = 1" "print_int 1 = ''1''"
    using atoi_print_int [of 1] by (simp_all add: print_int_def dec.simps digit_def int_range_def)
  obtain d' where s: "cb_set_property one_lamp (Some ''lamp'') ?ps (length ?ps) = Some (LE_SUCCESS, d')"
    by (simp add: cb_set_property_def set_led_power_def get_device_index_def one_lamp_def one)
  have "device_index (g_devices one_lamp) ''lamp'' = Some 0" "lamp_ok (g_devices one_lamp ! 0)" by (simp_all add: one_lamp_def lamp_ok_def)
  moreover have "reading (configured ?ps (g_devices one_lamp ! 0)) ''power'' = \<lparr>dtype = Some LEDA_TYPE_BOOL, dkey = Some ''power'', dvalue = Some ''1''\<rparr>"
    by (simp add: reading_def configured_def last_set_def one)
  ultimately show ?thesis using settings_read_back [OF s, of 0 "[''power'']"] s by simp
qed

subsection \<open>Going online and offline\<close>

definition online_count :: "device list \<Rightarrow> int" where
  "online_count ds = int (length (filter (\<lambda>x. dev_online x \<noteq> 0) ds))"

lemma online_round_spec:
  assumes "online_round conn rets i ds num = (ds', num')"
  shows "num' - online_count ds' = num - online_count ds"
    and "conn \<Longrightarrow> (\<And>j. rets j = LE_SUCCESS) \<Longrightarrow> list_all (\<lambda>x. dev_online x \<noteq> 0) ds'"
    and "\<not> conn \<Longrightarrow> list_all (\<lambda>x. dev_online x = 0) ds'"
    and "map (\<lambda>x. x\<lparr>dev_online := 0\<rparr>) ds' = map (\<lambda>x. x\<lparr>dev_online := 0\<rparr>) ds"
  using assms
  by (induction ds arbitrary: i num ds' num') (fastforce simp: online_count_def split: prod.splits if_splits)+
text \<open>The demo counts the devices that are online: whatever \<open>leda_online\<close> returns, a round of its thread keeps
  \<open>g_online_dev_num\<close> equal to the number of devices marked as online, brings every device online when all calls succeed
  (with a connection), and takes every device offline without one; it changes nothing else of a device.\<close>

theorem online_devices_counted:
  assumes "g_online_dev_num d = online_count (g_devices d)" "d' = thread_online_round rets d"
  shows "g_online_dev_num d' = online_count (g_devices d') \<and>
     (g_is_connected d \<noteq> 0 \<and> (\<forall>j. rets j = LE_SUCCESS) \<longrightarrow> list_all (\<lambda>x. dev_online x \<noteq> 0) (g_devices d')) \<and>
     (g_is_connected d = 0 \<longrightarrow> list_all (\<lambda>x. dev_online x = 0) (g_devices d')) \<and>
     map (\<lambda>x. x\<lparr>dev_online := 0\<rparr>) (g_devices d') = map (\<lambda>x. x\<lparr>dev_online := 0\<rparr>) (g_devices d)"
proof -
  obtain ds num where r: "online_round (g_is_connected d \<noteq> 0) rets 0 (g_devices d) (g_online_dev_num d) = (ds, num)"
    by (metis surj_pair)
  then have "g_devices d' = ds" "g_online_dev_num d' = num" by (simp_all add: assms(2) thread_online_round_def)
  then show ?thesis using online_round_spec [OF r] assms(1) by simp
qed

lemma online_devices_counted_witness:
  "g_online_dev_num (thread_online_round (\<lambda>_. LE_SUCCESS) (one_lamp\<lparr>g_is_connected := 0\<rparr>)) = 0 \<and>
   list_all (\<lambda>x. dev_online x = 0) (g_devices (thread_online_round (\<lambda>_. LE_SUCCESS) (one_lamp\<lparr>g_is_connected := 0\<rparr>)))"
proof -
  have "g_online_dev_num (one_lamp\<lparr>g_is_connected := 0\<rparr>) = online_count (g_devices (one_lamp\<lparr>g_is_connected := 0\<rparr>))"
    by (simp add: one_lamp_def online_count_def)
  from online_devices_counted [OF this refl, of "\<lambda>_. LE_SUCCESS"] show ?thesis
    by (simp add: online_count_def list_all_iff)
qed

subsection \<open>Loading the list\<close>

text \<open>A line for a device, and the file.\<close>

definition csv_line :: "string \<times> string \<Rightarrow> string" where
  "csv_line x = fst x @ '','' @ snd x @ [CHR 0x0A]"

definition csv_file :: "string \<Rightarrow> (string \<times> string) list \<Rightarrow> string" where
  "csv_file title xs = title @ [CHR 0x0A] @ concat (map csv_line xs)"

definition csv_ok :: "string \<times> string \<Rightarrow> bool" where
  "csv_ok x \<longleftrightarrow> fst x \<noteq> [] \<and> length (fst x) < 32 \<and> list_all (\<lambda>c. name_char c \<and> \<not> is_space c) (fst x) \<and>
     snd x \<noteq> [] \<and> length (snd x) < 16 \<and> list_all (\<lambda>c. \<not> is_space c) (snd x)"

definition new_device :: "string \<times> string \<Rightarrow> device" where
  "new_device x = \<lparr>dev_pk = snd x, dev_dn = fst x, dev_online = 0, dev_power = 0, dev_brightness = 0\<rparr>"

lemma space_newline: "is_space (CHR 0x0A)" "\<not> is_space c \<Longrightarrow> of_char c \<noteq> (10 :: nat)"
  by (auto simp: is_space_def)

lemma drop_newline: "cs = [] \<or> \<not> is_space (hd cs) \<Longrightarrow> dropWhile is_space (CHR 0x0A # cs) = cs"
  using space_newline(1) by (cases cs) auto

lemma count_lines_step:
  assumes "list_all (\<lambda>c. of_char c \<noteq> (10 :: nat)) l" "k + length l < 126"
  shows "count_lines (l @ CHR 0x0A # cs) k = Suc (count_lines cs 0)"
  using assms by (induction l arbitrary: k) simp_all

lemma takeWhile_stop: "list_all P xs \<Longrightarrow> \<not> P c \<Longrightarrow> takeWhile P (xs @ c # cs) = xs \<and> dropWhile P (xs @ c # cs) = c # cs"
  by (induction xs) auto

lemma scan_csv_line:
  assumes "csv_ok x" "cs = [] \<or> \<not> is_space (hd cs)"
  shows "scan_device (csv_line x @ cs) = Some (new_device x, cs)"
proof -
  obtain dn pk where x: "x = (dn, pk)" by (cases x)
  have dn: "list_all name_char dn" "dn \<noteq> []" "length dn < 32" using assms(1) by (auto simp: csv_ok_def x list_all_iff)
  have pk: "list_all (\<lambda>c. \<not> is_space c) pk" "pk \<noteq> []" "length pk < 16" using assms(1) by (auto simp: csv_ok_def x)
  have comma: "\<not> name_char (CHR '','')" by (simp add: name_char_def)
  have line: "csv_line x @ cs = dn @ CHR '','' # pk @ CHR 0x0A # cs" by (simp add: csv_line_def x)
  have "dropWhile is_space (pk @ CHR 0x0A # cs) = pk @ CHR 0x0A # cs" using pk(1,2) by (cases pk) simp_all
  then have "scan_s (pk @ CHR 0x0A # cs) = (pk, CHR 0x0A # cs)"
    using takeWhile_stop [OF pk(1), of "CHR 0x0A" cs] space_newline(1) by (simp add: scan_s_def)
  moreover note drop_newline [OF assms(2)]
  ultimately show ?thesis
    unfolding line using takeWhile_stop [OF dn(1) comma, of "pk @ CHR 0x0A # cs"] dn(2,3) pk(2,3)
    by (simp add: scan_device_def Let_def new_device_def x)
qed

lemma csv_newlines:
  assumes "csv_ok x"
  shows "count_lines (csv_line x @ cs) 0 = Suc (count_lines cs 0)"
proof -
  have "list_all (\<lambda>c. of_char c \<noteq> (10 :: nat)) (fst x @ '','' @ snd x)"
    using assms space_newline(2) by (auto simp: csv_ok_def list_all_iff)
  moreover have "length (fst x @ '','' @ snd x) < 126" using assms by (simp add: csv_ok_def)
  ultimately show ?thesis using count_lines_step [of "fst x @ '','' @ snd x" 0 cs] by (simp add: csv_line_def)
qed

lemma count_csv: "list_all csv_ok xs \<Longrightarrow> count_lines (concat (map csv_line xs)) 0 = length xs"
  by (induction xs) (simp_all add: csv_newlines)

lemma csv_head: "list_all csv_ok xs \<Longrightarrow> concat (map csv_line xs) = [] \<or> \<not> is_space (hd (concat (map csv_line xs)))"
  by (cases xs) (auto simp: csv_ok_def csv_line_def list_all_iff)

lemma scan_csv: "list_all csv_ok xs \<Longrightarrow> scan_devices (length xs) (concat (map csv_line xs)) = Some (map new_device xs)"
proof (induction xs)
  case (Cons x xs)
  have "scan_device (csv_line x @ concat (map csv_line xs)) = Some (new_device x, concat (map csv_line xs))"
    using Cons.prems by (intro scan_csv_line csv_head) simp_all
  then show ?case using Cons by simp
qed simp

lemma load_csv_file:
  assumes "title \<noteq> []" "list_all (\<lambda>c. \<not> is_space c) title" "length title < 126" "list_all csv_ok xs" "xs \<noteq> []" "reliable m"
  shows "load_device_list (Some (csv_file title xs)) m = Some (0, map new_device xs, snd (malloc m))"
proof -
  have "list_all (\<lambda>c. of_char c \<noteq> (10 :: nat)) title" using assms(2) space_newline(2) by (auto simp: list_all_iff)
  then have n: "count_lines (csv_file title xs) 0 = Suc (length xs)"
    using count_lines_step [of title 0] assms(3) count_csv [OF assms(4)] by (simp add: csv_file_def)
  have "dropWhile is_space (csv_file title xs) = csv_file title xs" using assms(1,2) by (cases title) (simp_all add: csv_file_def)
  then have t: "scan_s (csv_file title xs) = (title, CHR 0x0A # concat (map csv_line xs))"
    using takeWhile_stop [OF assms(2), of "CHR 0x0A" "concat (map csv_line xs)"] space_newline(1) by (simp add: scan_s_def csv_file_def)
  have r: "dropWhile is_space (CHR 0x0A # concat (map csv_line xs)) = concat (map csv_line xs)"
    by (rule drop_newline [OF csv_head [OF assms(4)]])
  obtain m1 where "malloc m = (True, m1)" using malloc_split [of m] assms(6) by metis
  then show ?thesis
    using scan_csv [OF assms(4)] assms(3,5) by (simp add: load_device_list_def n t r del: dropWhile.simps)
qed

text \<open>C35: The demo loads the devices that its file lists: for a title line and lines of a device name and a product key that
  fit their arrays (and have no blanks, commas or quotes where \<open>fscanf\<close> would stop), \<open>load_device_list\<close> returns exactly
  these devices, in order and offline, in one block.\<close>

theorem device_list_loaded:
  assumes "title \<noteq> []" "list_all (\<lambda>c. \<not> is_space c) title" "length title < 126" "list_all csv_ok xs" "xs \<noteq> []" "reliable m"
  shows "load_device_list (Some (csv_file title xs)) m = Some (0, map new_device xs, snd (malloc m))"
  by (rule load_csv_file [OF assms])

lemma device_list_loaded_witness:
  "load_device_list (Some (csv_file ''deviceName,productKey'' [(''lamp'', ''a1'')])) always = Some (0, [new_device (''lamp'', ''a1'')], snd (malloc always))"
proof -
  have "list_all (\<lambda>c. \<not> is_space c) ''deviceName,productKey''" "list_all csv_ok [(''lamp'', ''a1'')]"
    by (simp_all add: csv_ok_def is_space_def name_char_def)
  from device_list_loaded [OF _ this(1) _ this(2) _ reliable_always] show ?thesis by simp
qed

end
