(* ===== verification/Leda_Network.thy ===== *)
theory Leda_Network
  imports Leda_Flow
begin

text \<open>
  The network thread in the SDK: whatever the gateway and libwebsockets do and whatever allocations fail, its
  callbacks are defined and keep the state of the client, of the outgoing buffer and of the pool well formed.
\<close>

subsection \<open>What the thread relies on\<close>

text \<open>\<open>n\<close> bytes may still come in before the counter of the current message overflows.\<close>

definition network_ok :: "nat \<Rightarrow> nat \<Rightarrow> leda \<Rightarrow> bool" where
  "network_ok lws_pre n s \<longleftrightarrow>
     wsb_inv lws_pre (out_msgs (client s)) \<and> MAX_MSG_BUF_COUNT \<le> length (slots (out_msgs (client s))) \<and>
     (\<exists>xs. holds_prefix (recv_tmp (client s)) xs \<and> length xs + n + 1 < 2 ^ 64) \<and>
     (case g_threadpool s of Some (Some q) \<Rightarrow> pool_ok q | _ \<Rightarrow> False)"

fun received :: "lws_reason \<Rightarrow> nat" where
  "received (Client_receive is_final x) = length x"
| "received _ = 0"

fun queued :: "leda \<Rightarrow> parsed_msg list" where
  "queued s = (case g_threadpool s of Some (Some q) \<Rightarrow> tasks q | _ \<Rightarrow> [])"

subsection \<open>The buffer\<close>

lemma slot_ok_cleared: "slot_ok p k it \<Longrightarrow> slot_ok p k (it\<lparr>buf_len := 0\<rparr>)"
  by (auto simp: slot_ok_def split: option.splits)

lemma pop_keeps:
  assumes "wsb_inv lws_pre s"
  obtains ret msg ntf s' where "client_buf_mgmt_pop lws_pre cb s = Some (ret, msg, ntf, s')" "wsb_inv lws_pre s'"
    "length (slots s') = length (slots s)"
proof -
  define r it where "r = rdi s mod length (slots s)" and "it = slot_at s 0"
  obtain items where items: "g_ws_buf s = Some items" "items \<noteq> []" "slots s = items"
    "list_all (slot_ok lws_pre (nat (single_buf_size (g_ws_buf_state s)))) items"
    using assms by (rule wsb_invD)
  have r: "r < length items" "it = items ! r" using items by (simp_all add: r_def it_def slot_at_def)
  have ok: "slot_ok lws_pre (nat (single_buf_size (g_ws_buf_state s))) (it\<lparr>buf_len := 0\<rparr>)"
    using items(4) r by (intro slot_ok_cleared) (simp add: list_all_length)
  have moved: "wsb_inv lws_pre (s\<lparr>g_ws_buf_state := (g_ws_buf_state s)\<lparr>rd_index := int r\<rparr>\<rparr>)"
    using assms r(1) items by (auto simp: wsb_inv_def Let_def)
  have sent: "wsb_inv lws_pre \<lparr>g_ws_buf_state = (g_ws_buf_state s)\<lparr>rd_index := int r + 1\<rparr>, g_ws_buf = Some ((slots s)[r := it\<lparr>buf_len := 0\<rparr>])\<rparr>"
    using assms r(1) items ok by (auto simp: wsb_inv_def Let_def list_all_upd)
  show thesis
    using pop_slot [OF assms, of cb] moved sent items that unfolding it_def [symmetric] r_def [symmetric]
    by (auto split: if_splits)
qed

subsection \<open>Fragments\<close>

lemma append_fragment_any:
  assumes "holds_prefix (recv_tmp s) xs" "length xs + length ys + 1 < 2 ^ 64" "length ys < 2 ^ 31"
  obtains t m' zs where "append_fragment ys s m = Some (s\<lparr>recv_tmp := t\<rparr>, m')" "holds_prefix t zs" "length zs \<le> length xs + length ys"
proof -
  define alloc where "alloc = (if appendBuffer (recv_tmp s) = None then malloc m else c_realloc m)"
  note step = recvframe_ok [OF assms alloc_def]
  show thesis
  proof (cases "fst alloc")
    case True
    define t where "t = \<lparr>appendBuffer = Some (map Some (xs @ ys) @ [Some NUL]), totalLen = totalLen (recv_tmp s) + of_nat (length ys)\<rparr>"
    have "append_fragment ys s m = Some (s\<lparr>recv_tmp := t\<rparr>, snd alloc)"
      using step True by (simp add: append_fragment_def t_def size_of_int_of_nat)
    moreover have "holds_prefix t (xs @ ys)" using assms(1,2) by (simp add: holds_prefix_def t_def)
    ultimately show thesis using that [of t "snd alloc" "xs @ ys"] by simp
  next
    case False
    have same: "\<lparr>appendBuffer = appendBuffer t, totalLen = totalLen t\<rparr> = t" for t :: wsc_recv_tmpInfo by (cases t) simp
    have "append_fragment ys s m = Some (s\<lparr>recv_tmp := recv_tmp s\<rparr>, snd alloc)"
      using step False size_of_int_of_nat [of 0] by (simp add: append_fragment_def Let_def same)
    then show thesis using that [of "recv_tmp s" "snd alloc" xs] assms(1) by simp
  qed
qed

lemma text_of_received: "\<exists>t. text_of (map Some zs @ [Some NUL]) = Some t"
proof -
  have "\<exists>n \<le> length zs. strlen_at (map Some zs @ [Some NUL]) = Some n" by (induction zs) auto
  then show ?thesis by (auto simp: text_of_def)
qed

lemma prefix_block: "holds_prefix t zs \<Longrightarrow> appendBuffer t = None \<or> appendBuffer t = Some (map Some zs @ [Some NUL])"
  by (auto simp: holds_prefix_def split: if_splits)

subsection \<open>One callback\<close>

lemma recv_keeps:
  assumes "network_ok lws_pre n s" "block = None \<or> block = Some (map Some zs @ [Some NUL])"
  obtains s' m' where "cb_ws_recv (0, 0, 0) block s m = Some (s', m')" "network_ok lws_pre n s'"
    "client s' = client s" "\<exists>tks. queued s' = queued s @ tks \<and> length tks \<le> 1"
proof (cases block)
  case None
  then show thesis using that [of s m] assms(1) by (simp add: cb_ws_recv_def)
next
  case (Some b)
  then obtain t where t: "text_of b = Some t" using assms(2) text_of_received by auto
  obtain q where q: "g_threadpool s = Some (Some q)" "pool_ok q" using assms(1) by (auto simp: network_ok_def split: option.splits)
  obtain s' m' where r: "cb_ws_recv (0, 0, 0) (Some b) s m = Some (s', m')"
    "s' = s \<or> (\<exists>tk q'. s' = s\<lparr>g_threadpool := Some (Some q')\<rparr> \<and> pool_ok q' \<and> tasks q' = tasks q @ [tk])"
    using recv_queues [OF t q, of m] by (auto split: if_splits)
  from r(2) show thesis
  proof
    assume "s' = s"
    then show thesis using that [of s m'] r(1) assms(1) Some by auto
  next
    assume "\<exists>tk q'. s' = s\<lparr>g_threadpool := Some (Some q')\<rparr> \<and> pool_ok q' \<and> tasks q' = tasks q @ [tk]"
    then show thesis using that [of s' m'] r(1) assms(1) q Some by (auto simp: network_ok_def)
  qed
qed

lemma network_ok_cong:
  assumes "network_ok lws_pre (k + n) s" "recv_tmp (client s') = recv_tmp (client s)" "g_threadpool s' = g_threadpool s"
    and "wsb_inv lws_pre (out_msgs (client s'))" "length (slots (out_msgs (client s'))) = length (slots (out_msgs (client s)))"
  shows "network_ok lws_pre n s'" "\<exists>tks. queued s' = queued s @ tks \<and> length tks \<le> 1"
proof -
  obtain xs where "holds_prefix (recv_tmp (client s)) xs" "length xs + (k + n) + 1 < 2 ^ 64"
    using assms(1) by (auto simp: network_ok_def)
  then have "holds_prefix (recv_tmp (client s')) xs \<and> length xs + n + 1 < 2 ^ 64" using assms(2) by simp
  then have "\<exists>xs. holds_prefix (recv_tmp (client s')) xs \<and> length xs + n + 1 < 2 ^ 64" ..
  then show "network_ok lws_pre n s'" using assms(1,3-5) by (simp add: network_ok_def)
qed (use assms(3) in simp)

lemma conn_run:
  assumes "r \<in> {Client_established, Client_connection_error, Other_reason}"
  shows "\<exists>ev s'. network_callback lws_pre pth r s m = Some (ev, s', m) \<and> out_msgs (client s') = out_msgs (client s) \<and>
     recv_tmp (client s') = recv_tmp (client s) \<and> g_threadpool s' = g_threadpool s"
proof -
  have "dispatch pth (if c then [Estab] else []) s m = Some (if c then fst (cb_ws_estab s) else [], if c then snd (cb_ws_estab s) else s, m)"
    "dispatch pth (if c then [Closed] else []) s m = Some (if c then fst (cb_ws_close s) else [], if c then snd (cb_ws_close s) else s, m)"
    for c s by (simp_all add: split_beta)
  then show ?thesis using assms
    by (auto simp: network_callback_def callback_dumb_increment_def cb_ws_estab_def cb_ws_close_def)
qed

lemma closed_run:
  assumes "buf_mgmt_client_clear_msg (out_msgs (client s)) = Some b"
  shows "\<exists>ev s'. network_callback lws_pre pth Client_closed s m = Some (ev, s', m) \<and> out_msgs (client s') = b \<and>
     recv_tmp (client s') = recv_tmp (client s) \<and> g_threadpool s' = g_threadpool s"
proof -
  have "dispatch pth (if c then [Closed] else []) s m = Some (if c then fst (cb_ws_close s) else [], if c then snd (cb_ws_close s) else s, m)"
    for c s by (simp add: split_beta)
  then show ?thesis using assms by (simp add: network_callback_def callback_dumb_increment_def cb_ws_close_def)
qed

lemma writeable_run:
  assumes "client_buf_mgmt_pop lws_pre (cb_pop_msg write True) (out_msgs (client s)) = Some (ret, msg, ntf, b)"
  shows "\<exists>ev. network_callback lws_pre pth (Client_writeable write) s m = Some (ev, s\<lparr>client := (client s)\<lparr>out_msgs := b\<rparr>\<rparr>, m)"
proof -
  have "\<exists>ev. dispatch pth es s' m = Some (ev, s', m)" if "set es \<subseteq> {Want_write} \<union> {Written x t |x t. True}" for es s'
    using that by (induction es) auto
  then show ?thesis using assms
    by (auto simp: network_callback_def callback_dumb_increment_def notify_network_def split: option.splits)
qed

lemma receive_run:
  assumes "network_ok lws_pre (length x + n) s" "length x < 2 ^ 31"
  obtains s' m' where "network_callback lws_pre (0, 0, 0) (Client_receive is_final x) s m = Some ([], s', m')" "network_ok lws_pre n s'"
    "\<exists>tks. queued s' = queued s @ tks \<and> length tks \<le> 1"
proof -
  obtain xs where xs: "holds_prefix (recv_tmp (client s)) xs" "length xs + (length x + n) + 1 < 2 ^ 64"
    using assms(1) by (auto simp: network_ok_def)
  have len: "length xs + length x + 1 < 2 ^ 64" using xs(2) by simp
  obtain t m1 zs where a: "append_fragment x (client s) m = Some ((client s)\<lparr>recv_tmp := t\<rparr>, m1)" "holds_prefix t zs"
    "length zs \<le> length xs + length x"
    using append_fragment_any [OF xs(1) len assms(2)] .
  define s1 where "s1 = s\<lparr>client := (client s)\<lparr>recv_tmp := t\<rparr>\<rparr>"
  define s2 where "s2 = s\<lparr>client := (client s)\<lparr>recv_tmp := no_fragment\<rparr>\<rparr>"
  have "holds_prefix (recv_tmp (client s1)) zs \<and> length zs + n + 1 < 2 ^ 64" using a(2,3) xs(2) by (simp add: s1_def)
  then have "\<exists>zs. holds_prefix (recv_tmp (client s1)) zs \<and> length zs + n + 1 < 2 ^ 64" ..
  then have s1: "network_ok lws_pre n s1" using assms(1) by (simp add: network_ok_def s1_def)
  have "holds_prefix (recv_tmp (client s2)) [] \<and> length [] + n + 1 < 2 ^ 64" using xs(2) by (simp add: s2_def)
  then have "\<exists>zs. holds_prefix (recv_tmp (client s2)) zs \<and> length zs + n + 1 < 2 ^ 64" ..
  then have s2: "network_ok lws_pre n s2" using assms(1) by (simp add: network_ok_def s2_def)
  show thesis
  proof (cases is_final)
    case False
    then have "network_callback lws_pre (0, 0, 0) (Client_receive is_final x) s m = Some ([], s1, m1)"
      using a(1) by (simp add: network_callback_def callback_dumb_increment_def s1_def)
    then show thesis using that s1 by (simp add: s1_def)
  next
    case True
    define m2 where "m2 = (if appendBuffer t \<noteq> None then c_free 1 m1 else m1)"
    obtain s' m' where r': "cb_ws_recv (0, 0, 0) (appendBuffer t) s2 m2 = Some (s', m')" "network_ok lws_pre n s'"
      "\<exists>tks. queued s' = queued s2 @ tks \<and> length tks \<le> 1"
      using recv_keeps [OF s2 prefix_block [OF a(2)], of m2] by blast
    have run: "network_callback lws_pre (0, 0, 0) (Client_receive is_final x) s m =
        (if has_cb p_cb_recv (client s) then Some ([], s', m') else Some ([], s2, m2))"
      using True a(1) r'(1) by (simp add: network_callback_def callback_dumb_increment_def s2_def m2_def)
    show thesis
    proof (cases "has_cb p_cb_recv (client s)")
      case True
      then show thesis using that run r'(2,3) by (simp add: s2_def)
    next
      case False
      then show thesis using that run s2 by (simp add: s2_def)
    qed
  qed
qed

lemma callback_keeps:
  assumes "network_ok lws_pre (received r + n) s" "\<And>f x. r = Client_receive f x \<Longrightarrow> length x < 2 ^ 31"
  obtains ev s' m' where "network_callback lws_pre (0, 0, 0) r s m = Some (ev, s', m')" "network_ok lws_pre n s'"
    "\<exists>tks. queued s' = queued s @ tks \<and> length tks \<le> 1"
proof -
  note ok = assms(1)
  have inv: "wsb_inv lws_pre (out_msgs (client s))" "MAX_MSG_BUF_COUNT \<le> length (slots (out_msgs (client s)))"
    using ok by (simp_all add: network_ok_def)
  obtain xs where xs: "holds_prefix (recv_tmp (client s)) xs" "length xs + (received r + n) + 1 < 2 ^ 64"
    using ok by (auto simp: network_ok_def)
  show thesis
  proof (cases "r \<in> {Client_established, Client_connection_error, Other_reason}")
    case True
    then obtain ev s' where "network_callback lws_pre (0, 0, 0) r s m = Some (ev, s', m)" "out_msgs (client s') = out_msgs (client s)"
      "recv_tmp (client s') = recv_tmp (client s)" "g_threadpool s' = g_threadpool s"
      using conn_run [OF True, of lws_pre "(0, 0, 0)" s m] by blast
    then show thesis using that network_ok_cong [OF ok] inv by simp
  next
    case other: False
    show thesis
    proof (cases r)
      case Client_closed
      obtain b where b: "buf_mgmt_client_clear_msg (out_msgs (client s)) = Some b" "wsb_inv lws_pre b"
        using clear_keeps_later_slots [OF inv] by blast
      then have "length (slots b) = length (slots (out_msgs (client s)))"
        by (auto simp: buf_mgmt_client_clear_msg_def split: bind_splits if_splits)
      then show thesis using that network_ok_cong [OF ok] closed_run [OF b(1), of lws_pre "(0, 0, 0)" m] b(2) Client_closed by metis
    next
      case (Client_writeable wr)
      obtain ret msg ntf b where b: "client_buf_mgmt_pop lws_pre (cb_pop_msg wr True) (out_msgs (client s)) = Some (ret, msg, ntf, b)"
        "wsb_inv lws_pre b" "length (slots b) = length (slots (out_msgs (client s)))"
        using pop_keeps [OF inv(1)] .
      from writeable_run [OF b(1), of "(0, 0, 0)" m] network_ok_cong [OF ok, of "s\<lparr>client := (client s)\<lparr>out_msgs := b\<rparr>\<rparr>"] b(2,3)
      show thesis using that Client_writeable by auto
    next
      case (Client_receive is_final x)
      have "network_ok lws_pre (length x + n) s" using ok Client_receive by simp
      moreover have "length x < 2 ^ 31" by (rule assms(2) [OF Client_receive])
      ultimately obtain s' m' where "network_callback lws_pre (0, 0, 0) (Client_receive is_final x) s m = Some ([], s', m')" "network_ok lws_pre n s'"
        "\<exists>tks. queued s' = queued s @ tks \<and> length tks \<le> 1"
        by (rule receive_run)
      then show thesis using that unfolding Client_receive by blast
    qed (use other in simp_all)
  qed
qed

text \<open>A run of the thread.\<close>

fun network_run :: "nat \<Rightarrow> lws_reason list \<Rightarrow> leda \<Rightarrow> mem \<Rightarrow> (leda_event list \<times> leda \<times> mem) option" where
  "network_run lws_pre [] s m = Some ([], s, m)"
| "network_run lws_pre (r # rs) s m =
     do { (ev, s1, m1) \<leftarrow> network_callback lws_pre (0, 0, 0) r s m;
          (evs, s2, m2) \<leftarrow> network_run lws_pre rs s1 m1;
          Some (ev @ evs, s2, m2) }"

text \<open>C5: The network thread is safe: whatever sequence of callbacks libwebsockets makes (connections and their ends at any
  time, fragments with any bytes, writes with any result) and whatever allocations fail, every callback is
  defined, so it stays inside its blocks, and afterwards the outgoing buffer, the partial message and the pool
  are well formed again; the queue of the pool only grows, by at most one task for each callback. The only
  bounds are 2 ^ 31 bytes for a fragment and 2 ^ 64 for all of them.\<close>

theorem network_thread_safe:
  assumes "network_ok lws_pre (sum_list (map received rs)) s" "\<forall>f x. Client_receive f x \<in> set rs \<longrightarrow> length x < 2 ^ 31"
  shows "\<exists>ev s' m'. network_run lws_pre rs s m = Some (ev, s', m') \<and> network_ok lws_pre 0 s' \<and>
     (\<exists>tks. queued s' = queued s @ tks \<and> length tks \<le> length rs)"
  using assms
proof (induction rs arbitrary: s m)
  case (Cons r rs)
  have "network_ok lws_pre (received r + sum_list (map received rs)) s" using Cons.prems(1) by simp
  moreover have "\<And>f x. r = Client_receive f x \<Longrightarrow> length x < 2 ^ 31" using Cons.prems(2) by simp
  ultimately obtain ev s1 m1 tks where 1: "network_callback lws_pre (0, 0, 0) r s m = Some (ev, s1, m1)"
    "network_ok lws_pre (sum_list (map received rs)) s1" "queued s1 = queued s @ tks" "length tks \<le> 1"
    using callback_keeps [of lws_pre r "sum_list (map received rs)" s m] by metis
  have "\<forall>f x. Client_receive f x \<in> set rs \<longrightarrow> length x < 2 ^ 31" using Cons.prems(2) by simp
  from Cons.IH [OF 1(2) this, of m1] obtain evs s2 m2 tks2 where 2: "network_run lws_pre rs s1 m1 = Some (evs, s2, m2)" "network_ok lws_pre 0 s2"
    "queued s2 = queued s1 @ tks2" "length tks2 \<le> length rs" by blast
  have "queued s2 = queued s @ (tks @ tks2)" "length (tks @ tks2) \<le> length (r # rs)" using 1(3,4) 2(3,4) by simp_all
  then show ?case using 1(1) 2(1,2) by (simp del: queued.simps)
qed simp


lemma network_thread_safe_witness:
  "\<exists>ev s' m'. network_run 16 [Client_established, Client_receive False ''{'', Client_receive True ''}'', Client_closed]
     (ready_sdk\<lparr>client := (client ready_sdk)\<lparr>out_msgs := ex_nine\<rparr>\<rparr>) never = Some (ev, s', m') \<and> network_ok 16 0 s'"
proof -
  let ?rs = "[Client_established, Client_receive False ''{'', Client_receive True ''}'', Client_closed]"
  let ?s = "ready_sdk\<lparr>client := (client ready_sdk)\<lparr>out_msgs := ex_nine\<rparr>\<rparr>"
  have "wsb_inv 16 ex_nine" "MAX_MSG_BUF_COUNT \<le> length (slots ex_nine)" by code_simp+
  moreover have "recv_tmp (client ready_sdk) = no_fragment" "g_threadpool ready_sdk = Some (Some open_queue)"
    by (simp_all add: ready_sdk_def leda0_def)
  moreover have "holds_prefix no_fragment [] \<and> length [] + sum_list (map received ?rs) + 1 < 2 ^ 64" by simp
  then have "\<exists>xs. holds_prefix no_fragment xs \<and> length xs + sum_list (map received ?rs) + 1 < 2 ^ 64" by blast
  ultimately have "network_ok 16 (sum_list (map received ?rs)) ?s"
    using open_queue_ok(1) by (simp add: network_ok_def)
  moreover have "\<forall>f x. Client_receive f x \<in> set ?rs \<longrightarrow> length x < 2 ^ 31" by auto
  ultimately show ?thesis using network_thread_safe [of 16 ?rs ?s never] by blast
qed
end
