(* ===== verification/Leda_Life.thy ===== *)
theory Leda_Life
  imports Leda_Network
begin

text \<open>
  The life of the SDK: \<open>leda_init\<close>, the connection, \<open>leda_exit\<close>, and the loop of an application that tries until the
  initialisation succeeds. What a start takes, an exit gives back, wherever the start has stopped; what a start
  establishes is what the network thread and the senders rely on.
\<close>

subsection \<open>The strings of the connection\<close>

definition conn_blocks :: "wsc_param_conn \<Rightarrow> nat" where
  "conn_blocks c = length (filter (\<lambda>x. x \<noteq> None) [protocol c, key_path c, cert_path c, ca_path c, url c])"

definition no_strings :: "wsc_param_conn \<Rightarrow> bool" where
  "no_strings c \<longleftrightarrow> protocol c = None \<and> key_path c = None \<and> cert_path c = None \<and> ca_path c = None \<and> url c = None"

lemma copy_text_spec: "copy_text t m = (r, m') \<Longrightarrow> r \<in> {None, Some t} \<and> live m' = live m + (if r = None then 0 else 1)"
  by (cases rule: malloc_split [of m]) (auto simp: copy_text_def)

lemma fill_conn_spec:
  assumes "fill_conn u info c0 m = (ok, c, m')" "no_strings c0"
  shows "live m' = live m + int (conn_blocks c) \<and>
     (ok \<longrightarrow> protocol c = Some CONN_PROTOCOL \<and> url c = Some u \<and> cert_path c = None \<and> key_path c = None)"
  using assms
  by (auto simp: fill_conn_def no_strings_def conn_blocks_def Let_def dest!: copy_text_spec split: prod.splits option.splits if_splits)

lemma free_conn_spec: "free_conn c m = (c', m') \<Longrightarrow> no_strings c' \<and> live m' = live m - int (conn_blocks c)"
  by (auto simp: free_conn_def no_strings_def conn_blocks_def c_free_def)

subsection \<open>The client and the pool\<close>

definition client_blocks :: "wsc \<Rightarrow> int" where
  "client_blocks c = (if g_cbs c = None then 0 else 1) +
     (case g_ws_buf (out_msgs c) of None \<Rightarrow> 0 | Some its \<Rightarrow> 1 + int (length (filter (\<lambda>it. buf it \<noteq> None) its)))"

lemma client_destroy_spec:
  assumes "ws_client_destroy c m = (ret, c', m')"
  shows "live m' = live m - client_blocks c \<and> g_cbs c' = None \<and> g_ws_buf (out_msgs c') = None \<and> recv_tmp c' = recv_tmp c"
  using assms
  by (auto simp: ws_client_destroy_def client_blocks_def client_buf_mgmt_destroy_def c_free_def Let_def split: option.splits prod.splits if_splits)

lemma wsc_init_spec:
  assumes "wsc_init mutex_ret create_ret (Some pc) (Some cb) c m = (ret, c1, m1)" "g_ws_buf (out_msgs c) = None" "g_cbs c = None"
    "lws_pre \<le> 2048"
  shows "live m1 = live m + client_blocks c1 \<and> recv_tmp c1 = recv_tmp c \<and>
     (ret = LE_SUCCESS \<longrightarrow> g_cbs c1 = Some cb \<and> wsb_inv lws_pre (out_msgs c1) \<and> ring_ok (out_msgs c1) \<and>
        used (out_msgs c1) = 0 \<and> pending lws_pre (out_msgs c1) = [] \<and> length (slots (out_msgs c1)) = 1024)"
proof -
  obtain ret' c2 m2 where d: "ws_client_destroy c1 m1 = (ret', c2, m2)" by (metis prod_cases3)
  have "live m2 = live m" using client_init_destroy_balanced [OF assms(1-3) d assms(4)] by simp
  then have "live m1 = live m + client_blocks c1" using client_destroy_spec [OF d] by simp
  moreover have "recv_tmp c1 = recv_tmp c"
    using assms(1) by (auto simp: wsc_init_def Let_def split: prod.splits if_splits)
  moreover have "wsb_inv lws_pre (out_msgs c1) \<and> ring_ok (out_msgs c1) \<and> used (out_msgs c1) = 0 \<and>
      pending lws_pre (out_msgs c1) = [] \<and> length (slots (out_msgs c1)) = 1024 \<and> g_cbs c1 = Some cb" if "ret = LE_SUCCESS"
  proof -
    note ok = that
    obtain mb m3 where i: "client_buf_mgmt_init mutex_ret 2048 1024 (out_msgs c) mb = (LE_SUCCESS, out_msgs c1, m3)" "g_cbs c1 = Some cb"
      using assms(1) ok by (auto simp: wsc_init_def le_error_defs Let_def split: prod.splits if_splits option.splits)
    show ?thesis using init_inv [OF i(1) assms(2), of lws_pre] assms(4) i(2) by simp
  qed
  ultimately show ?thesis by blast
qed

text \<open>What the workers do until they are joined: they leave.\<close>

definition drains :: "('a pool \<Rightarrow> 'a pool) \<Rightarrow> bool" where
  "drains others \<longleftrightarrow> (\<forall>p. started (others p) \<le> 0 \<and> threads (others p) = threads p \<and> (queue (others p) = None \<longleftrightarrow> queue p = None))"

lemma pool_destroy_spec:
  assumes "pool_ok p" "threads p" "shutdown p = 0" "drains others"
  shows "\<exists>m'. threadpool_destroy 0 0 (\<lambda>_. 0) others (Some p) True m = (0, None, m') \<and> live m' = live m - 3"
proof -
  have "queue p \<noteq> None" using assms(1) by (auto simp: pool_ok_def split: option.splits)
  moreover have "started (others (p\<lparr>shutdown := graceful_shutdown\<rparr>)) \<le> 0" "threads (others (p\<lparr>shutdown := graceful_shutdown\<rparr>))"
    "queue (others (p\<lparr>shutdown := graceful_shutdown\<rparr>)) = None \<longleftrightarrow> queue p = None"
    using assms(2,4) by (simp_all add: drains_def)
  ultimately show ?thesis
    using assms(3) by (simp add: threadpool_destroy_def destroy_section_def join_workers_def threadpool_free_def list_all_iff c_free_def)
qed

subsection \<open>What the SDK owns\<close>

definition at_rest :: "leda \<Rightarrow> bool" where
  "at_rest s \<longleftrightarrow> g_has_init s = 0 \<and> g_cbs (client s) = None \<and> g_ws_buf (out_msgs (client s)) = None \<and> no_strings (g_wsc_conn s)"

definition owned :: "leda \<Rightarrow> int" where
  "owned s = (case g_threadpool s of Some (Some p) \<Rightarrow> 3 | _ \<Rightarrow> 0) + client_blocks (client s) + int (conn_blocks (g_wsc_conn s))"

definition exit_ready :: "leda \<Rightarrow> bool" where
  "exit_ready s \<longleftrightarrow> g_threadpool s = None \<or> (\<exists>p. g_threadpool s = Some (Some p) \<and> pool_ok p \<and> threads p \<and> shutdown p = 0)"

text \<open>The one pattern of failures in which \<open>threadpool_create\<close> leaks its queue: only the array of threads is refused.\<close>

definition queue_leaks :: "mem \<Rightarrow> bool" where
  "queue_leaks m \<longleftrightarrow> orc m (calls m) \<and> \<not> orc m (calls m + 1) \<and> orc m (calls m + 2)"

definition started_up :: "nat \<Rightarrow> leda_conn_info \<Rightarrow> leda \<Rightarrow> bool" where
  "started_up lws_pre info s \<longleftrightarrow>
     (\<exists>p. g_threadpool s = Some (Some p) \<and> pool_ok p \<and> tasks p = [] \<and> shutdown p = 0 \<and> started p = 5 \<and> queue_size p = 5120) \<and>
     g_cbs (client s) = Some leda_cbs \<and> wsb_inv lws_pre (out_msgs (client s)) \<and> ring_ok (out_msgs (client s)) \<and>
     used (out_msgs (client s)) = 0 \<and> length (slots (out_msgs (client s))) = 1024 \<and> outbox lws_pre s = [] \<and>
     g_conn_cb s = ws_conn_cb info \<and> g_devs_cb s = conn_devices_cb info \<and>
     (\<exists>ip. server_ip info = Some ip \<and> url (g_param_conn s) =
        Some (snprintf_s 64 ((if use_tls info = 0 then ''ws://'' else ''wss://'') @ ip @ '':'' @ print_int (uint (server_port info)))))"

lemma client_at_rest: "g_cbs c = None \<Longrightarrow> g_ws_buf (out_msgs c) = None \<Longrightarrow> client_blocks c = 0"
  by (simp add: client_blocks_def)

lemma conn_at_rest: "no_strings c \<Longrightarrow> conn_blocks c = 0"
  by (simp add: no_strings_def conn_blocks_def)

lemma start_client_spec:
  assumes "start_client ws_rets (adopt_conn c info s) m = (ret, s1, m1)" "g_cbs (client s) = None" "g_ws_buf (out_msgs (client s)) = None"
    "lws_pre \<le> 2048" "url c = Some u"
  shows "live m1 = live m + client_blocks (client s1) \<and> g_threadpool s1 = g_threadpool s \<and> g_wsc_conn s1 = c \<and> g_has_init s1 = g_has_init s \<and>
     replies_st s1 = replies_st s \<and> recv_tmp (client s1) = recv_tmp (client s) \<and> g_conn_cb s1 = ws_conn_cb info \<and>
     g_devs_cb s1 = conn_devices_cb info \<and> url (g_param_conn s1) = Some u \<and>
     (ret = LE_SUCCESS \<longrightarrow> g_cbs (client s1) = Some leda_cbs \<and> wsb_inv lws_pre (out_msgs (client s1)) \<and> ring_ok (out_msgs (client s1)) \<and>
        used (out_msgs (client s1)) = 0 \<and> outbox lws_pre s1 = [] \<and> length (slots (out_msgs (client s1))) = 1024)"
proof -
  obtain w where w: "wsc_init (fst ws_rets) (snd ws_rets) (Some (c\<lparr>cert_path := None, key_path := None\<rparr>)) (Some leda_cbs) (client s) m = (ret, w, m1)"
    "s1 = (adopt_conn c info s)\<lparr>client := w\<rparr>"
    using assms(1) by (auto simp: start_client_def adopt_conn_def split: prod.splits)
  from wsc_init_spec [OF w(1) assms(3,2,4)] show ?thesis using w(2) assms(5) by (simp add: adopt_conn_def)
qed

text \<open>What an initialisation leaves, on every branch.\<close>

lemma leda_init_spec:
  assumes "leda_init pool_rets inet_ok ws_rets info s m = (ret, s1, m1)" "at_rest s" "lws_pre \<le> 2048"
  shows "exit_ready s1 \<and> replies_st s1 = replies_st s \<and> recv_tmp (client s1) = recv_tmp (client s) \<and>
     g_has_init s1 = (if ret = LE_SUCCESS then 1 else 0) \<and> (ret = LE_SUCCESS \<longrightarrow> started_up lws_pre info s1) \<and>
     (live m1 = live m + owned s1 \<or> queue_leaks m \<and> ret \<noteq> LE_SUCCESS \<and> live m1 = live m + owned s1 + 1)"
proof -
  have rest: "g_has_init s = 0" "g_cbs (client s) = None" "g_ws_buf (out_msgs (client s)) = None" "no_strings (g_wsc_conn s)"
    using assms(2) by (simp_all add: at_rest_def)
  obtain pool :: "parsed_msg pool option" and mp where pool: "threadpool_create (fst pool_rets) (fst (snd pool_rets)) (snd (snd pool_rets)) 5 (5 * 1024) m = (pool, mp)"
    by (metis surj_pair)
  note create = create_spec [OF pool]
  define sp where "sp = s\<lparr>g_threadpool := map_option Some pool\<rparr>"
  show ?thesis
  proof (cases pool)
    case None
    then have "ret = LE_ERROR_ALLOCATING_MEM" "s1 = sp" "m1 = mp"
      using assms(1) pool rest(1) by (simp_all add: leda_init_def sp_def)
    then show ?thesis
      using None create rest by (auto simp: sp_def exit_ready_def owned_def queue_leaks_def client_at_rest conn_at_rest le_error_defs)
  next
    case (Some p)
    have p: "pool_ok p" "tasks p = []" "shutdown p = 0" "started p = 5" "queue_size p = 5120" "threads p" "live mp = live m + 3"
      using create Some by auto
    have sp: "g_threadpool sp = Some (Some p)" "g_has_init sp = 0" "g_cbs (client sp) = None" "g_ws_buf (out_msgs (client sp)) = None"
      "no_strings (g_wsc_conn sp)" "replies_st sp = replies_st s" "recv_tmp (client sp) = recv_tmp (client s)"
      using Some rest by (simp_all add: sp_def)
    define refused where "refused \<longleftrightarrow> (case server_ip info of None \<Rightarrow> True | Some ip \<Rightarrow> \<not> inet_ok ip) \<or>
      65535 < uint (server_port info) \<or> use_tls info \<noteq> 0 \<and> use_tls info \<noteq> 1"
    show ?thesis
    proof (cases refused)
      case True
      have "leda_init pool_rets inet_ok ws_rets info s m = (LE_ERROR_INVAILD_PARAM, sp, mp)"
        using True pool rest(1) Some unfolding leda_init_def Let_def by (simp add: sp_def refused_def split: option.split_asm) blast+
      then have "ret = LE_ERROR_INVAILD_PARAM" "s1 = sp" "m1 = mp" using assms(1) by simp_all
      then show ?thesis using sp p by (auto simp: exit_ready_def owned_def client_at_rest conn_at_rest le_error_defs)
    next
      case False
      then obtain ip where ip: "server_ip info = Some ip" by (cases "server_ip info") (auto simp: refused_def)
      define u where "u = snprintf_s 64 ((if use_tls info = 0 then ''ws://'' else ''wss://'') @ ip @ '':'' @ print_int (uint (server_port info)))"
      obtain ok c m2 where fill: "fill_conn u info (g_wsc_conn sp) mp = (ok, c, m2)" by (metis prod_cases3)
      note conn = fill_conn_spec [OF fill sp(5)]
      have go: "leda_init pool_rets inet_ok ws_rets info s m =
          (if \<not> ok then (let (c', m3) = free_conn c m2 in (LE_ERROR_ALLOCATING_MEM, sp\<lparr>g_wsc_conn := c'\<rparr>, m3))
           else (let (ret, s3, m3) = start_client ws_rets (adopt_conn c info sp) m2 in
                 if ret \<noteq> 0 then (ret, s3, m3) else (LE_SUCCESS, s3\<lparr>g_has_init := 1\<rparr>, m3)))"
        using False ip pool rest(1) Some fill by (auto simp: leda_init_def refused_def sp_def u_def Let_def)
      show ?thesis
      proof (cases ok)
        case False
        obtain c' m3 where f: "free_conn c m2 = (c', m3)" by (metis surj_pair)
        then have "ret = LE_ERROR_ALLOCATING_MEM" "s1 = sp\<lparr>g_wsc_conn := c'\<rparr>" "m1 = m3" using assms(1) go False by simp_all
        then show ?thesis
          using free_conn_spec [OF f] conn sp p by (auto simp: exit_ready_def owned_def client_at_rest conn_at_rest le_error_defs)
      next
        case True
        obtain r s3 where cl: "start_client ws_rets (adopt_conn c info sp) m2 = (r, s3, m1)"
          "ret = r" "s1 = (if r = LE_SUCCESS then s3\<lparr>g_has_init := 1\<rparr> else s3)"
          using assms(1) go True by (auto simp: le_error_defs split: prod.splits if_splits)
        have u: "url c = Some u" using conn True by simp
        from start_client_spec [OF cl(1) sp(3,4) assms(3) u] show ?thesis
          using cl(2,3) sp p conn ip by (auto simp: exit_ready_def owned_def started_up_def u_def le_error_defs)
      qed
    qed
  qed
qed

lemma leda_exit_spec:
  assumes "exit_ready s" "drains others"
  shows "\<exists>s' m'. leda_exit (0, 0, \<lambda>_. 0) others s m = Some (s', m') \<and> at_rest s' \<and> live m' = live m - owned s \<and>
     replies_st s' = replies_st s \<and> recv_tmp (client s') = recv_tmp (client s) \<and> g_conn_state s' = - 1"
proof -
  have finish: "\<exists>s' m'. (let (_, w, m2) = ws_client_destroy (client s1) m1; (c, m3) = free_conn (g_wsc_conn s1) m2 in
      Some (s1\<lparr>client := w, g_has_init := 0, g_conn_state := - 1, g_msg_id := 0, g_wsc_conn := c, g_param_conn := pc c\<rparr>, m3)) = Some (s', m') \<and>
     at_rest s' \<and> live m' = live m1 - client_blocks (client s1) - int (conn_blocks (g_wsc_conn s1)) \<and>
     replies_st s' = replies_st s1 \<and> recv_tmp (client s') = recv_tmp (client s1) \<and> g_conn_state s' = - 1" for s1 m1 pc
  proof -
    obtain r w m2 where d: "ws_client_destroy (client s1) m1 = (r, w, m2)" by (metis prod_cases3)
    obtain c m3 where f: "free_conn (g_wsc_conn s1) m2 = (c, m3)" by (metis surj_pair)
    show ?thesis using client_destroy_spec [OF d] free_conn_spec [OF f] d f by (simp add: at_rest_def)
  qed
  show ?thesis
  proof (cases "g_threadpool s")
    case None
    then show ?thesis using finish [of s m] by (simp add: leda_exit_def owned_def diff_diff_eq)
  next
    case (Some q)
    then obtain p where p: "g_threadpool s = Some (Some p)" "pool_ok p" "threads p" "shutdown p = 0" using assms(1) by (auto simp: exit_ready_def)
    from pool_destroy_spec [OF p(2-4) assms(2), of m] obtain m' where
      "threadpool_destroy 0 0 (\<lambda>_. 0) others (Some p) True m = (0, None, m')" "live m' = live m - 3" by blast
    then show ?thesis using finish [of "s\<lparr>g_threadpool := Some None\<rparr>" m'] p(1) by (simp add: leda_exit_def owned_def diff_diff_eq)
  qed
qed

subsection \<open>Properties\<close>

text \<open>C11: An exit gives back what the initialisation took: whatever the initialisation of an SDK at rest has returned, wherever it was
  stopped by its arguments, by failed allocations or by the system, \<open>leda_exit\<close> is defined and leaves an SDK at
  rest again, with every block freed; the one exception is an allocation pattern in which \<open>threadpool_create\<close> itself
  loses the block of its queue.\<close>

theorem init_exit_balanced:
  assumes "at_rest s" "leda_init pool_rets inet_ok ws_rets info s m = (ret, s1, m1)" "drains others"
  shows "\<exists>s2 m2. leda_exit (0, 0, \<lambda>_. 0) others s1 m1 = Some (s2, m2) \<and> at_rest s2 \<and>
     (live m2 = live m \<or> queue_leaks m \<and> ret \<noteq> LE_SUCCESS \<and> live m2 = live m + 1)"
  using leda_init_spec [OF assms(2,1), of 0] leda_exit_spec [OF _ assms(3), of s1 m1] by auto

lemma leda0_at_rest: "at_rest leda0"
  by (simp add: at_rest_def leda0_def no_conn_def no_strings_def wsbuf0_def)

lemma drains_stop: "drains (\<lambda>p. p\<lparr>started := 0\<rparr>)"
  by (simp add: drains_def)

lemma init_exit_balanced_witness:
  "\<exists>s2 m2. leda_exit (0, 0, \<lambda>_. 0) (\<lambda>p. p\<lparr>started := 0\<rparr>) (fst (snd (leda_init (0, 0, \<lambda>_. 0) (\<lambda>_. False) (0, 0) bad_info leda0 always)))
      (snd (snd (leda_init (0, 0, \<lambda>_. 0) (\<lambda>_. False) (0, 0) bad_info leda0 always))) = Some (s2, m2) \<and> at_rest s2 \<and> live m2 = 0"
proof -
  obtain ret s1 m1 where i: "leda_init (0, 0, \<lambda>_. 0) (\<lambda>_. False) (0, 0) bad_info leda0 always = (ret, s1, m1)" by (metis prod_cases3)
  have "\<not> queue_leaks always" "live always = 0" by (simp_all add: queue_leaks_def always_def)
  then show ?thesis using init_exit_balanced [OF leda0_at_rest i drains_stop] i by simp
qed

text \<open>C10: A start that succeeds makes the SDK ready: the pool runs with five workers and an empty queue of 5120 slots, the buffer of
  outgoing messages has 1024 free slots, the callbacks of the application are in place, and the client connects to
  the URL of the configured gateway. This is all the network thread relies on; and once it has reported the connection, the application
  has been told, and everything a request relies on to be answered holds.\<close>

theorem init_makes_ready:
  assumes "at_rest s" "leda_init pool_rets inet_ok ws_rets info s m = (LE_SUCCESS, s1, m1)" "lws_pre \<le> 2048"
    and "holds_table (replies_st s) tb" "recv_tmp (client s) = no_fragment" "n < 2 ^ 63"
  shows "g_has_init s1 = 1 \<and> started_up lws_pre info s1 \<and> network_ok lws_pre n s1 \<and>
     (\<exists>s2. network_callback lws_pre pth Client_established s1 m1 =
        Some (case ws_conn_cb info of None \<Rightarrow> [] | Some u \<Rightarrow> [Conn_state_change LEDA_WS_CONNECTED u], s2, m1) \<and>
        sdk_ready lws_pre s2 tb \<and> network_ok lws_pre n s2)"
proof -
  note spec = leda_init_spec [OF assms(2,1,3)]
  then obtain p where up: "started_up lws_pre info s1" "g_has_init s1 = 1" "replies_st s1 = replies_st s" "recv_tmp (client s1) = no_fragment"
    "g_threadpool s1 = Some (Some p)" "pool_ok p" "tasks p = []" "shutdown p = 0"
    using assms(5) by (auto simp: started_up_def)
  have c: "g_cbs (client s1) = Some leda_cbs" "wsb_inv lws_pre (out_msgs (client s1))" "ring_ok (out_msgs (client s1))"
    "used (out_msgs (client s1)) = 0" "length (slots (out_msgs (client s1))) = 1024" "g_conn_cb s1 = ws_conn_cb info"
    using up(1) by (simp_all add: started_up_def)
  define s2 where "s2 = s1\<lparr>g_conn_state := LEDA_WS_CONNECTED\<rparr>"
  have net: "network_ok lws_pre n s1"
    using c(2,5) up(4-6) assms(6) by (auto simp: network_ok_def no_fragment_def MAX_MSG_BUF_COUNT_def holds_prefix_def)
  have "network_callback lws_pre pth Client_established s1 m1 =
      Some (case ws_conn_cb info of None \<Rightarrow> [] | Some u \<Rightarrow> [Conn_state_change LEDA_WS_CONNECTED u], s2, m1)"
    using c(1,6) by (simp add: network_callback_def callback_dumb_increment_def leda_cbs_def cb_ws_estab_def s2_def split: option.split)
  moreover have "sdk_ready lws_pre s2 tb"
    using c up assms(4) by (simp add: sdk_ready_def client_ready_def s2_def)
  moreover have "network_ok lws_pre n s2" using net by (simp add: network_ok_def s2_def)
  ultimately show ?thesis using up(1,2) net by blast
qed

definition good_info :: leda_conn_info where
  "good_info = bad_info\<lparr>server_ip := Some ''127.0.0.1'', ws_conn_cb := Some No_data\<rparr>"

text \<open>Such a start succeeds when nothing fails.\<close>

lemma fill_conn_reliable: "reliable m \<Longrightarrow> \<exists>c m'. fill_conn u info c0 m = (True, c, m') \<and> reliable m'"
  by (auto simp: fill_conn_def copy_text_def malloc_def reliable_def Let_def split: option.split)

lemma create_reliable:
  assumes "reliable m"
  shows "\<exists>p m'. (threadpool_create 0 0 (\<lambda>_. 0) 5 (5 * 1024) m :: 'a pool option \<times> mem) = (Some p, m') \<and> reliable m'"
  using assms by (auto simp: threadpool_create_def MAX_THREADS_def MAX_QUEUE_def malloc_def reliable_def eval_nat_numeral Let_def)

lemma wsc_init_reliable:
  assumes "reliable m" "url pc \<noteq> None" "g_ws_buf (out_msgs c) = None"
  shows "\<exists>c1 m1. wsc_init 0 0 (Some pc) (Some cb) c m = (LE_SUCCESS, c1, m1)"
proof -
  obtain mm where mm: "malloc m = (True, mm)" "reliable mm" using assms(1) by (auto simp: malloc_def reliable_def)
  obtain r b m2 where i: "client_buf_mgmt_init 0 (1024 * 2) 1024 (out_msgs c) mm = (r, b, m2)" by (metis prod_cases3)
  then have "r = LE_SUCCESS" using init_spec [OF i assms(3)] mm(2) by auto
  then show ?thesis using assms(2) mm(1) i by (auto simp: wsc_init_def)
qed

lemma leda_init_succeeds:
  assumes "at_rest s" "reliable m" "server_ip info = Some ip" "inet_ok ip" "use_tls info = 0 \<or> use_tls info = 1"
  shows "\<exists>s1 m1. leda_init (0, 0, \<lambda>_. 0) inet_ok (0, 0) info s m = (LE_SUCCESS, s1, m1)"
proof -
  have rest: "g_has_init s = 0" "g_ws_buf (out_msgs (client s)) = None" "no_strings (g_wsc_conn s)" using assms(1) by (simp_all add: at_rest_def)
  obtain p :: "parsed_msg pool" and mp where pool: "threadpool_create 0 0 (\<lambda>_. 0) 5 (5 * 1024) m = (Some p, mp)" "reliable mp"
    using create_reliable [OF assms(2)] by blast
  define sp where "sp = s\<lparr>g_threadpool := Some (Some p)\<rparr>"
  define u where "u = snprintf_s 64 ((if use_tls info = 0 then ''ws://'' else ''wss://'') @ ip @ '':'' @ print_int (uint (server_port info)))"
  obtain c m2 where fill: "fill_conn u info (g_wsc_conn sp) mp = (True, c, m2)" "reliable m2" using fill_conn_reliable [OF pool(2)] by blast
  have sp: "no_strings (g_wsc_conn sp)" "g_ws_buf (out_msgs (client sp)) = None" using rest by (simp_all add: sp_def)
  have "url c \<noteq> None" using fill_conn_spec [OF fill(1) sp(1)] by simp
  then obtain w m3 where w: "start_client (0, 0) (adopt_conn c info sp) m2 = (LE_SUCCESS, (adopt_conn c info sp)\<lparr>client := w\<rparr>, m3)"
    using wsc_init_reliable [OF fill(2), of "g_param_conn (adopt_conn c info sp)" "client sp" leda_cbs] sp(2)
    by (auto simp: start_client_def adopt_conn_def)
  have "\<not> 65535 < uint (server_port info)" using uint_lt2p [of "server_port info"] by simp
  then have "leda_init (0, 0, \<lambda>_. 0) inet_ok (0, 0) info s m =
      (let (ret, s3, m3) = start_client (0, 0) (adopt_conn c info sp) m2 in
       if ret \<noteq> 0 then (ret, s3, m3) else (LE_SUCCESS, s3\<lparr>g_has_init := 1\<rparr>, m3))"
    using rest(1) pool(1) assms(3-5) fill(1) by (auto simp: leda_init_def sp_def u_def Let_def)
  then show ?thesis using w by (simp add: le_error_defs)
qed

lemma init_makes_ready_witness:
  "\<exists>s1 s2 m1. leda_init (0, 0, \<lambda>_. 0) (\<lambda>ip. ip = ''127.0.0.1'') (0, 0) good_info leda0 always = (LE_SUCCESS, s1, m1) \<and>
     network_callback 16 (0, 0, 0) Client_established s1 m1 = Some ([Conn_state_change LEDA_WS_CONNECTED No_data], s2, m1) \<and>
     sdk_ready 16 s2 []"
proof -
  have info: "server_ip good_info = Some ''127.0.0.1''" "use_tls good_info = 0" "ws_conn_cb good_info = Some No_data"
    by (simp_all add: good_info_def bad_info_def)
  obtain s1 m1 where i: "leda_init (0, 0, \<lambda>_. 0) (\<lambda>ip. ip = ''127.0.0.1'') (0, 0) good_info leda0 always = (LE_SUCCESS, s1, m1)"
    using leda_init_succeeds [OF leda0_at_rest reliable_always info(1), of "\<lambda>ip. ip = ''127.0.0.1''", OF refl disjI1, OF info(2)] by metis
  have l: "(16 :: nat) \<le> 2048" "(0 :: nat) < 2 ^ 63" "holds_table (replies_st leda0) []" "recv_tmp (client leda0) = no_fragment"
    using holds_no_replies by (simp_all add: leda0_def)
  from init_makes_ready [OF leda0_at_rest i l(1,3,4,2), of "(0, 0, 0)", unfolded info(3) option.case] i show ?thesis by blast
qed

end
