(* ===== verification/Demo_Start.thy ===== *)
theory Demo_Start
  imports Demo Leda_Life
begin

text \<open>
  The start and the end of the demo application (\<open>main\<close> in \<open>demo/linux/demo.c\<close>): its arguments, the configuration it gives to the
  SDK, and the loop that calls \<open>leda_init\<close> until it succeeds and \<open>leda_exit\<close> after each failure.
\<close>

subsection \<open>The configuration\<close>

definition PATH_MAX :: nat where "PATH_MAX = 4096"

definition ca_file :: string where "ca_file = ''/../cert/CA.cer''"

text \<open>\<open>argv\<close> has three or four elements; \<open>cwd\<close> is what \<open>getcwd\<close> writes, nothing when it fails. \<open>None\<close>: \<open>strcat\<close> writes
  beyond \<open>ca_path\<close>.\<close>

definition demo_conn :: "string list \<Rightarrow> string \<Rightarrow> demo \<Rightarrow> leda_conn_info option" where
  "demo_conn argv cwd d =
     (let tls = (length argv = 4 \<and> atoi (argv ! 3) = 1) in
      if tls \<and> PATH_MAX \<le> length (cwd @ ca_file) then None
      else Some \<lparr>server_ip = Some (argv ! 1), server_port = word_of_int (atoi (argv ! 2)), use_tls = (if tls then 1 else 0),
             info_ca_path = (if tls then Some (cwd @ ca_file) else None), info_timeout = 20 * 60,
             ws_conn_cb = Some No_data, conn_devices_cb = demo_cbs d\<rparr>)"

subsection \<open>The start\<close>

text \<open>What one attempt meets: the results of pthread for the pool, \<open>inet_aton\<close>, the results of pthread for the client, and what the
  workers do until the exit has joined them.\<close>

type_synonym attempt = "(int \<times> int \<times> (nat \<Rightarrow> int)) \<times> (string \<Rightarrow> bool) \<times> (int \<times> int) \<times> (parsed_msg pool \<Rightarrow> parsed_msg pool)"

text \<open>The loop along a list of attempts; \<open>False\<close>: it is still going on.\<close>

fun start_loop :: "attempt list \<Rightarrow> leda_conn_info \<Rightarrow> leda \<Rightarrow> mem \<Rightarrow> (bool \<times> leda \<times> mem) option" where
  "start_loop [] info s m = Some (False, s, m)"
| "start_loop ((pool_rets, inet_ok, ws_rets, others) # as) info s m =
     (let (ret, s1, m1) = leda_init pool_rets inet_ok ws_rets info s m in
      if ret = LE_SUCCESS then Some (True, s1, m1)
      else do { (s2, m2) \<leftarrow> leda_exit (0, 0, \<lambda>_. 0) others s1 m1; start_loop as info s2 m2 })"

datatype demo_status = Exits int | Retrying | Serving

definition fresh_demo :: "device list \<Rightarrow> demo" where
  "fresh_demo ds = \<lparr>g_devices = ds, g_is_connected = 0, g_online_dev_num = 0\<rparr>"

text \<open>\<open>main\<close> up to the creation of its threads.\<close>

definition demo_start ::
    "string list \<Rightarrow> string option \<Rightarrow> string \<Rightarrow> attempt list \<Rightarrow> leda \<Rightarrow> mem \<Rightarrow> (demo_status \<times> device list \<times> leda \<times> mem) option" where
  "demo_start argv file cwd as s m =
     (if length argv < 3 \<or> 4 < length argv then Some (Exits (- 1), [], s, m)
      else do { (r, ds, m1) \<leftarrow> load_device_list file m;
                if r \<noteq> 0 then Some (Exits (- 1), ds, s, m1)
                else do { info \<leftarrow> demo_conn argv cwd (fresh_demo ds);
                          (ok, s2, m2) \<leftarrow> start_loop as info s m1;
                          Some (if ok then Serving else Retrying, ds, s2, m2) } })"

text \<open>The first interrupt clears \<open>g_is_running\<close>, the second ends the process (\<open>None\<close>).\<close>

definition sigint_handler :: "int \<Rightarrow> int option" where
  "sigint_handler g_is_running = (if g_is_running = 0 then None else Some 0)"

text \<open>Behind the loop: the devices go offline (\<open>rets i\<close> is what \<open>leda_offline\<close> returns), the SDK exits, the list is freed.\<close>

definition demo_end :: "(nat \<Rightarrow> int) \<Rightarrow> (parsed_msg pool \<Rightarrow> parsed_msg pool) \<Rightarrow> demo \<Rightarrow> leda \<Rightarrow> mem \<Rightarrow> (device list \<times> leda \<times> mem) option" where
  "demo_end rets others d s m =
     do { (s1, m1) \<leftarrow> leda_exit (0, 0, \<lambda>_. 0) others s m;
          Some (offline_all (g_is_connected d \<noteq> 0) rets 0 (g_devices d), s1, unload_device_list (Some (g_devices d)) m1) }"

subsection \<open>Properties\<close>

lemma start_loop_spec:
  assumes "at_rest s" "\<forall>(p, i, w, others)\<in>set as. drains others" "lws_pre \<le> 2048"
  shows "\<exists>ok s' m'. start_loop as info s m = Some (ok, s', m') \<and> (if ok then started_up lws_pre info s' \<and> exit_ready s' else at_rest s') \<and>
     (\<exists>k\<le>length as. live m' = live m + (if ok then owned s' else 0) + int k)"
  using assms(1,2)
proof (induction as arbitrary: s m)
  case Nil
  then show ?case by (intro exI [of _ False] exI [of _ s] exI [of _ m]) simp
next
  case (Cons a as)
  obtain p i w others where a: "a = (p, i, w, others)" by (metis prod_cases4)
  then have d: "drains others" "\<forall>(p, i, w, others)\<in>set as. drains others" using Cons.prems(2) by auto
  obtain ret s1 m1 where init: "leda_init p i w info s m = (ret, s1, m1)" by (metis prod_cases3)
  note spec = leda_init_spec [OF init Cons.prems(1) assms(3)]
  show ?case
  proof (cases "ret = LE_SUCCESS")
    case True
    then show ?thesis using a init spec by auto
  next
    case False
    obtain s2 m2 where ex: "leda_exit (0, 0, \<lambda>_. 0) others s1 m1 = Some (s2, m2)" "at_rest s2" "live m2 = live m1 - owned s1"
      using leda_exit_spec [OF conjunct1 [OF spec] d(1), of m1] by blast
    obtain j :: nat where j: "j \<le> 1" "live m2 = live m + int j" using that [of 0] that [of 1] spec ex(3) by auto
    obtain ok s' m' k where rest: "start_loop as info s2 m2 = Some (ok, s', m')" "if ok then started_up lws_pre info s' \<and> exit_ready s' else at_rest s'"
      "k \<le> length as" "live m' = live m2 + (if ok then owned s' else 0) + int k"
      using Cons.IH [OF ex(2) d(2), of m2] by blast
    have "start_loop (a # as) info s m = Some (ok, s', m')" using a init False ex(1) rest(1) by simp
    moreover have "live m' = live m + (if ok then owned s' else 0) + int (j + k)" "j + k \<le> length (a # as)" using rest(3,4) j by simp_all
    ultimately show ?thesis using rest(2) by blast
  qed
qed

text \<open>C36: The demo starts: for three or four arguments, a list of devices that can be read, and a working directory whose path leaves room for the name of
  the certificate, the start of \<open>main\<close> is defined however many attempts it takes and wherever they fail; every failed
  attempt is undone (up to the block that a failing \<open>threadpool_create\<close> may lose), and when one succeeds the
  SDK is started with the address of the command line and the callbacks of the demo. If nothing fails, the first one does.\<close>

theorem demo_starts:
  assumes "length argv = 3 \<or> length argv = 4" "load_device_list file m = Some (0, ds, m0)" "length cwd + 15 < PATH_MAX"
    and "at_rest s" "\<forall>(p, i, w, others)\<in>set as. drains others" "lws_pre \<le> 2048"
  shows "\<exists>st s' m' info. demo_start argv file cwd as s m = Some (st, ds, s', m') \<and> demo_conn argv cwd (fresh_demo ds) = Some info \<and>
     (case st of Serving \<Rightarrow> started_up lws_pre info s' | Retrying \<Rightarrow> at_rest s' | Exits _ \<Rightarrow> False) \<and>
     (\<exists>k\<le>length as. live m' = live m0 + (if st = Serving then owned s' else 0) + int k) \<and>
     (\<forall>inet_ok others rest. as = ((0, 0, \<lambda>_. 0), inet_ok, (0, 0), others) # rest \<and> reliable m0 \<and> inet_ok (argv ! 1) \<longrightarrow> st = Serving)"
proof -
  have "length ca_file = 15" by (simp add: ca_file_def)
  then obtain info where info: "demo_conn argv cwd (fresh_demo ds) = Some info" "server_ip info = Some (argv ! 1)"
    "use_tls info = 0 \<or> use_tls info = 1" using assms(3) by (auto simp: demo_conn_def Let_def)
  obtain ok s' m' where l: "start_loop as info s m0 = Some (ok, s', m')" "if ok then started_up lws_pre info s' \<and> exit_ready s' else at_rest s'"
    "\<exists>k\<le>length as. live m' = live m0 + (if ok then owned s' else 0) + int k"
    using start_loop_spec [OF assms(4-6), of info m0] by blast
  define st where "st = (if ok then Serving else Retrying)"
  have run: "demo_start argv file cwd as s m = Some (st, ds, s', m')"
    using assms(1,2) info(1) l(1) by (auto simp: demo_start_def st_def)
  have first: "st = Serving" if "as = ((0, 0, \<lambda>_. 0), inet_ok, (0, 0), others) # rest" "reliable m0" "inet_ok (argv ! 1)" for inet_ok others rest
  proof -
    note asm = that
    obtain s1 m1 where "leda_init (0, 0, \<lambda>_. 0) inet_ok (0, 0) info s m0 = (LE_SUCCESS, s1, m1)"
      using leda_init_succeeds [OF assms(4) asm(2) info(2), of inet_ok, OF asm(3) info(3)] by blast
    then show ?thesis using l(1) asm(1) by (simp add: st_def)
  qed
  have "case st of Serving \<Rightarrow> started_up lws_pre info s' | Retrying \<Rightarrow> at_rest s' | Exits _ \<Rightarrow> False"
    "\<exists>k\<le>length as. live m' = live m0 + (if st = Serving then owned s' else 0) + int k" using l(2,3) by (auto simp: st_def)
  then show ?thesis using run info(1) first by blast
qed

lemma demo_starts_witness:
  "\<exists>s' m'. demo_start [''demo'', ''127.0.0.1'', ''5432''] (Some (csv_file ''deviceName,productKey'' [(''lamp'', ''a1'')])) ''/home''
     [((0, 0, \<lambda>_. 0), (\<lambda>ip. ip = ''127.0.0.1''), (0, 0), (\<lambda>p. p\<lparr>started := 0\<rparr>))] leda0 always =
       Some (Serving, [new_device (''lamp'', ''a1'')], s', m')"
proof -
  let ?as = "[((0, 0, \<lambda>_. 0), (\<lambda>ip. ip = ''127.0.0.1''), (0, 0), (\<lambda>p. p\<lparr>started := 0\<rparr>))] :: attempt list"
  have "list_all (\<lambda>c. \<not> is_space c) ''deviceName,productKey''" "list_all csv_ok [(''lamp'', ''a1'')]"
    by (simp_all add: csv_ok_def is_space_def name_char_def)
  note csv = this
  obtain m0 where m0: "load_device_list (Some (csv_file ''deviceName,productKey'' [(''lamp'', ''a1'')])) always =
      Some (0, [new_device (''lamp'', ''a1'')], m0)" "reliable m0"
    using load_csv_file [OF _ csv(1) _ csv(2) _ reliable_always] malloc_split [of always] reliable_always by (force simp: reliable_def always_def)
  have "length [''demo'', ''127.0.0.1'', ''5432''] = 3 \<or> length [''demo'', ''127.0.0.1'', ''5432''] = 4" "length ''/home'' + 15 < PATH_MAX"
    "\<forall>(p, i, w, others)\<in>set ?as. drains others" "(0 :: nat) \<le> 2048"
    using drains_stop by (simp_all add: PATH_MAX_def)
  from demo_starts [OF this(1) m0(1) this(2) leda0_at_rest this(3,4)] m0(2) show ?thesis by fastforce
qed

end
