(* ===== verification/Demo_Answers.thy ===== *)
theory Demo_Answers
  imports Demo
begin

text \<open>
  The demo application on the SDK: what the gateway sets comes back when it asks, through the parsed requests, the worker, the
  callbacks of the demo and the responses.
\<close>

text \<open>A task of a worker that is a complete request for the device \<open>dn\<close>; \<open>a\<close> is its list of properties.\<close>

definition is_request :: "parsed_msg \<Rightarrow> string \<Rightarrow> string option \<Rightarrow> string \<Rightarrow> cJSON \<Rightarrow> bool" where
  "is_request p mth pk dn a \<longleftrightarrow>
     pm_type p = MSG_METHOD \<and> pm_method p = mth \<and> int_range (pm_id p) \<and> (\<exists>pl. pm_payload p = Some pl \<and> asks pl pk (Some dn) a)"


subsection \<open>Witness\<close>

lemma int_entry_tree:
  assumes "is_cstr k" "int_range n"
  shows "entry_of_data \<lparr>dtype = Some LEDA_TYPE_INT, dkey = Some k, dvalue = Some (print_int n)\<rparr> = Item cJSON_Object None 0 zero_double None
     [set_jstring (Some ''identifier'') (text_item k), set_jstring (Some ''type'') (text_item ''int''), number_member ''value'' n]"
proof -
  have n: "saturate (double_of_int n) = Some n" by (rule saturate_int_range [OF assms(2)])
  have v: "value_tree LEDA_TYPE_INT (print_int n) = Item cJSON_Number None n (double_of_int n) None []"
    using atoi_print_int [OF assms(2)] n by (simp add: value_tree_def leda_type_defs)
  have ty: "type_number_to_string LEDA_TYPE_INT = ''int''" by (simp add: type_number_to_string_def g_type_map_def leda_type_defs)
  moreover have "canonical (CJSON_NESTING_LIMIT - 2) (Item cJSON_Number None n (double_of_int n) None [])"
    using canonical_number [OF double_int_range [OF assms(2)] n] by simp
  ultimately show ?thesis
    using entry_tree_child [of k LEDA_TYPE_INT] assms(1) by (simp add: entry_of_data_def v number_member_def)
qed

definition level_3 :: leda_device_data where
  "level_3 = \<lparr>dtype = Some LEDA_TYPE_INT, dkey = Some ''brightness'', dvalue = Some (print_int 3)\<rparr>"

definition lamp_text :: string where
  "lamp_text = jtext ''{`code`:0,`messageId`:7,`payload`:{`properties`:[{`identifier`:`brightness`,`type`:`int`,`value`:3}]}}''"

lemma level_3_facts: "sendable_inside [level_3]" "int_range 3"
  "render False 0 (response LE_SUCCESS 7 (holder ''properties'' (data_tree [level_3]))) = Some lamp_text" "length lamp_text + 2 \<le> int_max"
proof -
  show "int_range 3" by (simp add: int_range_def)
  have "level_3 = reading \<lparr>dev_pk = [], dev_dn = [], dev_online = 0, dev_power = 0, dev_brightness = 3\<rparr> ''brightness''"
    by (simp add: level_3_def reading_def)
  then show "sendable_inside [level_3]"
    using reading_sendable [of "\<lparr>dev_pk = [], dev_dn = [], dev_online = 0, dev_power = 0, dev_brightness = 3\<rparr>" "[''brightness'']"]
    by (simp add: lamp_ok_def)
  have n: "number_text (double_of_int n) = print_int n" if "n \<in> {0, 7, 3}" for n using number_text_int [of n] that by auto
  have "entry_of_data level_3 = Item cJSON_Object None 0 zero_double None
     [set_jstring (Some ''identifier'') (text_item ''brightness''), set_jstring (Some ''type'') (text_item ''int''), number_member ''value'' 3]"
    unfolding level_3_def by (rule int_entry_tree) (simp_all add: int_range_def)
  then show "render False 0 (response LE_SUCCESS 7 (holder ''properties'' (data_tree [level_3]))) = Some lamp_text"
    using n [of 0] n [of 7] n [of 3]
    by (simp add: response_def holder_def data_tree_def lamp_text_def number_member_def text_item_def le_error_defs
        cjson_type_defs render.simps jtext_def quoted_def escape_char_def print_int_def dec.simps digit_def)
  show "length lamp_text + 2 \<le> int_max" by (simp add: lamp_text_def jtext_def)
qed


end
