(* ===== verification/CJSON_Normal.thy ===== *)
theory CJSON_Normal
  imports CJSON_Roundtrip
begin

text \<open>
  What the parser returns, whatever the text: a tree that can be printed, and unless a number of the text is
  too large for a double, one of the trees the round trip is about. So a text that was parsed, printed and
  parsed again gives the same tree.
\<close>

subsection \<open>Trees as the parser makes them\<close>

fun finite_numbers :: "cJSON \<Rightarrow> bool" where
  "finite_numbers (Item t vs vi vd k ch) \<longleftrightarrow> (t = cJSON_Number \<longrightarrow> finite_double vd) \<and> list_all finite_numbers ch"

definition as_parsed :: "nat \<Rightarrow> cJSON \<Rightarrow> bool" where
  "as_parsed n it \<longleftrightarrow> printable it \<and> (finite_numbers it \<longrightarrow> canonical n it)"

text \<open>The item a value is parsed into: new, or with the name that was read in front of it.\<close>

definition named_blank :: "int \<Rightarrow> string option \<Rightarrow> cJSON" where
  "named_blank t k = Item t None 0 zero_double k []"

lemma named_blank_set [simp]:
  "set_type t (named_blank t0 k) = named_blank t k" "valuedouble (named_blank t k) = zero_double"
  "blank = named_blank 0 None"
  by (simp_all add: named_blank_def blank_def zero_double_def)

lemma as_parsed_literal:
  assumes "cstr_opt k"
  shows "as_parsed n (named_blank cJSON_NULL k)" "as_parsed n (named_blank cJSON_False k)"
    "as_parsed n (set_type cJSON_True (set_number 1 zero_double (named_blank t k)))"
  using assms by (simp_all add: as_parsed_def named_blank_def cstr_opt_def cjson_type_defs)

lemma as_parsed_string:
  assumes "cstr_opt k" "is_cstr s"
  shows "as_parsed n (set_type cJSON_String (set_valuestring (Some s) (named_blank t k)))"
  using assms by (simp add: as_parsed_def named_blank_def cstr_opt_def is_text_def cjson_type_defs)

lemma as_parsed_number:
  assumes "cstr_opt k" "saturate d = Some vi" "binary64 d"
  shows "as_parsed n (set_type cJSON_Number (set_number vi d (named_blank t k)))"
  using assms fits_number_binary64 [of d]
  by (simp add: as_parsed_def named_blank_def cstr_opt_def number_ok_def cjson_type_defs)

lemma as_parsed_array:
  assumes "cstr_opt k" "0 < n" "\<forall>e\<in>set es. jstring e = None \<and> as_parsed (n - 1) e"
  shows "as_parsed n (set_child es (named_blank cJSON_Array k))"
  using assms by (simp add: as_parsed_def named_blank_def cstr_opt_def cjson_type_defs list_all_iff)

lemma as_parsed_object:
  assumes "cstr_opt k" "0 < n" "\<forall>e\<in>set es. is_text (jstring e) \<and> as_parsed (n - 1) e"
  shows "as_parsed n (set_child es (named_blank cJSON_Object k))"
  using assms by (simp add: as_parsed_def named_blank_def cstr_opt_def cjson_type_defs list_all_iff)

subsection \<open>What the functions of the parser return\<close>

lemma skip_depth [simp]: "depth (buffer_skip_whitespace p) = depth p"
  by (simp add: buffer_skip_whitespace_def Let_def)

lemma parse_string_result:
  assumes "parse_string it p m = Some (True, it', p', m')"
  shows "depth p' = depth p \<and> (\<exists>s. is_cstr s \<and> it' = set_type cJSON_String (set_valuestring (Some s) it))"
  using assms unfolding parse_string_def
  by (auto simp: Let_def split: bind_splits if_splits option.splits prod.splits)

lemma parse_number_result:
  assumes "parse_number it p = Some (True, it', p')"
  shows "depth p' = depth p \<and> (\<exists>d vi. binary64 d \<and> saturate d = Some vi \<and> it' = set_type cJSON_Number (set_number vi d it))"
proof -
  obtain d k where dk: "strtod (takeWhile is_number_char (take 63 (drop (offset p) (content p)))) = (d, k)" by (rule prod.exhaust)
  then have "binary64 d" using strtod_binary64 [of "takeWhile is_number_char (take 63 (drop (offset p) (content p)))"] by simp
  then show ?thesis using assms dk unfolding parse_number_def by (auto split: if_splits bind_splits)
qed

lemma parse_items_result:
  assumes "parse_items close t loop it p m = Some (True, it', p', m')"
  shows "\<exists>es q. it' = set_child es (set_type t it) \<and> depth p' = depth q - 1 \<and>
     (es = [] \<and> depth q = depth p \<or> (\<exists>q0 m1 m2. depth q0 = depth p \<and> loop q0 m1 = Some (True, es, q, m2)))"
proof -
  define p1 where "p1 = buffer_skip_whitespace (advance 1 p)"
  have d: "depth p1 = depth p" by (simp add: p1_def)
  show ?thesis
  proof (cases "looking_at p1 close")
    case True
    then have "it' = set_child [] (set_type t it)" "depth p' = depth p1 - 1"
      using assms unfolding parse_items_def Let_def p1_def [symmetric] by auto
    then show ?thesis using d by blast
  next
    case False
    obtain es p2 m2 where "loop (p1\<lparr>offset := offset p1 - 1\<rparr>) m = Some (True, es, p2, m2)"
      "it' = set_child es (set_type t it)" "depth p' = depth p2 - 1"
      using assms False unfolding parse_items_def Let_def p1_def [symmetric] by (auto split: if_splits bind_splits)
    moreover have "depth (p1\<lparr>offset := offset p1 - 1\<rparr>) = depth p" using d by simp
    ultimately show ?thesis by blast
  qed
qed

lemma parse_array_result:
  assumes "parse_array loop it p m = Some (True, it', p', m')"
  shows "depth p < CJSON_NESTING_LIMIT \<and>
     (\<exists>es q. it' = set_child es (set_type cJSON_Array it) \<and> depth p' = depth q - 1 \<and>
       (es = [] \<and> depth q = depth p + 1 \<or> (\<exists>q0 m1 m2. depth q0 = depth p + 1 \<and> loop q0 m1 = Some (True, es, q, m2))))"
  using assms parse_items_result [of "CHR '']''" cJSON_Array loop it "p\<lparr>depth := depth p + 1\<rparr>" m it' p' m']
  unfolding parse_array_def by (auto simp: Let_def split: if_splits bind_splits)

lemma parse_object_result:
  assumes "parse_object loop it p m = Some (True, it', p', m')"
  shows "depth p < CJSON_NESTING_LIMIT \<and>
     (\<exists>es q. it' = set_child es (set_type cJSON_Object it) \<and> depth p' = depth q - 1 \<and>
       (es = [] \<and> depth q = depth p + 1 \<or> (\<exists>q0 m1 m2. depth q0 = depth p + 1 \<and> loop q0 m1 = Some (True, es, q, m2))))"
  using assms parse_items_result [of "CHR ''}''" cJSON_Object loop it "p\<lparr>depth := depth p + 1\<rparr>" m it' p' m']
  unfolding parse_object_def by (auto simp: Let_def split: if_splits)

abbreviation levels :: "parse_buffer \<Rightarrow> nat" where
  "levels p \<equiv> CJSON_NESTING_LIMIT - depth p"

definition value_made :: "nat \<Rightarrow> bool" where
  "value_made f \<longleftrightarrow> (\<forall>t k p m it' p' m'. cstr_opt k \<longrightarrow> parse_value f (named_blank t k) p m = Some (True, it', p', m') \<longrightarrow>
     depth p' = depth p \<and> jstring it' = k \<and> as_parsed (levels p) it')"

definition list_made :: "(nat \<Rightarrow> cJSON list \<Rightarrow> parse_buffer \<Rightarrow> mem \<Rightarrow> (bool \<times> cJSON list \<times> parse_buffer \<times> mem) option) \<Rightarrow>
    (string option \<Rightarrow> bool) \<Rightarrow> nat \<Rightarrow> bool" where
  "list_made loop name f \<longleftrightarrow> (\<forall>es p m es' p' m'. loop f es p m = Some (True, es', p', m') \<longrightarrow>
     (\<forall>e\<in>set es. name (jstring e) \<and> as_parsed (levels p) e) \<longrightarrow>
     depth p' = depth p \<and> (\<forall>e\<in>set es'. name (jstring e) \<and> as_parsed (levels p) e))"

lemma value_step:
  assumes "list_made parse_elements (\<lambda>k. k = None) f" "list_made parse_members is_text f"
  shows "value_made (Suc f)"
  unfolding value_made_def
proof (intro allI impI)
  fix t k p m it' p' m'
  assume k: "cstr_opt k" and r: "parse_value (Suc f) (named_blank t k) p m = Some (True, it', p', m')"
  have lv: "CJSON_NESTING_LIMIT - (depth p + 1) = levels p - 1" by simp
  have key: "jstring (set_child es (named_blank t k)) = k" "jstring (named_blank t k) = k"
    "jstring (set_type t' (set_number n d (named_blank t k))) = k"
    "jstring (set_type t' (set_valuestring vs (named_blank t k))) = k" for es t t' n d vs
    by (simp_all add: named_blank_def)
  consider (lit) "depth p' = depth p" "it' = named_blank cJSON_NULL k \<or> it' = named_blank cJSON_False k \<or>
        it' = set_type cJSON_True (set_number 1 zero_double (named_blank t k))"
    | (str) "parse_string (named_blank t k) p m = Some (True, it', p', m')"
    | (num) "parse_number (named_blank t k) p = Some (True, it', p')"
    | (arr) "parse_array (\<lambda>q n. parse_elements f [] q n) (named_blank t k) p m = Some (True, it', p', m')"
    | (obj) "parse_object (\<lambda>q n. parse_members f [] q n) (named_blank t k) p m = Some (True, it', p', m')"
    using r unfolding parse_value.simps(2) by (auto split: if_splits bind_splits)
  then show "depth p' = depth p \<and> jstring it' = k \<and> as_parsed (levels p) it'"
  proof cases
    case lit
    then show ?thesis using as_parsed_literal [OF k] key by auto
  next
    case str
    then show ?thesis using parse_string_result [OF str] as_parsed_string [OF k] key(4) by fastforce
  next
    case num
    then show ?thesis using parse_number_result [OF num] as_parsed_number [OF k] key(3) by fastforce
  next
    case arr
    obtain es q where es: "depth p < CJSON_NESTING_LIMIT"
      "it' = set_child es (named_blank cJSON_Array k)" "depth p' = depth q - 1"
      "es = [] \<and> depth q = depth p + 1 \<or> (\<exists>q0 m1 m2. depth q0 = depth p + 1 \<and> parse_elements f [] q0 m1 = Some (True, es, q, m2))"
      using parse_array_result [OF arr, unfolded named_blank_set(1)] by blast
    have "depth q = depth p + 1 \<and> (\<forall>e\<in>set es. jstring e = None \<and> as_parsed (levels p - 1) e)"
      using es(4) assms(1) lv unfolding list_made_def by (metis empty_iff list.set(1))
    then show ?thesis using es(1-3) as_parsed_array [OF k, of "levels p" es] key(1) by simp
  next
    case obj
    obtain es q where es: "depth p < CJSON_NESTING_LIMIT"
      "it' = set_child es (named_blank cJSON_Object k)" "depth p' = depth q - 1"
      "es = [] \<and> depth q = depth p + 1 \<or> (\<exists>q0 m1 m2. depth q0 = depth p + 1 \<and> parse_members f [] q0 m1 = Some (True, es, q, m2))"
      using parse_object_result [OF obj, unfolded named_blank_set(1)] by blast
    have "depth q = depth p + 1 \<and> (\<forall>e\<in>set es. is_text (jstring e) \<and> as_parsed (levels p - 1) e)"
      using es(4) assms(2) lv unfolding list_made_def by (metis empty_iff list.set(1))
    then show ?thesis using es(1-3) as_parsed_object [OF k, of "levels p" es] key(1) by simp
  qed
qed

lemma value_madeD:
  "value_made f \<Longrightarrow> parse_value f (named_blank t k) p m = Some (True, it', p', m') \<Longrightarrow> cstr_opt k \<Longrightarrow>
     depth p' = depth p \<and> jstring it' = k \<and> as_parsed (levels p) it'"
  unfolding value_made_def by blast

lemma elements_step:
  assumes "value_made f" "list_made parse_elements (\<lambda>k. k = None) f"
  shows "list_made parse_elements (\<lambda>k. k = None) (Suc f)"
  unfolding list_made_def
proof (intro allI impI)
  fix es p m es' p' m'
  assume r: "parse_elements (Suc f) es p m = Some (True, es', p', m')"
    and es: "\<forall>e\<in>set es. jstring e = None \<and> as_parsed (levels p) e"
  obtain m1 where new: "cJSON_New_Item m = (Some blank, m1)" using r by (cases rule: New_Item_cases [of m]) auto
  obtain it' p2 m2 where v: "parse_value f (named_blank 0 None) (buffer_skip_whitespace (advance 1 p)) m1 = Some (True, it', p2, m2)"
    and rest: "(if looking_at (buffer_skip_whitespace p2) (CHR '','')
      then parse_elements f (es @ [it']) (buffer_skip_whitespace p2) m2
      else Some (True, es @ [it'], buffer_skip_whitespace p2, m2)) = Some (True, es', p', m')"
    using r new by (auto simp: Let_def split: bind_splits if_splits)
  have it: "depth p2 = depth p" "jstring it' = None" "as_parsed (levels p) it'"
    using value_madeD [OF assms(1) v] by (simp_all add: cstr_opt_def)
  then have all: "\<forall>e\<in>set (es @ [it']). jstring e = None \<and> as_parsed (levels (buffer_skip_whitespace p2)) e" using es by auto
  show "depth p' = depth p \<and> (\<forall>e\<in>set es'. jstring e = None \<and> as_parsed (levels p) e)"
  proof (cases "looking_at (buffer_skip_whitespace p2) (CHR '','')")
    case True
    then show ?thesis using rest assms(2) all it(1) unfolding list_made_def by (metis skip_depth)
  next
    case False
    then show ?thesis using rest all it(1) by auto
  qed
qed

lemma members_step:
  assumes "value_made f" "list_made parse_members is_text f"
  shows "list_made parse_members is_text (Suc f)"
  unfolding list_made_def
proof (intro allI impI)
  fix es p m es' p' m'
  assume r: "parse_members (Suc f) es p m = Some (True, es', p', m')"
    and es: "\<forall>e\<in>set es. is_text (jstring e) \<and> as_parsed (levels p) e"
  obtain m1 where new: "cJSON_New_Item m = (Some blank, m1)" using r by (cases rule: New_Item_cases [of m]) auto
  obtain it1 p2 m2 where st: "parse_string blank (buffer_skip_whitespace (advance 1 p)) m1 = Some (True, it1, p2, m2)"
    using r new by (auto split: bind_splits if_splits)
  from parse_string_result [OF st] obtain s where s: "is_cstr s" "depth p2 = depth p"
    "it1 = set_type cJSON_String (set_valuestring (Some s) (named_blank 0 None))" by auto
  then have it2: "set_valuestring None (set_jstring (valuestring it1) it1) = named_blank cJSON_String (Some s)"
    by (simp add: named_blank_def)
  define q where "q = buffer_skip_whitespace (advance 1 (buffer_skip_whitespace p2))"
  have q: "depth q = depth p" using s(2) by (simp add: q_def)
  obtain it' p4 m3 where v: "parse_value f (named_blank cJSON_String (Some s)) q m2 = Some (True, it', p4, m3)"
    and rest: "(if looking_at (buffer_skip_whitespace p4) (CHR '','')
      then parse_members f (es @ [it']) (buffer_skip_whitespace p4) m3
      else Some (True, es @ [it'], buffer_skip_whitespace p4, m3)) = Some (True, es', p', m')"
    using r unfolding parse_members.simps new prod.case option.case st bind.bind_lunit Let_def it2 q_def [symmetric]
    by (cases "looking_at (buffer_skip_whitespace p2) (CHR '':'')";
        cases "parse_value f (named_blank cJSON_String (Some s)) q m2") (auto split: if_splits)
  have it: "depth p4 = depth p" "jstring it' = Some s" "as_parsed (levels p) it'"
    using value_madeD [OF assms(1) v] q s(1) by (simp_all add: cstr_opt_def)
  then have all: "\<forall>e\<in>set (es @ [it']). is_text (jstring e) \<and> as_parsed (levels (buffer_skip_whitespace p4)) e"
    using es s(1) by (auto simp: is_text_def)
  show "depth p' = depth p \<and> (\<forall>e\<in>set es'. is_text (jstring e) \<and> as_parsed (levels p) e)"
  proof (cases "looking_at (buffer_skip_whitespace p4) (CHR '','')")
    case True
    then show ?thesis using rest assms(2) all it(1) unfolding list_made_def by (metis skip_depth)
  next
    case False
    then show ?thesis using rest all it(1) by auto
  qed
qed

lemma parser_makes: "value_made f \<and> list_made parse_elements (\<lambda>k. k = None) f \<and> list_made parse_members is_text f"
proof (induction f)
  case 0
  then show ?case by (simp add: value_made_def list_made_def)
next
  case (Suc f)
  then show ?case using value_step elements_step members_step by blast
qed

text \<open>What \<open>cJSON_ParseWithOpts\<close> returns.\<close>

lemma parse_result:
  assumes "cJSON_ParseWithOpts (Some s) nul m = Some (Some it, e, m')"
  shows "jstring it = None" "printable it" "finite_numbers it \<Longrightarrow> json_document it"
proof -
  obtain m1 where new: "cJSON_New_Item m = (Some blank, m1)"
    using assms by (cases rule: New_Item_cases [of m]) (auto simp: cJSON_ParseWithOpts_def Let_def)
  obtain p1 where p1: "skip_utf8_bom \<lparr>content = s @ [NUL], offset = 0, depth = 0\<rparr> = Some p1"
    using assms new by (auto simp: cJSON_ParseWithOpts_def Let_def split: option.splits)
  then have d: "depth p1 = 0" by (auto simp: skip_utf8_bom_def split: if_splits)
  obtain p2 m2 where "parse_value (parse_fuel (s @ [NUL])) (named_blank 0 None) (buffer_skip_whitespace p1) m1 = Some (True, it, p2, m2)"
    using assms new p1 by (auto simp: cJSON_ParseWithOpts_def Let_def split: bind_splits if_splits)
  moreover have "cstr_opt None" "levels (buffer_skip_whitespace p1) = CJSON_NESTING_LIMIT" using d by (simp_all add: cstr_opt_def)
  ultimately have "jstring it = None" "as_parsed CJSON_NESTING_LIMIT it"
    using parser_makes unfolding value_made_def by metis+
  then show "jstring it = None" "printable it" "finite_numbers it \<Longrightarrow> json_document it"
    by (simp_all add: as_parsed_def json_document_def)
qed

subsection \<open>Properties\<close>

text \<open>C21: Numbers survive: for every finite double, \<open>print_number\<close> writes a text that fits its buffer of 26 bytes,
  and \<open>parse_number\<close>, in front of anything that does not continue a number, reads exactly this text and gives
  the same double and the \<open>valueint\<close> that belongs to it. So \<open>%1.15g\<close> with the test whether it is read back, and
  \<open>%1.17g\<close> otherwise, loses nothing.\<close>

theorem number_survives:
  assumes "number_ok vi d" "\<not> is_number_char c"
  shows "length (number_text d) + 1 < 26 \<and>
     parse_number it \<lparr>content = number_text d @ c # r, offset = 0, depth = k\<rparr> =
       Some (True, set_type cJSON_Number (set_number vi d it),
             \<lparr>content = number_text d @ c # r, offset = length (number_text d), depth = k\<rparr>)"
proof -
  have "length (number_text d) + 1 < 26" using number_text_facts(2) [of d] assms(1) by (simp add: number_ok_def)
  moreover define p where "p = \<lparr>content = number_text d @ c # r, offset = 0, depth = k\<rparr>"
  have l: "left_is p (number_text d @ c # r)" by (simp add: p_def left_is_def)
  have "parse_number it p = Some (True, set_type cJSON_Number (set_number vi d it), advance (length (number_text d)) p)"
    using parse_number_text [OF l assms(2,1)] left_is_upto(2) [OF l] by simp
  ultimately show ?thesis by (simp add: p_def)
qed

text \<open>The double that is nearest to 0.1.\<close>

definition tenth :: double where
  "tenth = Fin False (7205759403792794 / 2 ^ 56)"

lemma tenth_ok: "number_ok 0 tenth"
proof -
  have "mantissa_form (7205759403792794 / 2 ^ 56) 7205759403792794 (- 56)" by (simp add: mantissa_form_def pow2_def power_int_minus)
  then have "rnd (7205759403792794 / 2 ^ 56) = 7205759403792794 / 2 ^ 56" by (rule mantissa_form_exact)
  moreover have "7205759403792794 / 2 ^ 56 < pow2 1024" by (simp add: pow2_def)
  ultimately show ?thesis
    by (simp add: number_ok_def finite_double_def tenth_def saturate_def int_range_def floor_eq_iff)
qed

lemma number_survives_witness:
  "parse_number blank \<lparr>content = number_text tenth @ '','' @ ''7'', offset = 0, depth = 1\<rparr> =
     Some (True, Item cJSON_Number None 0 tenth None [],
           \<lparr>content = number_text tenth @ '','' @ ''7'', offset = length (number_text tenth), depth = 1\<rparr>)"
  using number_survives [OF tenth_ok, of "CHR '',''" blank "''7''" 1] by (simp add: is_number_char_def is_digit_def blank_def named_blank_def)

text \<open>C20: Whatever the parser accepts can be printed: for every text, every item \<open>cJSON_ParseWithOpts\<close> returns for it, with
  either kind of hooks, formatted or not, and whatever allocations fail, \<open>print\<close> is defined (no byte outside
  a block, \<open>number_buffer\<close> included), returns what \<open>render\<close> defines or NULL, and leaves no block but this result behind.\<close>

theorem parsed_is_printable:
  assumes "cJSON_ParseWithOpts (Some s) nul m = Some (Some it, e, m1)"
  shows "\<exists>r m2. print_json re (Some it) fmt m1 = Some (r, m2) \<and>
     live m2 = live m1 + (case r of None \<Rightarrow> 0 | Some _ \<Rightarrow> 1) \<and> (\<forall>t. r = Some t \<longrightarrow> render fmt 0 it = Some t)"
  using print_json_outcome [OF parse_result(2) [OF assms], of re fmt m1] by blast

text \<open>C3: Parsing, printing and parsing again gives the same tree: for every text the parser accepts in which no number
  overflows, the tree it returns has a text, formatted or not, and parsing that text with a working allocator
  reads all of it and returns the tree again.\<close>

theorem parse_print_parse:
  assumes "cJSON_ParseWithOpts (Some s) nul m = Some (Some it, e, m1)" "finite_numbers it" "reliable m2"
  shows "\<exists>t m3. render fmt 0 it = Some t \<and> cJSON_ParseWithOpts (Some t) nul' m2 = Some (Some it, length t, m3)"
proof -
  have it: "json_document it" by (rule parse_result(3) [OF assms(1,2)])
  obtain t where t: "render fmt 0 it = Some t" using json.enc_total [OF it] by blast
  then show ?thesis using parse_render [OF _ _ t assms(3)] it by (auto simp: json_document_def)
qed

text \<open>A text with blanks and a rest behind the value, which the parser accepts.\<close>

definition spaced :: string where
  "spaced = '' [ true , null]x''"

definition spaced_tree :: cJSON where
  "spaced_tree = Item cJSON_Array None 0 zero_double None
     [Item cJSON_True None 1 zero_double None [], Item cJSON_NULL None 0 zero_double None []]"

lemma spaced_parsed: "\<exists>m1. cJSON_ParseWithOpts (Some spaced) False always = Some (Some spaced_tree, 15, m1)"
proof -
  have "map_option (\<lambda>(it, e, m). (it, e)) (cJSON_ParseWithOpts (Some spaced) False always) = Some (Some spaced_tree, 15)"
    by code_simp
  then show ?thesis by auto
qed

lemma spaced_rendered: "render False 0 spaced_tree = Some ''[true,null]''"
  by (simp add: spaced_tree_def render.simps cjson_type_defs)

lemma parsed_is_printable_witness:
  "\<exists>m1 r m2. cJSON_ParseWithOpts (Some spaced) False always = Some (Some spaced_tree, 15, m1) \<and>
     print_json True (Some spaced_tree) False m1 = Some (r, m2) \<and> (\<forall>t. r = Some t \<longrightarrow> t = ''[true,null]'')"
proof -
  obtain m1 where m1: "cJSON_ParseWithOpts (Some spaced) False always = Some (Some spaced_tree, 15, m1)"
    using spaced_parsed by blast
  from parsed_is_printable [OF m1, of True False] show ?thesis using m1 spaced_rendered by fastforce
qed

lemma parse_print_parse_witness:
  "\<exists>m1 m3. cJSON_ParseWithOpts (Some spaced) False always = Some (Some spaced_tree, 15, m1) \<and>
     cJSON_ParseWithOpts (Some ''[true,null]'') True always = Some (Some spaced_tree, 11, m3)"
proof -
  obtain m1 where m1: "cJSON_ParseWithOpts (Some spaced) False always = Some (Some spaced_tree, 15, m1)"
    using spaced_parsed by blast
  have "finite_numbers spaced_tree" by (simp add: spaced_tree_def cjson_type_defs)
  from parse_print_parse [OF m1 this reliable_always, of False True] show ?thesis using m1 spaced_rendered by auto
qed

declare named_blank_set(3) [simp del]

end
