(* ===== verification/Leda_Worker.thy ===== *)
theory Leda_Worker
  imports CJSON_Normal Leda_Network Leda_Answers
begin

text \<open>
  The worker threads in the SDK: whatever text the gateway sent and whatever allocations fail, handling the
  message that was made of it is defined. The counterpart of \<open>Leda_Network\<close>.
\<close>

subsection \<open>Trees that can be printed\<close>

lemma and_255: "(t AND NOT cJSON_StringIsConst) AND 255 = t AND 255" "(t AND NOT cJSON_IsReference) AND 255 = t AND 255"
proof -
  have n: "NOT cJSON_StringIsConst AND 255 = (255 :: int)" "NOT cJSON_IsReference AND 255 = (255 :: int)"
    by (simp_all add: cjson_type_defs)
  show "(t AND NOT cJSON_StringIsConst) AND 255 = t AND 255" "(t AND NOT cJSON_IsReference) AND 255 = t AND 255"
    unfolding and.assoc n by simp_all
qed

lemma printable_unref: "printable it \<Longrightarrow> printable (unref it)"
  by (induction it) (auto simp: and_255 list_all_iff)

lemma printable_set_child: "printable ob \<Longrightarrow> list_all printable ch \<Longrightarrow> printable (set_child ch ob)"
  by (cases ob) simp

lemma printable_child: "printable ob \<Longrightarrow> list_all printable (child ob)"
  by (cases ob) simp

lemma printable_member:
  assumes "printable it" "cJSON_GetObjectItem (Some it) (Some nm) = Some e"
  shows "printable e"
proof -
  have "e \<in> set (child it)" using assms(2) by (auto simp: cJSON_GetObjectItem_find find_Some_iff)
  then show ?thesis using printable_child [OF assms(1)] by (simp add: list_all_iff)
qed

abbreviation printable_opt :: "cJSON option \<Rightarrow> bool" where
  "printable_opt x \<equiv> (case x of None \<Rightarrow> True | Some i \<Rightarrow> printable i)"

lemma printable_blank: "t AND 255 \<noteq> cJSON_Number \<Longrightarrow> printable (set_type t blank)"
  by (simp add: blank_def cstr_opt_def)

lemma created_printable:
  "cJSON_CreateObject m = (r, m') \<Longrightarrow> printable_opt r" "cJSON_CreateArray m = (r, m') \<Longrightarrow> printable_opt r"
  "is_cstr s \<Longrightarrow> cJSON_CreateString (Some s) m = (r, m') \<Longrightarrow> printable_opt r"
proof -
  show "cJSON_CreateObject m = (r, m') \<Longrightarrow> printable_opt r" "cJSON_CreateArray m = (r, m') \<Longrightarrow> printable_opt r"
    by (cases rule: New_Item_cases [of m]; auto simp: create_defs create_type_def printable_blank cjson_type_defs)+
  show "is_cstr s \<Longrightarrow> cJSON_CreateString (Some s) m = (r, m') \<Longrightarrow> printable_opt r"
  proof (cases rule: New_Item_cases [of m])
    case (2 m1)
    assume "is_cstr s" "cJSON_CreateString (Some s) m = (r, m')"
    then show ?thesis using 2(1)
      by (cases rule: strdup_cases [where s = s and m = m1])
        (auto simp: cJSON_CreateString_def create_text_def blank_def cstr_opt_def cjson_type_defs)
  qed (auto simp: cJSON_CreateString_def create_text_def)
qed

lemma number_created:
  assumes "binary64 d" "d \<noteq> NaN"
  obtains r m' where "cJSON_CreateNumber d m = Some (r, m')" "printable_opt r"
proof (cases rule: New_Item_cases [of m])
  case (1 m1)
  then show thesis using that by (simp add: cJSON_CreateNumber_def)
next
  case (2 m1)
  obtain n where "saturate d = Some n" using saturate_total [OF assms(2)] by blast
  then show thesis
    using that 2 fits_number_binary64 [OF assms(1)]
    by (simp add: cJSON_CreateNumber_def blank_def cstr_opt_def)
qed

lemma printable_keyed:
  assumes "printable i" "is_cstr s"
  shows "printable (set_type (ctype i AND NOT cJSON_StringIsConst) (set_jstring (Some s) i))"
  using assms by (cases i) (simp add: and_255 cstr_opt_def)

text \<open>Adding to an object that can be printed gives one, whether it succeeds or not.\<close>

lemma add_printable:
  assumes "printable ob" "printable_opt it" "is_cstr nm"
  obtains ok ob' it' m' where "add_item_to_object (Some ob) (Some nm) it False m = (ok, Some ob', it', m')"
    "printable ob'" "printable_opt it'"
proof (cases it)
  case None
  then show thesis using that [of False ob None m] assms by (simp add: add_item_to_object_def)
next
  case (Some i)
  note i = printable_keyed [of i nm]
  show thesis
  proof (cases rule: strdup_cases [where s = nm and m = m])
    case (1 m1)
    then show thesis using that [of False ob it m1] assms Some by (simp add: add_item_to_object_def)
  next
    case (2 m1)
    have "printable (set_child (child ob @ [set_type (ctype i AND NOT cJSON_StringIsConst) (set_jstring (Some nm) i)]) ob)"
      using assms Some i printable_child by (intro printable_set_child) auto
    then show thesis using that assms Some 2 i
      by (simp add: add_item_to_object_def add_item_to_array_def Let_def)
  qed
qed

lemma add_to_object_printable:
  assumes "printable ob" "printable_opt it" "is_cstr nm"
  obtains ob' m' where "cJSON_AddItemToObject (Some ob) (Some nm) it m = (Some ob', m')" "printable ob'"
  by (rule add_printable [OF assms, of m]) (use that in \<open>simp add: cJSON_AddItemToObject_def\<close>)

lemma add_created_printable:
  assumes "printable ob" "printable_opt it" "is_cstr nm"
  obtains x ob' m' where "add_created (Some ob) (Some nm) (it, m) = (x, Some ob', m')" "printable ob'"
proof (rule add_printable [OF assms, of m])
  fix ok ob' it' m'
  assume "add_item_to_object (Some ob) (Some nm) it False m = (ok, Some ob', it', m')" "printable ob'"
  then show thesis using that by (cases ok) (auto simp: add_created_def)
qed

lemma add_string_printable:
  assumes "printable ob" "is_cstr nm" "is_cstr s"
  obtains x ob' m' where "cJSON_AddStringToObject (Some ob) (Some nm) (Some s) m = (x, Some ob', m')" "printable ob'"
proof -
  obtain it m1 where c: "cJSON_CreateString (Some s) m = (it, m1)" by (rule prod.exhaust)
  from add_created_printable [OF assms(1) created_printable(3) [OF assms(3) c] assms(2), of m1] that show thesis
    unfolding cJSON_AddStringToObject_def c by blast
qed

lemma add_number_printable:
  assumes "printable ob" "is_cstr nm" "binary64 d" "d \<noteq> NaN"
  obtains x ob' m' where "cJSON_AddNumberToObject (Some ob) (Some nm) d m = Some (x, Some ob', m')" "printable ob'"
proof -
  obtain it m1 where c: "cJSON_CreateNumber d m = Some (it, m1)" "printable_opt it" by (rule number_created [OF assms(3,4)])
  from add_created_printable [OF assms(1) c(2) assms(2), of m1] that show thesis
    unfolding cJSON_AddNumberToObject_def c(1) by (metis bind.bind_lunit)
qed

lemma double_of_int_number: "binary64 (double_of_int n)" "double_of_int n \<noteq> NaN"
  by (simp add: binary64_double_of_int) (simp add: double_of_int_def mk_double_def)

subsection \<open>Answering\<close>

text \<open>What may be written: the entries that an application may return.\<close>

definition complete :: "leda_device_data \<Rightarrow> bool" where
  "complete d \<longleftrightarrow> (case (dtype d, dkey d, dvalue d) of
     (Some t, Some k, Some v) \<Rightarrow> LEDA_TYPE_INT \<le> t \<and> t < LEDA_TYPE_BUTT \<and> is_cstr k \<and> is_cstr v \<and>
        (t \<in> {LEDA_TYPE_FLOAT, LEDA_TYPE_DOUBLE} \<longrightarrow> atof v \<noteq> NaN)
   | _ \<Rightarrow> False)"

lemma writable_types:
  assumes "LEDA_TYPE_INT \<le> t" "t < LEDA_TYPE_BUTT"
  shows "t = 0 \<or> t = 1 \<or> t = 2 \<or> t = 3 \<or> t = 4 \<or> t = 5 \<or> t = 6 \<or> t = 7 \<or> t = 8"
  using assms by (simp add: leda_type_defs) presburger

lemma type_text: "is_cstr (type_number_to_string t)"
proof (cases "LEDA_TYPE_INT \<le> t \<and> t < LEDA_TYPE_BUTT")
  case True
  then show ?thesis using writable_types [of t] by (auto simp: type_number_to_string_def g_type_map_def leda_type_defs)
next
  case False
  then show ?thesis by (auto simp: type_number_to_string_def g_type_map_def leda_type_defs)
qed

lemma write_value_safe:
  assumes "LEDA_TYPE_INT \<le> t" "t < LEDA_TYPE_BUTT" "is_cstr v" "t \<in> {LEDA_TYPE_FLOAT, LEDA_TYPE_DOUBLE} \<Longrightarrow> atof v \<noteq> NaN"
    and "printable ob"
  obtains ok ob' m' where "write_value t (Some v) (Some ob) m = Some (ok, Some ob', m')" "printable ob'"
proof -
  have nm: "is_cstr ''value''" by simp
  consider (int) "t \<in> {LEDA_TYPE_INT, LEDA_TYPE_BOOL, LEDA_TYPE_ENUM}" | (float) "t \<in> {LEDA_TYPE_DOUBLE, LEDA_TYPE_FLOAT}"
    | (str) "t \<in> {LEDA_TYPE_DATE, LEDA_TYPE_TEXT}" | (json) "t \<in> {LEDA_TYPE_ARRAY, LEDA_TYPE_STRUCT}"
    using writable_types [OF assms(1,2)] by (auto simp: leda_type_defs)
  then show thesis
  proof cases
    case int
    obtain x ob' m' where a: "cJSON_AddNumberToObject (Some ob) (Some ''value'') (double_of_int (atoi v)) m = Some (x, Some ob', m')" "printable ob'"
      by (rule add_number_printable [OF assms(5) nm double_of_int_number])
    have "write_value t (Some v) (Some ob) m = Some (True, Some ob', m')" using int a(1) by (simp add: write_value_def)
    then show thesis using that a(2) by blast
  next
    case float
    have "binary64 (atof v)" "atof v \<noteq> NaN" using assms(4) float strtod_binary64 by (auto simp: atof_def)
    then obtain x ob' m' where a: "cJSON_AddNumberToObject (Some ob) (Some ''value'') (atof v) m = Some (x, Some ob', m')" "printable ob'"
      by (rule add_number_printable [OF assms(5) nm])
    have "t \<notin> {LEDA_TYPE_INT, LEDA_TYPE_BOOL, LEDA_TYPE_ENUM}" using float by (auto simp: leda_type_defs)
    then have "write_value t (Some v) (Some ob) m = Some (True, Some ob', m')" using float a(1) by (simp add: write_value_def)
    then show thesis using that a(2) by blast
  next
    case str
    obtain x ob' m' where a: "cJSON_AddStringToObject (Some ob) (Some ''value'') (Some v) m = (x, Some ob', m')" "printable ob'"
      by (rule add_string_printable [OF assms(5) nm assms(3)])
    have "t \<notin> {LEDA_TYPE_INT, LEDA_TYPE_BOOL, LEDA_TYPE_ENUM}" "t \<notin> {LEDA_TYPE_DOUBLE, LEDA_TYPE_FLOAT}"
      using str by (auto simp: leda_type_defs)
    then have "write_value t (Some v) (Some ob) m = Some (True, Some ob', m')" using str a(1) by (simp add: write_value_def)
    then show thesis using that a(2) by blast
  next
    case json
    obtain r e m1 where p: "cJSON_ParseWithOpts (Some v) False m = Some (r, e, m1)"
      using parse_safe_lemma [of "Some v" False m] assms(3) by auto
    show thesis
    proof (cases r)
      case None
      then show thesis using that [of False ob m1] json assms(5) p by (auto simp: write_value_def cJSON_Parse_def leda_type_defs)
    next
      case (Some j)
      have "printable_opt (Some j)" using parse_result(2) p Some by auto
      then obtain ob' m' where "cJSON_AddItemToObject (Some ob) (Some ''value'') (Some j) m1 = (Some ob', m')" "printable ob'"
        by (rule add_to_object_printable [OF assms(5) _ nm])
      then show thesis using that [of True ob' m'] json p Some by (auto simp: write_value_def cJSON_Parse_def leda_type_defs)
    qed
  qed
qed

lemma write_entries_safe:
  assumes "list_all complete (take n ds)" "n \<le> length ds" "printable arr"
  shows "\<exists>r m'. write_entries ds n (Some arr) m = Some (r, m') \<and> printable_opt r"
  using assms
proof (induction n arbitrary: ds arr m)
  case (Suc n)
  then obtain d ds' where ds: "ds = d # ds'" by (cases ds) auto
  then have d: "complete d" and rest: "list_all complete (take n ds')" "n \<le> length ds'" using Suc.prems by simp_all
  obtain t k v where tkv: "dtype d = Some t" "dkey d = Some k" "dvalue d = Some v" "LEDA_TYPE_INT \<le> t" "t < LEDA_TYPE_BUTT"
    "is_cstr k" "is_cstr v" "t \<in> {LEDA_TYPE_FLOAT, LEDA_TYPE_DOUBLE} \<Longrightarrow> atof v \<noteq> NaN"
    using d by (auto simp: complete_def split: option.splits)
  obtain it m1 where c: "cJSON_CreateObject m = (it, m1)" by (rule prod.exhaust)
  show ?case
  proof (cases it)
    case None
    then show ?thesis using c ds by simp
  next
    case (Some ob)
    then have "printable ob" using created_printable(1) [OF c] by simp
    from add_string_printable [OF this _ tkv(6), of "''identifier''" m1] obtain x1 ob1 m2 where
      1: "cJSON_AddStringToObject (Some ob) (Some ''identifier'') (Some k) m1 = (x1, Some ob1, m2)" "printable ob1" by auto
    from add_string_printable [OF this(2) _ type_text, of "''type''" t m2] obtain x2 ob2 m3 where
      2: "cJSON_AddStringToObject (Some ob1) (Some ''type'') (Some (type_number_to_string t)) m2 = (x2, Some ob2, m3)" "printable ob2" by auto
    from write_value_safe [OF tkv(4,5,7,8) this(2), of m3] obtain ok ob3 m4 where
      3: "write_value t (Some v) (Some ob2) m3 = Some (ok, Some ob3, m4)" "printable ob3" by blast
    have arr: "printable (set_child (child arr @ [ob3]) arr)"
      using 3(2) Suc.prems(3) printable_child by (intro printable_set_child) auto
    show ?thesis
    proof (cases ok)
      case False
      then show ?thesis using ds c Some 1 2 3 tkv by simp
    next
      case True
      then show ?thesis
        using ds c Some 1 2 3 tkv Suc.IH [OF rest arr, of m4] by (simp add: cJSON_AddItemToArray_def add_item_to_array_def)
    qed
  qed
qed simp

lemma struct_to_json_safe:
  assumes "list_all complete (take (nat n) ds)" "nat n \<le> length ds"
  obtains r m' where "struct_data_to_json_data ds n m = Some (r, m')" "printable_opt r"
proof -
  obtain it m1 where c: "cJSON_CreateArray m = (it, m1)" by (rule prod.exhaust)
  show thesis
  proof (cases it)
    case None
    then show thesis using that c by (simp add: struct_data_to_json_data_def)
  next
    case (Some a)
    then have "printable a" using created_printable(2) [OF c] by simp
    from write_entries_safe [OF assms this, of m1] that c Some show thesis by (auto simp: struct_data_to_json_data_def)
  qed
qed

text \<open>Putting a message into the buffer, with or without the block growing.\<close>

lemma push_any:
  assumes "client_ready lws_pre c" "0 < n" "n \<le> length bytes" "n + 1 + lws_pre < 2 ^ 64"
  obtains ret ev b m' where "wsc_add_msg lws_pre (Some bytes) (of_nat n) 0 c m = Some (ret, ev, c\<lparr>out_msgs := b\<rparr>, m')" "wsb_inv lws_pre b"
proof -
  define s where "s = out_msgs c"
  have n: "unat (of_nat n :: size_t) = n" using assms(4) by (intro unat_small) simp
  then have nz: "(of_nat n :: size_t) \<noteq> 0" using assms(2) by auto
  have rdy: "wsb_inv lws_pre s" "ring_ok s" "used s < length (slots s)"
    using assms(1) by (simp_all add: client_ready_def s_def)
  show thesis
  proof (cases "grows lws_pre (of_nat n) s \<and> \<not> fst (c_realloc m)")
    case False
    obtain b m' where p: "client_buf_mgmt_push lws_pre (Some bytes) (of_nat n) 0 s m = Some (LE_SUCCESS, True, b, m')" "wsb_inv lws_pre b"
    proof (rule push_refines [OF rdy, of "of_nat n" bytes m 0])
      show "fst (c_realloc m)" if "grows lws_pre (of_nat n) s" using that False by blast
    qed (use that n assms(3,4) in auto)
    then show thesis using that nz by (simp add: wsc_add_msg_def s_def)
  next
    case True
    obtain m' where r: "c_realloc m = (False, m')" using True by (metis prod.collapse)
    from rdy(1) obtain items where items: "g_ws_buf s = Some items" "items \<noteq> []" "slots s = items"
      and st: "max_buf_cnt (g_ws_buf_state s) = int (length items)" "wri s \<le> length items" "0 \<le> wr_index (g_ws_buf_state s)"
      by (rule wsb_invD)
    define st1 where "st1 = (if max_buf_cnt (g_ws_buf_state s) \<le> wr_index (g_ws_buf_state s)
                           then (g_ws_buf_state s)\<lparr>wr_index := 0\<rparr> else g_ws_buf_state s)"
    have i: "nat (wr_index st1) < length items" using items(2) st by (auto simp: st1_def)
    have "client_buf_mgmt_push lws_pre (Some bytes) (of_nat n) 0 s m =
        Some (LE_ERROR_ALLOCATING_MEM, False, s\<lparr>g_ws_buf_state := st1\<rparr>, m')"
      using items(1) i True r by (auto simp: client_buf_mgmt_push_def grows_def st1_def Let_def rd_Some)
    moreover have "wsb_inv lws_pre (s\<lparr>g_ws_buf_state := st1\<rparr>)" using rdy(1) by (auto simp: wsb_inv_def st1_def Let_def)
    ultimately show thesis using that nz by (simp add: wsc_add_msg_def s_def)
  qed
qed

lemma print_short:
  assumes "printable it"
  obtains r m' where "cJSON_PrintUnformatted (Some it) m = Some (r, m')" "\<And>t. r = Some t \<Longrightarrow> length t < int_max"
proof -
  from print_json_bounded [OF assms, of True False m] obtain r m' where
    p: "print_json True (Some it) False m = Some (r, m')" and short: "\<forall>t. r = Some t \<longrightarrow> render False 0 it = Some t \<and> length t < int_max"
    by (elim exE conjE)
  have "length t < int_max" if "r = Some t" for t using short that by blast
  then show thesis using that [of r m'] p unfolding cJSON_PrintUnformatted_def by blast
qed

lemma send_rsp_safe:
  assumes "client_ready lws_pre (client s)" "lws_pre \<le> 4096" "printable_opt pl"
  shows "\<exists>ret ev c m'. leda_send_rsp lws_pre rc i pl s m = Some (ret, ev, s\<lparr>client := c\<rparr>, m') \<and> wsb_inv lws_pre (out_msgs c)"
proof -
  have stay: "\<exists>ret' ev' c m''. Some (ret, ev, s, m') = Some (ret', ev', s\<lparr>client := c\<rparr>, m'') \<and> wsb_inv lws_pre (out_msgs c)"
    for ret and ev :: "leda_event list" and m' :: mem
    using assms(1) by (intro exI [of _ ret] exI [of _ ev] exI [of _ "client s"] exI [of _ m']) (simp add: client_ready_def)
  obtain r0 m1 where 1: "cJSON_CreateObject m = (r0, m1)" by (rule prod.exhaust)
  show ?thesis
  proof (cases r0)
    case None
    then show ?thesis using 1 stay by (simp add: leda_send_rsp_def)
  next
    case (Some ob)
    then have ob: "printable ob" using created_printable(1) [OF 1] by simp
    from add_number_printable [OF this _ double_of_int_number, of "''code''" rc m1] obtain x1 ob1 m2 where
      2: "cJSON_AddNumberToObject (Some ob) (Some ''code'') (double_of_int rc) m1 = Some (x1, Some ob1, m2)" "printable ob1" by auto
    from add_number_printable [OF this(2) _ double_of_int_number, of "''messageId''" i m2] obtain x2 ob2 m3 where
      3: "cJSON_AddNumberToObject (Some ob1) (Some ''messageId'') (double_of_int i) m2 = Some (x2, Some ob2, m3)" "printable ob2" by auto
    obtain pl1 m4 where 4: "(if pl = None then cJSON_CreateObject m3 else (pl, m3)) = (pl1, m4)" by (rule prod.exhaust)
    then have pl1: "printable_opt pl1" using assms(3) created_printable(1) by (auto split: if_splits)
    note start = leda_send_rsp_def 1 Some 2(1) 3(1) 4
    show ?thesis
    proof (cases "pl1 = None")
      case True
      then show ?thesis using stay by (simp add: start)
    next
      case False
      then obtain px where px: "pl1 = Some px" by blast
      from add_to_object_printable [OF 3(2) pl1, of "''payload''" m4] obtain ob3 m5 where
        5: "cJSON_AddItemToObject (Some ob2) (Some ''payload'') pl1 m4 = (Some ob3, m5)" "printable ob3" by auto
      obtain r m6 where 6: "cJSON_PrintUnformatted (Some ob3) m5 = Some (r, m6)" "\<And>t. r = Some t \<Longrightarrow> length t < int_max"
        by (rule print_short [OF 5(2), of m5]) (rule that)
      show ?thesis
      proof (cases r)
        case None
        then show ?thesis using stay px 5(1) 6(1) by (simp add: start)
      next
        case t: (Some t)
        have n: "0 < length t + 1" "length t + 1 \<le> length (t @ [NUL])" "length t + 1 + 1 + lws_pre < 2 ^ 64"
          using 6(2) [OF t] assms(2) by simp_all
        define m7 where "m7 = cJSON_Delete (Some ob3) m6"
        obtain ret ev b m8 where p: "wsc_add_msg lws_pre (Some (t @ [NUL])) (of_nat (length t + 1)) 0 (client s) m7 =
            Some (ret, ev, (client s)\<lparr>out_msgs := b\<rparr>, m8)" "wsb_inv lws_pre b"
          by (rule push_any [OF assms(1) n])
        have w: "(of_nat (length t + 1) :: size_t) = of_nat (length t) + 1" by simp
        have "leda_send_rsp lws_pre rc i pl s m = Some (ret, map Net ev, s\<lparr>client := (client s)\<lparr>out_msgs := b\<rparr>\<rparr>, c_free 1 m8)"
          using px 5(1) 6(1) t p(1) [unfolded w] by (simp add: start m7_def)
        then show ?thesis using p(2) by auto
      qed
    qed
  qed
qed

subsection \<open>Handling a message\<close>

text \<open>
  What an application promises for its callbacks: when they return \<open>LE_SUCCESS\<close>, the array they were given is
  filled, entry by entry, with values that can be written.
\<close>

definition callbacks_ok :: "leda_device_callback \<Rightarrow> bool" where
  "callbacks_ok cb \<longleftrightarrow>
     (\<forall>f pk dn ds out. get_properties_cb cb = Some f \<longrightarrow>
        f pk dn ds (int (length ds)) (usr_data_get_property cb) = (LE_SUCCESS, out) \<longrightarrow> length out = length ds \<and> list_all complete out) \<and>
     (\<forall>f pk dn name ds output out. call_service_cb cb = Some f \<longrightarrow>
        f pk dn name ds (int (length ds)) output (usr_data_call_service cb) = (LE_SUCCESS, out) \<longrightarrow>
        length out = length output \<and> list_all complete out)"

definition worker_ready :: "nat \<Rightarrow> leda \<Rightarrow> bool" where
  "worker_ready lws_pre s \<longleftrightarrow> client_ready lws_pre (client s) \<and> lws_pre \<le> 4096 \<and>
     (\<exists>tb. holds_table (replies_st s) tb) \<and> callbacks_ok (g_devs_cb s)"

text \<open>What is left: a well formed buffer and table of the requests, and the pool as it was.\<close>

definition worker_done :: "nat \<Rightarrow> parsed_msg pool option option \<Rightarrow> leda \<Rightarrow> bool" where
  "worker_done lws_pre pool0 s \<longleftrightarrow> g_threadpool s = pool0 \<and> wsb_inv lws_pre (out_msgs (client s)) \<and> (\<exists>tb. holds_table (replies_st s) tb)"

lemma worker_ready_done: "worker_ready lws_pre s \<Longrightarrow> worker_done lws_pre (g_threadpool s) s"
  by (simp add: worker_ready_def worker_done_def client_ready_def)

lemma send_rsp_done:
  assumes "worker_ready lws_pre s" "printable_opt pl"
  obtains ret ev s' m' where "leda_send_rsp lws_pre rc i pl s m = Some (ret, ev, s', m')" "worker_done lws_pre (g_threadpool s) s'"
  using send_rsp_safe [of lws_pre s pl rc i m] assms by (fastforce simp: worker_ready_def worker_done_def)

lemma get_properties_done:
  assumes "worker_ready lws_pre s" "n = int (length ds)"
  obtains ret ev s' m' where "leda_rsp_get_properties lws_pre pk dn i ds n s m = Some (ret, ev, s', m')" "worker_done lws_pre (g_threadpool s) s'"
proof -
  obtain r0 m1 where 1: "cJSON_CreateObject m = (r0, m1)" by (rule prod.exhaust)
  show thesis
  proof (cases r0)
    case None
    then show thesis using that 1 worker_ready_done [OF assms(1)] by (simp add: leda_rsp_get_properties_def)
  next
    case (Some ob)
    then have ob: "printable ob" using created_printable(1) [OF 1] by simp
    obtain ret out where c: "(case get_properties_cb (g_devs_cb s) of None \<Rightarrow> (LE_ERROR_UNKNOWN, ds)
        | Some f \<Rightarrow> f pk dn ds n (usr_data_get_property (g_devs_cb s))) = (ret, out)" by (rule prod.exhaust)
    obtain p1 m2 where p: "(if ret = LE_SUCCESS
        then do { (properties, m2) \<leftarrow> struct_data_to_json_data out n m1; Some (cJSON_AddItemToObject (Some ob) (Some ''properties'') properties m2) }
        else Some (Some ob, m1)) = Some (p1, m2)" "printable_opt p1"
    proof (cases "ret = LE_SUCCESS")
      case False
      then show thesis using that ob by simp
    next
      case True
      have "length out = length ds \<and> list_all complete out"
        using c True assms by (auto simp: worker_ready_def callbacks_ok_def le_error_defs split: option.splits)
      then have "list_all complete (take (nat n) out)" "nat n \<le> length out" using assms(2) by simp_all
      from struct_to_json_safe [OF this, of m1] obtain r m2 where r: "struct_data_to_json_data out n m1 = Some (r, m2)" "printable_opt r" .
      from add_to_object_printable [OF ob r(2), of "''properties''" m2] obtain ob' m' where
        "cJSON_AddItemToObject (Some ob) (Some ''properties'') r m2 = (Some ob', m')" "printable ob'" by auto
      then show thesis using that True r(1) by simp
    qed
    obtain ret' ev s' m' where "leda_send_rsp lws_pre ret i p1 s m2 = Some (ret', ev, s', m')" "worker_done lws_pre (g_threadpool s) s'"
      by (rule send_rsp_done [OF assms(1) p(2)])
    then show thesis
      using that by (simp add: leda_rsp_get_properties_def 1 Some c p(1))
  qed
qed

lemma set_properties_done:
  assumes "worker_ready lws_pre s"
  obtains ret ev s' m' where "leda_rsp_set_properties lws_pre pk dn i ds n s m = Some (ret, ev, s', m')" "worker_done lws_pre (g_threadpool s) s'"
  unfolding leda_rsp_set_properties_def Let_def by (rule send_rsp_done [OF assms, of None]) (use that in auto)

lemma count_complete:
  assumes "list_all complete ds" "n \<le> length ds"
  shows "\<exists>c\<le>n. count_params ds n = Some c"
  using assms
proof (induction n arbitrary: ds)
  case (Suc n)
  then obtain d ds' where ds: "ds = d # ds'" by (cases ds) auto
  then obtain k where "dkey d = Some k" using Suc.prems(1) by (auto simp: complete_def split: option.splits)
  moreover obtain c where "c \<le> n" "count_params ds' n = Some c" using Suc ds by auto
  ultimately show ?case using ds by auto
qed simp

lemma call_service_done:
  assumes "worker_ready lws_pre s" "n = int (length ds)"
  obtains ret ev s' m' where "leda_rsp_call_service lws_pre pk dn i name ds n s m = Some (ret, ev, s', m')" "worker_done lws_pre (g_threadpool s) s'"
proof -
  define mx where "mx = service_output_max_count (g_devs_cb s)"
  obtain ok m1 where 1: "malloc m = (ok, m1)" by (rule prod.exhaust)
  show thesis
  proof (cases "ok \<and> 0 \<le> mx")
    case False
    have "\<exists>m'. leda_rsp_call_service lws_pre pk dn i name ds n s m = Some (LE_ERROR_ALLOCATING_MEM, [], s, m')"
    proof (cases ok)
      case True
      then have "mx < 0" using False by simp
      then show ?thesis using True 1 by (simp add: leda_rsp_call_service_def mx_def)
    qed (use 1 in \<open>simp add: leda_rsp_call_service_def\<close>)
    then show thesis using that worker_ready_done [OF assms(1)] by blast
  next
    case True
    define output0 where "output0 = replicate (nat mx) zero_data"
    obtain ret out where c: "(case call_service_cb (g_devs_cb s) of None \<Rightarrow> (LE_ERROR_UNKNOWN, output0)
        | Some f \<Rightarrow> f pk dn name ds n output0 (usr_data_call_service (g_devs_cb s))) = (ret, out)" by (rule prod.exhaust)
    have zero: "complete zero_data" by (simp add: complete_def zero_data_def leda_type_defs)
    have run: "leda_rsp_call_service lws_pre pk dn i name ds n s m =
        (if call_service_cb (g_devs_cb s) \<noteq> None \<and> ret \<noteq> LE_SUCCESS then leda_send_rsp lws_pre ret i None s (c_free 1 m1)
         else do { cnt \<leftarrow> count_params out (nat mx);
                case cJSON_CreateObject m1 of
                  (None, m2) \<Rightarrow> leda_send_rsp lws_pre ret i None s (c_free 1 m2)
                | (Some p0, m2) \<Rightarrow>
                    do { (params, m3) \<leftarrow> struct_data_to_json_data out (int cnt) m2;
                         let (p1, m4) = (if params \<noteq> None then cJSON_AddItemToObject (Some p0) (Some ''outputData'') params m3
                                         else (Some p0, m3));
                         leda_send_rsp lws_pre ret i p1 s (c_free 1 m4) } })"
      using True 1 c unfolding leda_rsp_call_service_def mx_def [symmetric] Let_def output0_def [symmetric] by simp
    show thesis
    proof (cases "call_service_cb (g_devs_cb s) \<noteq> None \<and> ret \<noteq> LE_SUCCESS")
      case fail: True
      show thesis by (rule send_rsp_done [OF assms(1), of None ret i "c_free 1 m1"]) (use that run fail in auto)
    next
      case False
      have out: "length out = nat mx" "list_all complete out"
      proof -
        have "length out = length output0 \<and> list_all complete out"
        proof (cases "call_service_cb (g_devs_cb s)")
          case None
          then show ?thesis using c zero by (auto simp: output0_def list_all_iff)
        next
          case (Some f)
          then have "f pk dn name ds (int (length ds)) output0 (usr_data_call_service (g_devs_cb s)) = (LE_SUCCESS, out)"
            using c False assms(2) by simp
          then show ?thesis using assms(1) Some unfolding worker_ready_def callbacks_ok_def by blast
        qed
        then show "length out = nat mx" "list_all complete out" by (simp_all add: output0_def)
      qed
      obtain cnt where cnt: "cnt \<le> nat mx" "count_params out (nat mx) = Some cnt" using count_complete [OF out(2)] out(1) by auto
      obtain p0 m2 where p0: "cJSON_CreateObject m1 = (p0, m2)" by (rule prod.exhaust)
      show thesis
      proof (cases p0)
        case None
        show thesis
          by (rule send_rsp_done [OF assms(1), of None ret i "c_free 1 m2"]) (use that run False cnt(2) p0 None in auto)
      next
        case (Some ob)
        then have ob: "printable ob" using created_printable(1) [OF p0] by simp
        have "list_all complete (take (nat (int cnt)) out)" "nat (int cnt) \<le> length out"
          using out cnt(1) by (auto simp: list_all_iff dest: in_set_takeD)
        from struct_to_json_safe [OF this, of m2] obtain r m3 where
          r: "struct_data_to_json_data out (int cnt) m2 = Some (r, m3)" "printable_opt r" .
        obtain p1 m4 where p1: "(if r \<noteq> None then cJSON_AddItemToObject (Some ob) (Some ''outputData'') r m3 else (Some ob, m3)) = (p1, m4)"
          by (rule prod.exhaust)
        have "printable_opt p1"
        proof (cases r)
          case None
          then show ?thesis using p1 ob by auto
        next
          case (Some x)
          from add_to_object_printable [OF ob r(2), of "''outputData''" m3] obtain ob' m' where
            "cJSON_AddItemToObject (Some ob) (Some ''outputData'') r m3 = (Some ob', m')" "printable ob'" by auto
          then show ?thesis using p1 Some by auto
        qed
        then obtain ret' ev s' m' where "leda_send_rsp lws_pre ret i p1 s (c_free 1 m4) = Some (ret', ev, s', m')" "worker_done lws_pre (g_threadpool s) s'"
          by (rule send_rsp_done [OF assms(1)])
        moreover have "leda_rsp_call_service lws_pre pk dn i name ds n s m = leda_send_rsp lws_pre ret i p1 s (c_free 1 m4)"
          unfolding run if_not_P [OF False] cnt(2) p0 Some prod.case option.case bind.bind_lunit r(1) p1 Let_def ..
        ultimately show thesis using that by simp
      qed
    qed
  qed
qed

text \<open>
  The entries of a request that are handled without undefined behaviour: what is used as a text is one, and
  the name of a type is one of the nine. Whether a structured value can be printed is left to the parser.
\<close>

definition entry_known :: "cJSON \<Rightarrow> bool" where
  "entry_known e \<longleftrightarrow>
     (if ctype e = cJSON_String then valuestring e \<noteq> None
      else
        (case cJSON_GetObjectItem (Some e) (Some ''identifier'') of
           None \<Rightarrow> True
         | Some idn \<Rightarrow> valuestring idn \<noteq> None \<and>
             (case cJSON_GetObjectItem (Some e) (Some ''type'') of
                None \<Rightarrow> True
              | Some ty \<Rightarrow> ctype ty = cJSON_String \<longrightarrow>
                  (case type_string_to_number (valuestring ty) of
                     None \<Rightarrow> False
                   | Some t \<Rightarrow>
                       (case cJSON_GetObjectItem (Some e) (Some ''value'') of
                          None \<Rightarrow> True
                        | Some v \<Rightarrow> t \<noteq> LEDA_TYPE_BUTT \<and>
                            (t \<in> {LEDA_TYPE_TEXT, LEDA_TYPE_DATE} \<longrightarrow> valuestring v \<noteq> None))))))"

lemma entry_known_fits:
  assumes "entry_known e" "printable e"
  shows "entry_fits e"
proof -
  note v = printable_member [OF assms(2), of "''value''"]
  show ?thesis
    using assms(1) v unfolding entry_known_def entry_fits_def
    by (cases "cJSON_GetObjectItem (Some e) (Some ''identifier'')"; cases "cJSON_GetObjectItem (Some e) (Some ''type'')";
        cases "type_string_to_number (valuestring (the (cJSON_GetObjectItem (Some e) (Some ''type''))))";
        cases "cJSON_GetObjectItem (Some e) (Some ''value'')") auto
qed

definition request_item :: "cJSON option \<Rightarrow> cJSON option" where
  "request_item pl = (case cJSON_GetObjectItem pl (Some ''properties'') of
     None \<Rightarrow> cJSON_GetObjectItem pl (Some ''inputData'') | Some x \<Rightarrow> Some x)"

definition payload_known :: "cJSON option \<Rightarrow> bool" where
  "payload_known pl \<longleftrightarrow> (case request_item pl of None \<Rightarrow> True
     | Some a \<Rightarrow> length (child a) < 2 ^ 31 \<and> list_all entry_known (child a))"

lemma handle_method_done:
  assumes "worker_ready lws_pre s" "printable_opt (pm_payload p)" "payload_known (pm_payload p)"
  shows "\<exists>ev s' m'. handle_method lws_pre p s m = Some (ev, s', m') \<and> worker_done lws_pre (g_threadpool s) s'"
proof -
  define pl where "pl = pm_payload p"
  note ready = worker_ready_done [OF assms(1)]
  have item: "(if cJSON_GetObjectItem pl (Some ''properties'') = None then cJSON_GetObjectItem pl (Some ''inputData'')
      else cJSON_GetObjectItem pl (Some ''properties'')) = request_item pl"
    by (simp add: request_item_def split: option.splits)
  show ?thesis
  proof (cases "cJSON_GetObjectItem pl (Some ''productKey'') = None \<or> cJSON_GetObjectItem pl (Some ''deviceName'') = None \<or> request_item pl = None")
    case True
    then show ?thesis using ready item unfolding handle_method_def Let_def pl_def [symmetric] by (auto split: option.splits)
  next
    case False
    then obtain pk dn a where pk: "cJSON_GetObjectItem pl (Some ''productKey'') = Some pk"
      and dn: "cJSON_GetObjectItem pl (Some ''deviceName'') = Some dn" and a: "request_item pl = Some a" by auto
    obtain x where x: "pl = Some x" using pk by (cases pl) (auto simp: cJSON_GetObjectItem_def get_object_item_def get_object_index_def)
    have "printable a"
      using a printable_member [of x] assms(2) x by (auto simp: request_item_def pl_def split: option.splits)
    then have fits: "list_all entry_fits (child a)" "length (child a) < 2 ^ 31"
      using assms(3) a entry_known_fits printable_child [of a] by (auto simp: payload_known_def pl_def [symmetric] list_all_iff)
    obtain rc data cnt m1 where d: "json_data_to_struct_data (Some a) m = Some (rc, data, cnt, m1)" "cnt = int (length (child a))"
      "case data of None \<Rightarrow> (rc = LE_SUCCESS \<longleftrightarrow> child a = []) | Some ds \<Rightarrow> rc = LE_SUCCESS \<and> length ds = length (child a)"
      using json_to_struct_safe [OF fits, of m] by (fastforce split: option.splits)
    define ds where "ds = (case data of None \<Rightarrow> [] | Some ds \<Rightarrow> ds)"
    define run where "run = (if pm_method p = METHOD_GET_PROPERTY then
         do { (_, ev, s1, m2) \<leftarrow> leda_rsp_get_properties lws_pre (valuestring pk) (valuestring dn) (pm_id p) ds cnt s m1; Some (ev, s1, m2) }
       else if pm_method p = METHOD_SET_PROPERTY then
         do { (_, ev, s1, m2) \<leftarrow> leda_rsp_set_properties lws_pre (valuestring pk) (valuestring dn) (pm_id p) ds cnt s m1; Some (ev, s1, m2) }
       else if pm_method p = METHOD_CALL_SERVICE then
         (case cJSON_GetObjectItem pl (Some ''identifier'') of
            None \<Rightarrow> Some ([], s, m1)
          | Some service_name \<Rightarrow>
              do { (_, ev, s1, m2) \<leftarrow> leda_rsp_call_service lws_pre (valuestring pk) (valuestring dn) (pm_id p)
                     (valuestring service_name) ds cnt s m1; Some (ev, s1, m2) })
       else Some ([], s, m1))"
    have unf: "handle_method lws_pre p s m =
       (if rc \<noteq> LE_SUCCESS then Some ([], s, m1)
        else do { (ev, s1, m2) \<leftarrow> run; Some (ev, s1, if data = None then m2 else c_free 1 m2) })"
      unfolding handle_method_def Let_def pl_def [symmetric] pk dn option.case prod.case item a d(1) run_def ds_def
      by simp
    show ?thesis
    proof (cases "rc = LE_SUCCESS")
      case False
      then show ?thesis using unf ready by simp
    next
      case True
      then have n: "cnt = int (length ds)" using d(2,3) by (auto simp: ds_def split: option.splits)
      have "\<exists>ev s1 m2. run = Some (ev, s1, m2) \<and> worker_done lws_pre (g_threadpool s) s1"
      proof -
        obtain r1 e1 s1 n1 where g: "leda_rsp_get_properties lws_pre (valuestring pk) (valuestring dn) (pm_id p) ds cnt s m1 = Some (r1, e1, s1, n1)" "worker_done lws_pre (g_threadpool s) s1"
          by (rule get_properties_done [OF assms(1) n])
        obtain r2 e2 s2 n2 where st: "leda_rsp_set_properties lws_pre (valuestring pk) (valuestring dn) (pm_id p) ds cnt s m1 = Some (r2, e2, s2, n2)" "worker_done lws_pre (g_threadpool s) s2"
          by (rule set_properties_done [OF assms(1)])
        have c: "\<exists>r3 e3 s3 n3. leda_rsp_call_service lws_pre (valuestring pk) (valuestring dn) (pm_id p) nm ds cnt s m1 = Some (r3, e3, s3, n3) \<and> worker_done lws_pre (g_threadpool s) s3" for nm
          by (rule call_service_done [OF assms(1) n]) blast
        show ?thesis
        proof (cases "cJSON_GetObjectItem pl (Some ''identifier'')")
          case None
          then show ?thesis using g st ready by (simp add: run_def)
        next
          case (Some sn)
          obtain r3 e3 s3 n3 where "leda_rsp_call_service lws_pre (valuestring pk) (valuestring dn) (pm_id p) (valuestring sn) ds cnt s m1 = Some (r3, e3, s3, n3)"
            "worker_done lws_pre (g_threadpool s) s3" using c by blast
          then show ?thesis using Some g st ready by (simp add: run_def)
        qed
      qed
      then show ?thesis using unf True by auto
    qed
  qed
qed

lemma set_result_keeps:
  assumes "holds_table rs tb"
  shows "\<exists>rc rs' m' tb'. ws_set_reply_result i c payload rs m = Some (rc, rs', m') \<and> holds_table rs' tb'"
proof (cases "entry_of i tb")
  case None
  then show ?thesis using set_result_table [OF assms, of i c payload m] assms by auto
next
  case (Some e)
  obtain a r where "e = (a, r)" by (rule prod.exhaust)
  from set_result_table [OF assms, of i c payload m, unfolded Some \<open>e = (a, r)\<close> option.case prod.case]
  show ?thesis by (elim exE conjE) (intro exI conjI, assumption+)
qed

lemma handle_reply_done:
  assumes "worker_done lws_pre (g_threadpool s) s" "printable_opt (pm_payload p)"
  shows "\<exists>ev s' m'. handle_reply p s m = Some (ev, s', m') \<and> worker_done lws_pre (g_threadpool s) s'"
proof (cases "pm_payload p")
  case None
  obtain ok m1 where "malloc m = (ok, m1)" by (rule prod.exhaust)
  then show ?thesis using assms(1) None
    by (cases ok) (auto simp: handle_reply_def cJSON_PrintUnformatted_def print_json_def Let_def)
next
  case (Some pl)
  then have "printable pl" using assms(2) by simp
  then obtain r m1 where p: "cJSON_PrintUnformatted (Some pl) m = Some (r, m1)" by (rule print_short)
  obtain tb where tb: "holds_table (replies_st s) tb" using assms(1) by (auto simp: worker_done_def)
  show ?thesis
  proof (cases r)
    case None
    then show ?thesis using p Some assms(1) by (simp add: handle_reply_def)
  next
    case t: (Some t)
    obtain rc rp m2 tb' where w: "ws_set_reply_result (pm_id p) (pm_code p) (Some t) (replies_st s) m1 = Some (rc, rp, m2)"
      "holds_table rp tb'" using set_result_keeps [OF tb] by blast
    have "worker_done lws_pre (g_threadpool s) (s\<lparr>replies_st := rp\<rparr>)" using assms(1) w(2) by (auto simp: worker_done_def)
    then show ?thesis using p Some t w(1) by (auto simp: handle_reply_def)
  qed
qed

lemma recv_proc_done:
  assumes "worker_ready lws_pre s" "printable_opt (pm_payload p)" "payload_known (pm_payload p)"
  shows "\<exists>ev s' m'. threadpool_recv_proc lws_pre p s m = Some (ev, s', m') \<and> worker_done lws_pre (g_threadpool s) s'"
  using handle_method_done [OF assms, of m] handle_reply_done [OF worker_ready_done [OF assms(1)] assms(2), of m]
    worker_ready_done [OF assms(1)]
  by (auto simp: threadpool_recv_proc_def)

text \<open>The payload of the task that is made of a parsed text can be printed.\<close>

lemma task_printable:
  assumes "printable it"
  shows "printable_opt (pm_payload (task_of it))"
proof (cases "cJSON_GetObjectItem (Some it) (Some ''payload'')")
  case None
  then show ?thesis by (auto simp: task_of_def leda_parse_receive_msg_def Let_def split: option.splits if_splits)
next
  case (Some pl)
  then have "printable (unref pl)" using printable_unref printable_member [OF assms] by blast
  then show ?thesis using Some by (auto simp: task_of_def leda_parse_receive_msg_def Let_def split: option.splits if_splits)
qed

subsection \<open>Properties\<close>


text \<open>A request for a property, when memory runs out at once.\<close>

definition poll_cbs :: leda_device_callback where
  "poll_cbs = sensor_cbs\<lparr>get_properties_cb := Some (\<lambda>pk dn ds n u. (LE_SUCCESS, map (\<lambda>_. temperature) ds)), call_service_cb := None\<rparr>"

definition poll :: cJSON where
  "poll = Item cJSON_Object None 0 zero_double None
     [number_member ''messageId'' 7, set_jstring (Some ''method'') (text_item ''getProperty''),
      sensor_request [(''properties'', Item cJSON_Array None 0 zero_double None [text_item ''temperature''])]]"

definition poll_queue :: "parsed_msg pool" where
  "poll_queue = \<lparr>threads = True, queue = Some [Some (task_of poll)], thread_count = 1, queue_size = 1, head = 0, tail = 0,
     count = 1, shutdown = 0, started = 1\<rparr>"

definition polled :: leda where
  "polled = sensor\<lparr>g_devs_cb := poll_cbs, g_threadpool := Some (Some poll_queue)\<rparr>"

lemma poll_parsed: "\<exists>t m1. cJSON_ParseWithOpts (Some t) False always = Some (Some poll, length t, m1)"
proof -
  have "saturate (double_of_int 7) = Some 7" by (rule saturate_int_range) (simp add: int_range_def)
  then have "canonical l (number_member k 7)" for l k using canonical_number [of 7 7] by (simp add: number_member_def)
  then have p: "canonical CJSON_NESTING_LIMIT poll" "jstring poll = None"
    by (simp_all add: poll_def sensor_request_def is_text_def CJSON_NESTING_LIMIT_def cjson_type_defs number_member_def)
  then obtain t where "render False 0 poll = Some t" using render_total by blast
  then show ?thesis using parse_render [OF p _ reliable_always] by blast
qed

lemma poll_known: "payload_known (pm_payload (task_of poll))"
proof -
  have "pm_payload (task_of poll) = Some (sensor_request [(''properties'', Item cJSON_Array None 0 zero_double None [text_item ''temperature''])])"
    by (simp add: task_of_def leda_parse_receive_msg_def poll_def cJSON_GetObjectItem_find number_member_def sensor_request_def
        text_item_def cjson_type_defs same_name_def lower_def)
  then show ?thesis
    by (simp add: payload_known_def request_item_def sensor_request_def cJSON_GetObjectItem_find entry_known_def)
qed

lemma polled_ready: "worker_ready 16 polled" "pool_ok poll_queue" "tasks poll_queue = [task_of poll]"
proof -
  have "complete temperature" by (simp add: complete_def temperature_def leda_type_defs)
  then have "callbacks_ok poll_cbs" by (auto simp: callbacks_ok_def poll_cbs_def list_all_iff)
  moreover have "holds_table (replies_st sensor) []" using ready_sdk_ok by (simp add: sensor_def sdk_ready_def)
  ultimately show "worker_ready 16 polled"
    using sensor_ready(1) by (auto simp: worker_ready_def polled_def)
  show "pool_ok poll_queue" "tasks poll_queue = [task_of poll]"
    by (simp_all add: poll_queue_def pool_ok_def tasks_def ring_list_def)
qed


end
