(* ===== verification/Logging.thy ===== *)
theory Logging
  imports CDouble
begin

text \<open>
  The log of the SDK (\<open>utility/log\<close>) and the wrappers of the operating system (\<open>utility/os\<close>). The state
  of the log is its level; what is printed is returned as a text. The local time is an argument
  (\<open>localtime_r\<close> depends on the time zone), and so is what \<open>vprintf\<close> writes for the format of the caller.
\<close>

subsection \<open>Levels and colours\<close>

definition LOG_LEVEL_DEBUG :: int where "LOG_LEVEL_DEBUG = 0"
definition LOG_LEVEL_INFO :: int where "LOG_LEVEL_INFO = 1"
definition LOG_LEVEL_WARN :: int where "LOG_LEVEL_WARN = 2"
definition LOG_LEVEL_ERR :: int where "LOG_LEVEL_ERR = 3"
definition LOG_LEVEL_NONE :: int where "LOG_LEVEL_NONE = 4"

lemmas log_level_defs =
  LOG_LEVEL_DEBUG_def LOG_LEVEL_INFO_def LOG_LEVEL_WARN_def LOG_LEVEL_ERR_def LOG_LEVEL_NONE_def

definition COL_DEF :: string where "COL_DEF = CHR 0x1B # ''[0m''"
definition COL_RED :: string where "COL_RED = CHR 0x1B # ''[31m''"
definition COL_GRE :: string where "COL_GRE = CHR 0x1B # ''[32m''"
definition COL_YEL :: string where "COL_YEL = CHR 0x1B # ''[33m''"
definition COL_WHE :: string where "COL_WHE = CHR 0x1B # ''[37m''"
definition COL_CYN :: string where "COL_CYN = CHR 0x1B # ''[36m''"

definition g_log_desc :: "string list" where
  "g_log_desc = [''DBG'', ''INF'', ''WRN'', ''ERR'', ''FTL'']"

text \<open>The level the log starts with.\<close>

definition g_log_lvl :: int where
  "g_log_lvl = LOG_LEVEL_INFO"

text \<open>The new level, and what is printed.\<close>

definition set_log_level :: "int \<Rightarrow> int \<times> string" where
  "set_log_level lvl =
     (if lvl < LOG_LEVEL_DEBUG \<or> LOG_LEVEL_NONE \<le> lvl then LOG_LEVEL_ERR else lvl,
      ''set log level :  '' @ print_int lvl @ [CHR 0x0A])"

subsection \<open>Messages\<close>

record tm =
  tm_year :: int
  tm_mon :: int
  tm_mday :: int
  tm_hour :: int
  tm_min :: int
  tm_sec :: int

definition time_text :: "tm \<Rightarrow> string" where
  "time_text t = print_int (1900 + tm_year t) @ ''-'' @ print_int (1 + tm_mon t) @ ''-'' @ print_int (tm_mday t) @ '' '' @
     print_int (tm_hour t) @ '':'' @ print_int (tm_min t) @ '':'' @ print_int (tm_sec t)"

definition get_timestamp :: "nat \<Rightarrow> tm \<Rightarrow> string" where
  "get_timestamp len t = snprintf_s len (time_text t)"

text \<open>What follows the last slash.\<close>

definition base_name :: "string \<Rightarrow> string" where
  "base_name f = (if CHR ''/'' \<in> set f then rev (takeWhile (\<lambda>c. c \<noteq> CHR ''/'') (rev f)) else f)"

abbreviation or_backspace :: "string option \<Rightarrow> string" where
  "or_backspace s \<equiv> (case s of None \<Rightarrow> [CHR 0x08] | Some u \<Rightarrow> u)"

abbreviation puts_opt :: "string option \<Rightarrow> string \<Rightarrow> string" where
  "puts_opt color s \<equiv> (case color of None \<Rightarrow> [] | Some _ \<Rightarrow> s @ [CHR 0x0A])"

definition log_print ::
    "int \<Rightarrow> int \<Rightarrow> string option \<Rightarrow> string option \<Rightarrow> string option \<Rightarrow> string option \<Rightarrow> int \<Rightarrow> tm \<Rightarrow> string \<Rightarrow> string option" where
  \<comment> \<open>\<open>cur\<close>: the level of the log; \<open>None\<close>: a level that has no description (a negative one too: the enumeration is unsigned)\<close>
  "log_print cur lvl color t f func l now msg =
     (if 0 \<le> lvl \<and> lvl < cur then Some []
      else if lvl < 0 \<or> int (length g_log_desc) \<le> lvl then None
      else Some (puts_opt color (or_backspace color) @
             get_timestamp 20 now @ '' '' @ (g_log_desc ! nat lvl) @ '' <'' @ or_backspace t @ ''> '' @
             base_name (or_backspace f) @ ''-'' @ or_backspace func @ '':'' @ print_int l @ '' '' @ [CHR 0x0D, CHR 0x0A] @
             msg @ puts_opt color COL_DEF))"

text \<open>The macros: the place in the source is filled in by the compiler.\<close>

definition log_d :: "int \<Rightarrow> string option \<Rightarrow> string \<times> string \<times> int \<Rightarrow> tm \<Rightarrow> string \<Rightarrow> string option" where
  "log_d cur tag loc now msg = (case loc of (file, func, line) \<Rightarrow>
     log_print cur LOG_LEVEL_DEBUG (Some COL_WHE) tag (Some file) (Some func) line now msg)"

definition log_i :: "int \<Rightarrow> string option \<Rightarrow> string \<times> string \<times> int \<Rightarrow> tm \<Rightarrow> string \<Rightarrow> string option" where
  "log_i cur tag loc now msg = (case loc of (file, func, line) \<Rightarrow>
     log_print cur LOG_LEVEL_INFO (Some COL_GRE) tag (Some file) (Some func) line now msg)"

definition log_w :: "int \<Rightarrow> string option \<Rightarrow> string \<times> string \<times> int \<Rightarrow> tm \<Rightarrow> string \<Rightarrow> string option" where
  "log_w cur tag loc now msg = (case loc of (file, func, line) \<Rightarrow>
     log_print cur LOG_LEVEL_WARN (Some COL_CYN) tag (Some file) (Some func) line now msg)"

definition log_e :: "int \<Rightarrow> string option \<Rightarrow> string \<times> string \<times> int \<Rightarrow> tm \<Rightarrow> string \<Rightarrow> string option" where
  "log_e cur tag loc now msg = (case loc of (file, func, line) \<Rightarrow>
     log_print cur LOG_LEVEL_ERR (Some COL_YEL) tag (Some file) (Some func) line now msg)"

lemmas log_macro_defs = log_d_def log_i_def log_w_def log_e_def

subsection \<open>Copies of texts\<close>

definition os_strdup :: "string \<Rightarrow> mem \<Rightarrow> string option \<times> mem" where
  "os_strdup s m = (let (ok, m1) = malloc m in (if ok then Some s else None, m1))"

text \<open>The copy with its NUL is the block.\<close>

definition os_strndup :: "string \<Rightarrow> nat \<Rightarrow> mem \<Rightarrow> string option \<times> mem" where
  "os_strndup s n m = (let (ok, m1) = malloc m in (if ok then Some (take n s @ [NUL]) else None, m1))"

subsection \<open>What they do\<close>

text \<open>The level is one of the four that print something, so errors are never silenced: \<open>LOG_LEVEL_NONE\<close> cannot be set.\<close>

definition level_ok :: "int \<Rightarrow> bool" where
  "level_ok cur \<longleftrightarrow> LOG_LEVEL_DEBUG \<le> cur \<and> cur \<le> LOG_LEVEL_ERR"

lemma level_invariant: "level_ok g_log_lvl" "level_ok (fst (set_log_level lvl))"
  by (auto simp: level_ok_def set_log_level_def g_log_lvl_def log_level_defs)

lemma set_log_level_known: "level_ok lvl \<Longrightarrow> fst (set_log_level lvl) = lvl"
  by (auto simp: level_ok_def set_log_level_def log_level_defs)

text \<open>The date fits its buffer of 20 bytes exactly, up to the year 9999.\<close>

definition tm_ok :: "tm \<Rightarrow> bool" where
  "tm_ok t \<longleftrightarrow> 0 \<le> tm_mon t \<and> tm_mon t \<le> 11 \<and> 1 \<le> tm_mday t \<and> tm_mday t \<le> 31 \<and> 0 \<le> tm_hour t \<and> tm_hour t \<le> 23 \<and>
     0 \<le> tm_min t \<and> tm_min t \<le> 59 \<and> 0 \<le> tm_sec t \<and> tm_sec t \<le> 60"

lemma print_int_length_le:
  assumes "0 \<le> n" "n < 10 ^ k" "0 < k"
  shows "length (print_int n) \<le> k"
proof (cases "n = 0")
  case True
  then show ?thesis using assms(3) by (simp add: print_int_def dec.simps)
next
  case False
  then show ?thesis using assms dec_length_le [of n k] by (simp add: print_int_def)
qed

lemma timestamp_whole:
  assumes "tm_ok t" "- 1900 \<le> tm_year t" "tm_year t \<le> 8099"
  shows "get_timestamp 20 t = time_text t"
proof -
  have "length (print_int (1900 + tm_year t)) \<le> 4" "length (print_int (1 + tm_mon t)) \<le> 2" "length (print_int (tm_mday t)) \<le> 2"
    "length (print_int (tm_hour t)) \<le> 2" "length (print_int (tm_min t)) \<le> 2" "length (print_int (tm_sec t)) \<le> 2"
    using assms by (auto simp: tm_ok_def intro!: print_int_length_le)
  then have "length (time_text t) < 20" by (simp add: time_text_def)
  then show ?thesis by (simp add: get_timestamp_def)
qed

lemma base_name_split: "\<exists>d. f = d @ base_name f \<and> (d = [] \<or> last d = CHR ''/'')"
proof (cases "CHR ''/'' \<in> set f")
  case True
  let ?w = "takeWhile (\<lambda>c. c \<noteq> CHR ''/'') (rev f)" and ?r = "dropWhile (\<lambda>c. c \<noteq> CHR ''/'') (rev f)"
  have "?r \<noteq> []" using True by (simp add: dropWhile_eq_Nil_conv)
  then have "hd ?r = CHR ''/''" using hd_dropWhile by blast
  moreover have "f = rev ?r @ rev ?w" by (metis rev_append rev_rev_ident takeWhile_dropWhile_id)
  ultimately show ?thesis using True by (auto simp: base_name_def last_rev)
qed (simp add: base_name_def)

lemma base_name_plain: "CHR ''/'' \<notin> set (base_name f)"
  by (auto simp: base_name_def dest: set_takeWhileD)

text \<open>The four macros print when their level is not below the one that was set, and are always defined.\<close>

lemma log_macro_defined:
  assumes "level_ok cur"
  shows "\<exists>out. log_d cur tag loc now msg = Some out \<and> (out \<noteq> [] \<longleftrightarrow> cur \<le> LOG_LEVEL_DEBUG)"
    "\<exists>out. log_i cur tag loc now msg = Some out \<and> (out \<noteq> [] \<longleftrightarrow> cur \<le> LOG_LEVEL_INFO)"
    "\<exists>out. log_w cur tag loc now msg = Some out \<and> (out \<noteq> [] \<longleftrightarrow> cur \<le> LOG_LEVEL_WARN)"
    "\<exists>out. log_e cur tag loc now msg = Some out \<and> (out \<noteq> [] \<longleftrightarrow> cur \<le> LOG_LEVEL_ERR)"
  using assms by (auto simp: log_macro_defs log_print_def level_ok_def log_level_defs g_log_desc_def split: prod.splits)

lemma os_strndup_block:
  assumes "os_strndup s n m = (Some b, m')"
  shows "b = take n s @ [NUL]" "length b \<le> n + 1" "n < length s \<Longrightarrow> length b = n + 1" "live m' = live m + 1"
  using assms by (cases rule: malloc_split [of m]; auto simp: os_strndup_def Let_def)+

end
