(* ===== verification/CJSON_Error.thy ===== *)
theory CJSON_Error
  imports CJSON_Parse
begin

text \<open>
  The global state of \<open>cJSON.c\<close> beside its hooks: where the last parse failed. \<open>parse_with_error\<close> is the parser with
  this state, which every parse starts by resetting; \<open>cJSON_ParseWithOpts\<close> returns the rest.
  Also the functions that only hand on a value.
\<close>

subsection \<open>The last error\<close>

record parse_error =
  err_json :: "string option"
  err_position :: nat

definition global_error :: parse_error where
  "global_error = \<lparr>err_json = None, err_position = 0\<rparr>"

definition parse_with_error :: "string option \<Rightarrow> bool \<Rightarrow> mem \<Rightarrow> (cJSON option \<times> nat \<times> parse_error \<times> mem) option" where
  "parse_with_error json nul m =
     do { (r, e, m') \<leftarrow> cJSON_ParseWithOpts json nul m;
          Some (r, e, if r = None \<and> json \<noteq> None then \<lparr>err_json = json, err_position = e\<rparr> else global_error, m') }"

text \<open>\<open>None\<close> is \<open>NULL\<close>, any other pointer is the text it points to.\<close>

definition cJSON_GetErrorPtr :: "parse_error \<Rightarrow> string option" where
  "cJSON_GetErrorPtr g = map_option (drop (err_position g)) (err_json g)"

text \<open>A parse of a text leaves an error exactly if it returns no item, and then the error points into the text (to its
  NUL at the latest), where the parse ended; the error of a parse before does not matter.\<close>

lemma error_pointer:
  assumes "is_cstr s"
  shows "\<exists>r e g m'. parse_with_error (Some s) nul m = Some (r, e, g, m') \<and>
     (r \<noteq> None \<longleftrightarrow> cJSON_GetErrorPtr g = None) \<and>
     (r = None \<longrightarrow> (\<exists>before rest. cJSON_GetErrorPtr g = Some rest \<and> s = before @ rest \<and> length before = e))"
proof -
  obtain r e m' where p: "cJSON_ParseWithOpts (Some s) nul m = Some (r, e, m')" "e \<le> length s"
    using parse_safe_lemma [of "Some s" nul m] assms by auto
  have "\<exists>before. s = before @ drop e s \<and> length before = e" using p(2) by (intro exI [of _ "take e s"]) simp
  then show ?thesis using p(1) by (auto simp: parse_with_error_def cJSON_GetErrorPtr_def global_error_def)
qed

text \<open>Without a text there is no error to point to.\<close>

lemma error_pointer_null:
  "parse_with_error None nul m = Some (None, 0, global_error, m)" "cJSON_GetErrorPtr global_error = None"
  by (simp_all add: parse_with_error_def cJSON_ParseWithOpts_def cJSON_GetErrorPtr_def global_error_def)

subsection \<open>The version, and blocks for the client\<close>

definition CJSON_VERSION_MAJOR :: int where "CJSON_VERSION_MAJOR = 1"
definition CJSON_VERSION_MINOR :: int where "CJSON_VERSION_MINOR = 7"
definition CJSON_VERSION_PATCH :: int where "CJSON_VERSION_PATCH = 7"

text \<open>\<open>None\<close>: the text does not fit the static array of 15 bytes.\<close>

definition cJSON_Version :: "string option" where
  "cJSON_Version =
     (let t = print_int CJSON_VERSION_MAJOR @ ''.'' @ print_int CJSON_VERSION_MINOR @ ''.'' @ print_int CJSON_VERSION_PATCH in
      if 15 < length t + 1 then None else Some t)"

definition cJSON_malloc :: "mem \<Rightarrow> bool \<times> mem" where
  "cJSON_malloc m = malloc m"

definition cJSON_free :: "mem \<Rightarrow> mem" where
  "cJSON_free m = c_free 1 m"

lemma version_fits: "cJSON_Version = Some ''1.7.7''"
  by code_simp

lemma malloc_free_balanced: "cJSON_malloc m = (True, m') \<Longrightarrow> live (cJSON_free m') = live m"
  by (cases rule: malloc_split [of m]) (auto simp: cJSON_malloc_def cJSON_free_def)

end
