(* ===== verification/Spec2Isabelle.thy ===== *)
theory Spec2Isabelle
  imports CJSON_Equal List_Loops Reply_Threads Demo_Start Demo_Answers Leda_Worker Logging CJSON_Error
begin

text \<open>
  A model of the device access SDK of Link IoT Edge over websocket (\<open>src/protocol-implementation-demo/sdk\<close>), in C.

  \<^bold>\<open>The program.\<close> An application calls the interface in \<open>leda.c\<close>: it initialises the SDK, brings devices online and offline
  (\<open>leda_send_method\<close>, which waits for the reply of the gateway) and reports properties and events
  (\<open>leda_asyn_send_method\<close>, which does not). A request becomes a JSON document (\<open>cJSON.c\<close>), its text is copied into
  the buffer of outgoing messages (\<open>wsc_buffer_mgmt.c\<close>), and the network thread (\<open>ws_client_network.c\<close>,
  \<open>ws_client_callback.c\<close>) writes it when libwebsockets says that the socket is writable. A waiting request is an entry of
  an intrusive list (\<open>base-utils.h\<close>) with a semaphore. What arrives is put together from fragments, parsed, copied into
  a task and given to the thread pool (\<open>threadpool.c\<close>). A worker hands a reply to the entry that waits for it, and for a
  request it calls the callback of the application and sends the response.

  \<^bold>\<open>The theories\<close>, in the order of the calls:
  \<^item> \<open>CPrelude\<close>: the conventions of all models (below), lists, options, blocks of bytes, the error codes of \<open>le_error.h\<close>.
  \<^item> \<open>Ring\<close>: rings of slots, and the locale \<open>bounded_fifo\<close> of what a queue promises, with the lemmas that a client of it has.
  \<^item> \<open>Ws_Buffer\<close> (\<open>wsc_buffer_mgmt.c\<close>): the records \<open>msg_buf_status\<close>, \<open>msg_buf_item\<close> and \<open>wsbuf\<close>, every operation; \<open>pending\<close> is
    the abstraction to a queue of messages, \<open>wsb_inv\<close> and \<open>ring_ok\<close> are the invariants. Any schedule that fits delivers the
    messages once and in order; pushes into a full buffer, failed writes and the clearing at a close do not keep that.
  \<^item> \<open>Ws_Client\<close> (\<open>ws_client.c\<close>, \<open>ws_client_callback.c\<close>, \<open>ws_client_network.c\<close>): initialisation, sending, shutdown, the callback, the
    loop of the network thread along a list of rounds. Fragments are reassembled into the message that was sent.
  \<^item> \<open>Threadpool\<close> (\<open>threadpool.c\<close>): the critical sections as functions on the record \<open>pool\<close>; \<open>tp_step\<close> is the relation of their
    interleavings, with reachability and invariants: tasks run once and in order, no wakeup is lost, a graceful
    shutdown drains the queue and ends.
  \<^item> \<open>CDouble\<close>: \<open>double\<close>s as sign and rational, and \<open>strtod\<close>, \<open>printf\<close>, \<open>sscanf\<close> as far as cJSON uses them.
  \<^item> \<open>CDouble_Digits\<close>: the doubles of 64 bits, and how many digits they need: 17 significant ones determine a double, and six
    decimals are kept when there are at most 15 digits in all.
  \<^item> \<open>CJSON_Tree\<close>, \<open>CJSON_Edit\<close>, \<open>CJSON_Parse\<close>, \<open>CJSON_Print\<close> (\<open>cJSON.c\<close>): items as a datatype, construction, access, editing (the locale
    \<open>named_store\<close> states what adding and looking up by name promise), comparison, minification, the parser on the bytes of the text and the printer on the bytes of its buffer. The parser is
    total and stays inside its blocks; the printer implements \<open>render\<close>, a recursive definition of the text.
  \<^item> \<open>CJSON_Numbers\<close>: \<open>print_number\<close> and \<open>parse_number\<close> on every finite double.
  \<^item> \<open>CJSON_Equal\<close>: \<open>cJSON_Compare\<close> decides equality of JSON values, in which objects are finite maps.
  \<^item> \<open>CJSON_Roundtrip\<close>: parsing what was printed gives the document back (\<open>json_document\<close>); the locale \<open>text_codec\<close> states this as
    a contract, interpreted on the printer and the parser.
  \<^item> \<open>CJSON_Error\<close>: the error that the last parse has left, the version, \<open>cJSON_malloc\<close> and \<open>cJSON_free\<close>.
  \<^item> \<open>CJSON_Normal\<close>: what the parser returns can be printed, and is read back from what was printed.
  \<^item> \<open>List_Head\<close> (\<open>base-utils.h\<close>): the list macros and functions on a heap of \<open>next\<close> and \<open>prev\<close> pointers; the
    locale \<open>node_list\<close> is what a list of nodes promises.
  \<^item> \<open>List_Loops\<close> (\<open>base-utils.h\<close>): the macros for entries, and the loops that start in the middle or go backwards while the list changes.
  \<^item> \<open>Reply_Table\<close> (\<open>_ws_\<dots>\<close> functions of \<open>leda.c\<close>): the waiting requests; \<open>holds_table\<close> relates the heap to an association list.
  \<^item> \<open>Reply_Threads\<close>: senders and workers on that table, one access or critical section at a time, along any schedule. As long as
    no request is given up, no freed entry is touched and every sender gets the reply to its own request.
  \<^item> \<open>Leda_Data\<close> (\<open>leda.c\<close>): device data to JSON and back, with the round trip.
  \<^item> \<open>Leda\<close> (\<open>leda.c\<close>): the state of the SDK (the record \<open>leda\<close>) and every function of the interface, on the models above.
  \<^item> \<open>Leda_Flow\<close>, \<open>Leda_Answers\<close>, \<open>Leda_Network\<close>: the parts together. A request is sent, its answer comes in through the
    network thread, the parser, the queue and a worker, and the sender returns its code; the gateway's requests are
    answered with the data of the callbacks; reports carry their data; the network thread is safe under all inputs.
  \<^item> \<open>Leda_Worker\<close>: a worker handles the message of any accepted text safely, under every pattern of failed allocations.
  \<^item> \<open>Leda_Life\<close>: initialisation and exit, on every branch: an exit gives back what an initialisation took, a start that succeeds
    establishes what the other theorems assume (\<open>network_ok\<close>, and \<open>sdk_ready\<close> with the connection).
  \<^item> \<open>Demo_Start\<close> (\<open>demo.c\<close>): the arguments, the loop of \<open>leda_init\<close> and \<open>leda_exit\<close>, the end of \<open>main\<close>.
  \<^item> \<open>Demo\<close> (\<open>demo.c\<close>): the lamps of the demo application, its callbacks, the rounds of its threads and the file it reads. What was
    set is read back, in a form that the SDK can send.
  \<^item> \<open>Demo_Answers\<close>: the demo on the SDK: the gateway reads in the text of the response what it has set before.
  \<^item> \<open>Logging\<close> (\<open>log.c\<close>, \<open>os.c\<close>): the level of the log, the text of a message, the copies of strings.

  \<^bold>\<open>Conventions.\<close> \<open>None\<close> as the result of a function that accesses memory is undefined behaviour (an access outside a block or
  to a freed one, a byte that was not written, \<open>NULL\<close>); a theorem that has \<open>Some\<close> in its conclusion excludes it. The allocator
  is the record \<open>mem\<close>: \<open>orc\<close> tells for every call whether it succeeds, \<open>live\<close> counts the blocks; \<open>reliable m\<close> says that
  it never fails, theorems without it hold for every pattern of failures. Theorems that compare \<open>live\<close> before and
  after show that nothing is leaked (or what is). Integers have the width of the code where it can wrap (\<open>size_t\<close> is
  \<open>64 word\<close>, ids are \<open>32 word\<close>), or are \<open>int\<close> with the conversion written out (\<open>size_of_int\<close>, \<open>int_of_uint\<close>, \<open>saturate\<close>). A string is
  a \<open>string\<close> without its NUL (\<open>is_cstr\<close>) or a block with it. Printing \<open>NULL\<close> with \<open>%s\<close> to the log is harmless, any other use
  of it is undefined.

  \<^bold>\<open>Parameters.\<close> Code that is not part of the repository is an argument: \<open>LWS_PRE\<close> (\<open>lws_pre\<close>), the reasons, bytes and results
  of libwebsockets (\<open>lws_reason\<close>, \<open>net_round\<close>, \<open>parse_uri\<close>, \<open>context_ok\<close>), the results of pthread, \<open>sem_init\<close> and \<open>clock_gettime\<close>, the
  callbacks of the application, and what other threads do while a sender waits (\<open>before\<close>, \<open>waits\<close>, \<open>others\<close>).

  \<^bold>\<open>Bounds and fuel.\<close> The recursive descent of the parser is bounded by \<open>parse_fuel\<close>, twice the length of the text and one more:
  every call of \<open>parse_value\<close> on the way down reads a byte, so it never runs out, which \<open>parse_safe\<close> shows (it returns on
  every text). Printing is limited by \<open>INT_MAX\<close> bytes, nesting by \<open>CJSON_NESTING_LIMIT\<close>. The round trips hold for every finite double
  whose \<open>valueint\<close> is the saturated conversion (\<open>number_ok\<close>): \<open>%1.15g\<close> is used when it is read back, \<open>%1.17g\<close> otherwise.
  A single fragment is shorter than 2 ^ 31 bytes.

  \<^bold>\<open>Not modelled.\<close> \<open>os_sleep\<close> and \<open>os_usleep\<close> only delay. The local time and the text of the format of a log message are
  arguments of \<open>log_print\<close>; the models of the other files leave out their log messages, except where an argument is undefined.
  libwebsockets and the kernel are parameters. Data races
  inside one critical section are excluded by the locks the code takes; interleavings are modelled where the code
  releases a lock (the pool, and the table of requests), not between arbitrary instructions. The endless loops
  of the threads of the demo are sequences of the rounds that are modelled.
\<close>

end
